(* ===== verification/Xv6_Prelude.thy ===== *)
theory Xv6_Prelude
  imports Main "HOL-Library.Word"
begin

text \<open>
  Shared vocabulary of the development: machine integers, the outcome type of kernel operations
  with its sequencing operator, little-endian access to byte memories, and the generic lemmas the
  component theories use.

  \<^item> \<open>uchar\<close>, \<open>ushort\<close>, \<open>uint\<close> of \<^verbatim>\<open>types.h\<close> are words of 8, 16 and 32 bits.
  \<^item> A kernel operation returns \<^verbatim>\<open>Ok\<close> with its value and the new state, \<^verbatim>\<open>Panic\<close> with
    the message it passes to \<^verbatim>\<open>panic\<close> (which never returns), or \<^verbatim>\<open>Sleeps\<close> with the channel the
    calling process has to wait on before it can continue.  \<^verbatim>\<open>Diverges\<close> is the outcome of a
    pointer-chasing loop that runs longer than its fuel.
\<close>

unbundle bit_operations_syntax

named_theorems kernel_simps \<open>equations that evaluate kernel operations\<close>
named_theorems frame_simps \<open>fields an operation leaves unchanged\<close>

section \<open>Machine integers\<close>

type_synonym uchar = "8 word"
type_synonym ushort = "16 word"
type_synonym uint = "32 word"

lemma unat_uint_less: "unat (w :: uint) < 2 ^ 32"
  using unsigned_less [of w, where ?'a = nat] by simp

lemma unat_add_of_nat: "unat (a + of_nat k :: uint) = (unat a + k) mod 2 ^ 32"
  by (simp add: unat_word_ariths unat_of_nat mod_add_right_eq)

section \<open>Outcomes of kernel operations\<close>

text \<open>Sleep channels: the kernel objects whose addresses are passed to \<^verbatim>\<open>sleep\<close> and \<^verbatim>\<open>wakeup\<close>.\<close>

datatype chan =
    ChanProc nat        \<comment> \<open>a process, in \<^verbatim>\<open>wait\<close>\<close>
  | ChanBufLock nat     \<comment> \<open>the sleep lock of a buffer\<close>
  | ChanInodeLock nat   \<comment> \<open>the sleep lock of a cached inode\<close>
  | ChanBuf nat         \<comment> \<open>a buffer waiting for the disk, in \<^verbatim>\<open>iderw\<close>\<close>
  | ChanLog             \<comment> \<open>the log, in \<^verbatim>\<open>begin_op\<close>\<close>
  | ChanPipeRead uint   \<comment> \<open>\<^verbatim>\<open>&p->nread\<close>\<close>
  | ChanPipeWrite uint  \<comment> \<open>\<^verbatim>\<open>&p->nwrite\<close>\<close>
  | ChanTicks           \<comment> \<open>\<^verbatim>\<open>&ticks\<close>\<close>
  | ChanInput           \<comment> \<open>\<^verbatim>\<open>&input.r\<close>\<close>

datatype 'a result = Ok 'a | Panic string | Sleeps chan | Diverges

primrec rbind :: "'a result \<Rightarrow> ('a \<Rightarrow> 'b result) \<Rightarrow> 'b result" where
  "rbind (Ok x) f = f x"
| "rbind (Panic m) f = Panic m"
| "rbind (Sleeps c) f = Sleeps c"
| "rbind Diverges f = Diverges"

lemma rbind_Ok_iff [simp]: "rbind m f = Ok y \<longleftrightarrow> (\<exists>x. m = Ok x \<and> f x = Ok y)"
  by (cases m) auto

lemma rbind_assoc: "rbind (rbind m f) g = rbind m (\<lambda>x. rbind (f x) g)"
  by (cases m) auto

lemma rbind_return: "rbind m Ok = m"
  by (cases m) auto

lemma rbind_cong [fundef_cong]:
  "m = m' \<Longrightarrow> (\<And>x. m' = Ok x \<Longrightarrow> f x = f' x) \<Longrightarrow> rbind m f = rbind m' f'"
  by (cases m') auto

primrec is_ok :: "'a result \<Rightarrow> bool" where
  "is_ok (Ok x) = True"
| "is_ok (Panic m) = False"
| "is_ok (Sleeps c) = False"
| "is_ok Diverges = False"

primrec the_ok :: "'a result \<Rightarrow> 'a" where
  "the_ok (Ok x) = x"

lemma is_ok_iff: "is_ok r \<longleftrightarrow> (\<exists>x. r = Ok x)"
  by (cases r) auto

text \<open>A counting loop: the body is run for every element of the list, in order.\<close>

primrec for_each :: "('x \<Rightarrow> 's \<Rightarrow> 's result) \<Rightarrow> 'x list \<Rightarrow> 's \<Rightarrow> 's result" where
  "for_each f [] s = Ok s"
| "for_each f (x # xs) s = rbind (f x s) (for_each f xs)"

lemma for_each_append [simp]: "for_each f (xs @ ys) s = rbind (for_each f xs s) (for_each f ys)"
  by (induction xs arbitrary: s) (simp_all add: rbind_assoc cong: rbind_cong)

section \<open>Byte memories\<close>

text \<open>
  A byte memory is a function from addresses to bytes.  The address type is \<^typ>\<open>uint\<close> for physical
  memory and \<^typ>\<open>nat\<close> for an array or a disk block, so the accessors are polymorphic in it.  The
  machine is little-endian.
\<close>

definition byte_of :: "nat \<Rightarrow> uint \<Rightarrow> uchar" where
  "byte_of k w = ucast (drop_bit (8 * k) w)"

definition ld16 :: "('a::semiring_1 \<Rightarrow> uchar) \<Rightarrow> 'a \<Rightarrow> ushort" where
  "ld16 m a = ucast (m a) OR push_bit 8 (ucast (m (a + 1)))"

definition st16 :: "('a::semiring_1 \<Rightarrow> uchar) \<Rightarrow> 'a \<Rightarrow> ushort \<Rightarrow> ('a \<Rightarrow> uchar)" where
  "st16 m a v = m(a := ucast v, a + 1 := ucast (drop_bit 8 v))"

definition ld32 :: "('a::semiring_1 \<Rightarrow> uchar) \<Rightarrow> 'a \<Rightarrow> uint" where
  "ld32 m a = ucast (m a) OR push_bit 8 (ucast (m (a + 1)))
     OR push_bit 16 (ucast (m (a + 2))) OR push_bit 24 (ucast (m (a + 3)))"

definition st32 :: "('a::semiring_1 \<Rightarrow> uchar) \<Rightarrow> 'a \<Rightarrow> uint \<Rightarrow> ('a \<Rightarrow> uchar)" where
  "st32 m a v = m(a := byte_of 0 v, a + 1 := byte_of 1 v, a + 2 := byte_of 2 v, a + 3 := byte_of 3 v)"

lemma bytes_join32:
  "ucast (byte_of 0 v) OR push_bit 8 (ucast (byte_of 1 v))
     OR push_bit 16 (ucast (byte_of 2 v)) OR push_bit 24 (ucast (byte_of 3 v)) = (v :: uint)"
proof (rule bit_word_eqI)
  fix n assume n: "n < LENGTH(32)"
  then consider "n < 8" | "8 \<le> n" "n < 16" | "16 \<le> n" "n < 24" | "24 \<le> n" "n < 32"
    by fastforce
  then show "bit (ucast (byte_of 0 v) OR push_bit 8 (ucast (byte_of 1 v))
     OR push_bit 16 (ucast (byte_of 2 v)) OR push_bit 24 (ucast (byte_of 3 v)) :: uint) n = bit v n"
    by cases (auto simp: byte_of_def bit_simps)
qed

lemma bytes_join16:
  "ucast (ucast v :: uchar) OR push_bit 8 (ucast (ucast (drop_bit 8 v) :: uchar)) = (v :: ushort)"
  by (rule bit_word_eqI) (auto simp: bit_simps)

lemma ld32_st32_same_nat [simp]: "ld32 (st32 m (a::nat) v) a = v"
  using bytes_join32 [of v] by (simp add: ld32_def st32_def)

lemma ld16_st16_same_nat [simp]: "ld16 (st16 m (a::nat) v) a = v"
  using bytes_join16 [of v] by (simp add: ld16_def st16_def)

lemma ld32_st32_same_word [simp]: "ld32 (st32 m (a::uint) v) a = v"
  using bytes_join32 [of v] by (simp add: ld32_def st32_def)

lemma ld32_st32_disj_nat [simp]:
  "a + 4 \<le> b \<or> b + 4 \<le> a \<Longrightarrow> ld32 (st32 m (a::nat) v) b = ld32 m b"
  by (auto simp: ld32_def st32_def)

lemma ld32_cong: "(\<And>k. k < 4 \<Longrightarrow> m (a + of_nat k) = m' (a + of_nat k)) \<Longrightarrow> ld32 m a = ld32 m' a"
proof -
  assume eq: "\<And>k. k < 4 \<Longrightarrow> m (a + of_nat k) = m' (a + of_nat k)"
  show "ld32 m a = ld32 m' a"
    using eq [of 0] eq [of 1] eq [of 2] eq [of 3] by (simp add: ld32_def)
qed

section \<open>First match in a table\<close>

lemma find_SomeD: "find P xs = Some x \<Longrightarrow> x \<in> set xs \<and> P x"
  by (induction xs) (auto split: if_splits)

lemma find_unique:
  assumes "i \<in> set xs" and "P i" and "\<And>j. j \<in> set xs \<Longrightarrow> P j \<Longrightarrow> j = i"
  shows "find P xs = Some i"
proof -
  from assms(1,2) have "find P xs \<noteq> None" by (auto simp: find_None_iff)
  then obtain j where j: "find P xs = Some j" by auto
  then have "j = i" using assms(3) find_SomeD by metis
  with j show ?thesis by simp
qed

lemma find_upt_Some:
  "find P [a..<b] = Some i \<longleftrightarrow> a \<le> i \<and> i < b \<and> P i \<and> (\<forall>j. a \<le> j \<longrightarrow> j < i \<longrightarrow> \<not> P j)"
proof -
  have "find P [a..<b] = Some i \<longleftrightarrow>
      (\<exists>k < b - a. P (a + k) \<and> i = a + k \<and> (\<forall>j < k. \<not> P (a + j)))"
    by (auto simp: find_Some_iff)
  also have "\<dots> \<longleftrightarrow> a \<le> i \<and> i < b \<and> P i \<and> (\<forall>j. a \<le> j \<longrightarrow> j < i \<longrightarrow> \<not> P j)"
    by (auto simp: le_iff_add)
  finally show ?thesis .
qed

lemma find_upt_None: "find P [a..<b] = None \<longleftrightarrow> (\<forall>j. a \<le> j \<longrightarrow> j < b \<longrightarrow> \<not> P j)"
  by (auto simp: find_None_iff)

end
