(* ===== verification/C_String.thy ===== *)
theory C_String
  imports Xv6_Prelude
begin

text \<open>
  \<^verbatim>\<open>string.c\<close>, the kernel's memory and string primitives, with the two \<^verbatim>\<open>rep stos\<close> instructions of
  \<^verbatim>\<open>x86.h\<close> that \<^verbatim>\<open>memset\<close> uses.

  \<^verbatim>\<open>memset\<close>, \<^verbatim>\<open>memmove\<close> and \<^verbatim>\<open>memcmp\<close> work on the flat 32-bit memory, where source and
  destination may overlap and addresses wrap.  The string functions work on character arrays
  (functions from an index to a byte), since their arguments are distinct objects.
\<close>

type_synonym memory = "uint \<Rightarrow> uchar"
type_synonym carray = "nat \<Rightarrow> uchar"

section \<open>Definitions\<close>

fun stosb :: "memory \<Rightarrow> uint \<Rightarrow> uchar \<Rightarrow> nat \<Rightarrow> memory" where
  "stosb m addr data 0 = m"
| "stosb m addr data (Suc cnt) = stosb (m(addr := data)) (addr + 1) data cnt"

fun stosl :: "memory \<Rightarrow> uint \<Rightarrow> uint \<Rightarrow> nat \<Rightarrow> memory" where
  "stosl m addr data 0 = m"
| "stosl m addr data (Suc cnt) = stosl (st32 m addr data) (addr + 4) data cnt"

definition memset :: "memory \<Rightarrow> uint \<Rightarrow> uint \<Rightarrow> uint \<Rightarrow> memory" where
  "memset m dst c n =
     (if dst mod 4 = 0 \<and> n mod 4 = 0
      then let c = c AND 0xFF
           in stosl m dst (push_bit 24 c OR push_bit 16 c OR push_bit 8 c OR c) (unat (n div 4))
      else stosb m dst (ucast c) (unat n))"

fun memcmp_loop :: "memory \<Rightarrow> uint \<Rightarrow> uint \<Rightarrow> nat \<Rightarrow> int" where
  "memcmp_loop m s1 s2 0 = 0"
| "memcmp_loop m s1 s2 (Suc n) =
     (if m s1 \<noteq> m s2 then uint (m s1) - uint (m s2)
      else memcmp_loop m (s1 + 1) (s2 + 1) n)"

definition memcmp :: "memory \<Rightarrow> uint \<Rightarrow> uint \<Rightarrow> uint \<Rightarrow> int" where
  "memcmp m v1 v2 n = memcmp_loop m v1 v2 (unat n)"

fun copy_up :: "memory \<Rightarrow> uint \<Rightarrow> uint \<Rightarrow> nat \<Rightarrow> memory" where
  "copy_up m d s 0 = m"
| "copy_up m d s (Suc n) = copy_up (m(d := m s)) (d + 1) (s + 1) n"

fun copy_down :: "memory \<Rightarrow> uint \<Rightarrow> uint \<Rightarrow> nat \<Rightarrow> memory" where
  "copy_down m d s 0 = m"
| "copy_down m d s (Suc n) = copy_down (m(d - 1 := m (s - 1))) (d - 1) (s - 1) n"

definition memmove :: "memory \<Rightarrow> uint \<Rightarrow> uint \<Rightarrow> uint \<Rightarrow> memory" where
  "memmove m dst src n =
     (if src < dst \<and> src + n > dst
      then copy_down m (dst + n) (src + n) (unat n)
      else copy_up m dst src (unat n))"

definition memcpy :: "memory \<Rightarrow> uint \<Rightarrow> uint \<Rightarrow> uint \<Rightarrow> memory" where
  "memcpy m dst src n = memmove m dst src n"

text \<open>\<^verbatim>\<open>strncmp\<close>: the index \<open>i\<close> is how far \<^verbatim>\<open>p\<close> and \<^verbatim>\<open>q\<close> have advanced.\<close>

fun strncmp_loop :: "carray \<Rightarrow> carray \<Rightarrow> nat \<Rightarrow> nat \<Rightarrow> int" where
  "strncmp_loop p q i 0 = 0"
| "strncmp_loop p q i (Suc n) =
     (if p i \<noteq> 0 \<and> p i = q i then strncmp_loop p q (Suc i) n
      else uint (p i) - uint (q i))"

definition strncmp :: "carray \<Rightarrow> carray \<Rightarrow> uint \<Rightarrow> int" where
  "strncmp p q n = strncmp_loop p q 0 (unat n)"

text \<open>\<^verbatim>\<open>strncpy\<close>: its two loops, the copy up to the terminator and the padding.\<close>

fun strncpy_pad :: "carray \<Rightarrow> nat \<Rightarrow> nat \<Rightarrow> carray" where
  "strncpy_pad s i 0 = s"
| "strncpy_pad s i (Suc n) = strncpy_pad (s(i := 0)) (Suc i) n"

fun strncpy_copy :: "carray \<Rightarrow> carray \<Rightarrow> nat \<Rightarrow> nat \<Rightarrow> carray" where
  "strncpy_copy s t i 0 = s"
| "strncpy_copy s t i (Suc n) =
     (if t i \<noteq> 0 then strncpy_copy (s(i := t i)) t (Suc i) n
      else strncpy_pad (s(i := t i)) (Suc i) n)"

definition strncpy :: "carray \<Rightarrow> carray \<Rightarrow> int \<Rightarrow> carray" where
  "strncpy s t n = strncpy_copy s t 0 (nat n)"

text \<open>\<^verbatim>\<open>safestrcpy\<close>: the loop leaves \<^verbatim>\<open>s\<close> at the position the final terminator is written to.\<close>

fun safestrcpy_loop :: "carray \<Rightarrow> carray \<Rightarrow> nat \<Rightarrow> nat \<Rightarrow> carray \<times> nat" where
  "safestrcpy_loop s t i 0 = (s, i)"
| "safestrcpy_loop s t i (Suc n) =
     (if t i \<noteq> 0 then safestrcpy_loop (s(i := t i)) t (Suc i) n
      else (s(i := t i), Suc i))"

definition safestrcpy :: "carray \<Rightarrow> carray \<Rightarrow> int \<Rightarrow> carray" where
  "safestrcpy s t n =
     (if n \<le> 0 then s
      else let (s', i) = safestrcpy_loop s t 0 (nat n - 1) in s'(i := 0))"

text \<open>\<^verbatim>\<open>strlen\<close> scans until it meets a terminator; without one it does not return.\<close>

partial_function (option) strlen_from :: "carray \<Rightarrow> nat \<Rightarrow> nat option" where
  "strlen_from s n = (if s n \<noteq> 0 then strlen_from s (Suc n) else Some n)"

definition strlen :: "carray \<Rightarrow> nat option" where
  "strlen s = strlen_from s 0"

section \<open>Specifications\<close>

definition mem_fill :: "memory \<Rightarrow> uint \<Rightarrow> uchar \<Rightarrow> uint \<Rightarrow> memory" where
  "mem_fill m dst c n = (\<lambda>a. if a - dst < n then c else m a)"

definition mem_copy :: "memory \<Rightarrow> uint \<Rightarrow> uint \<Rightarrow> uint \<Rightarrow> memory" where
  "mem_copy m dst src n = (\<lambda>a. if a - dst < n then m (src + (a - dst)) else m a)"

text \<open>The string an array of \<open>n\<close> characters holds: its characters before the first terminator.\<close>

definition cstr_n :: "nat \<Rightarrow> carray \<Rightarrow> uchar list" where
  "cstr_n n p = takeWhile (\<lambda>c. c \<noteq> 0) (map p [0..<n])"

section \<open>Memory primitives\<close>

lemma unat_diff_step:
  fixes x a :: uint
  assumes "x \<noteq> a"
  shows "unat (x - a) = Suc (unat (x - (a + 1)))"
proof -
  have "unat ((x - a) - 1) = unat (x - a) - 1"
    using assms by (intro unat_minus_one) simp
  then have "unat (x - (a + 1)) = unat (x - a) - 1"
    by (simp add: diff_diff_eq)
  moreover have "0 < unat (x - a)"
    using assms by (simp add: unat_gt_0)
  ultimately show ?thesis by simp
qed

lemma stosb_apply:
  "n < 2 ^ 32 \<Longrightarrow> stosb m a c n x = (if unat (x - a) < n then c else m x)"
proof (induction n arbitrary: m a)
  case 0
  then show ?case by simp
next
  case (Suc n)
  show ?case
  proof (cases "x = a")
    case True
    have "unat (- 1 :: uint) = 2 ^ 32 - 1"
      by (simp add: unsigned_minus_1_eq_mask mask_eq_exp_minus_1)
    with True Suc show ?thesis by simp
  next
    case False
    with Suc show ?thesis by (simp add: unat_diff_step)
  qed
qed

lemma stosl_stosb:
  assumes "\<And>k. k < 4 \<Longrightarrow> byte_of k d = c"
  shows "stosl m a d n = stosb m a c (4 * n)"
proof (induction n arbitrary: m a)
  case 0
  then show ?case by simp
next
  case (Suc n)
  have st: "st32 m a d = m(a := c, a + 1 := c, a + 2 := c, a + 3 := c)"
    using assms [of 0] assms [of 1] assms [of 2] assms [of 3] by (simp add: st32_def)
  have four: "4 * Suc n = Suc (Suc (Suc (Suc (4 * n))))" by simp
  have "stosb m a c (4 * Suc n) =
      stosb (m(a := c, a + 1 := c, a + 2 := c, a + 3 := c)) (a + 4) c (4 * n)"
    by (simp only: four stosb.simps add.assoc one_add_one) (simp add: add.assoc)
  then show ?case using Suc.IH st by (simp only: stosl.simps)
qed

lemma replicated_byte:
  fixes c :: uint
  assumes "k < 4"
  shows "byte_of k (push_bit 24 (c AND 0xFF) OR push_bit 16 (c AND 0xFF)
    OR push_bit 8 (c AND 0xFF) OR (c AND 0xFF)) = ucast c"
proof (rule bit_word_eqI)
  fix n assume n: "n < LENGTH(8)"
  have mask: "(0xFF :: uint) = mask 8" by (simp add: mask_eq_exp_minus_1)
  from assms consider "k = 0" | "k = 1" | "k = 2" | "k = 3" by linarith
  then show "bit (byte_of k (push_bit 24 (c AND 0xFF) OR push_bit 16 (c AND 0xFF)
    OR push_bit 8 (c AND 0xFF) OR (c AND 0xFF))) n = bit (ucast c :: uchar) n"
    unfolding mask using n by cases (auto simp: byte_of_def bit_simps)
qed

lemma unat_div4_times4: "(n :: uint) mod 4 = 0 \<Longrightarrow> 4 * unat (n div 4) = unat n"
proof -
  assume "n mod 4 = 0"
  then have "unat (n mod 4) = 0" by simp
  then have "unat n mod 4 = 0" by (simp add: unat_mod_distrib)
  then show ?thesis by (simp add: unat_div_distrib mult.commute dvd_eq_mod_eq_0 [symmetric])
qed

lemma copy_up_apply:
  assumes "n < 2 ^ 32" and "\<And>k. 0 < k \<Longrightarrow> k < n \<Longrightarrow> s + of_nat k \<noteq> d"
  shows "copy_up m d s n x = (if unat (x - d) < n then m (s + (x - d)) else m x)"
  using assms
proof (induction n arbitrary: m d s)
  case 0
  then show ?case by simp
next
  case (Suc n)
  have IH: "copy_up (m(d := m s)) (d + 1) (s + 1) n x =
    (if unat (x - (d + 1)) < n then (m(d := m s)) (s + 1 + (x - (d + 1))) else (m(d := m s)) x)"
    using Suc.prems by (intro Suc.IH) (auto simp: algebra_simps)
  show ?case
  proof (cases "x = d")
    case True
    have "unat (- 1 :: uint) = 2 ^ 32 - 1"
      by (simp add: unsigned_minus_1_eq_mask mask_eq_exp_minus_1)
    with True IH Suc.prems show ?thesis by simp
  next
    case False
    have "s + (x - d) \<noteq> d" if "unat (x - d) < Suc n"
      using Suc.prems(2) [of "unat (x - d)"] that False by (simp add: unat_gt_0)
    with False IH show ?thesis by (auto simp: unat_diff_step algebra_simps)
  qed
qed

lemma copy_down_apply:
  assumes "n < 2 ^ 32" and "\<And>k. 0 < k \<Longrightarrow> k < n \<Longrightarrow> d + of_nat k \<noteq> s"
  shows "copy_down m (d + of_nat n) (s + of_nat n) n x =
    (if unat (x - d) < n then m (s + (x - d)) else m x)"
  using assms
proof (induction n arbitrary: m)
  case 0
  then show ?case by simp
next
  case (Suc n)
  let ?m = "m(d + of_nat n := m (s + of_nat n))"
  have IH: "copy_down ?m (d + of_nat n) (s + of_nat n) n x =
    (if unat (x - d) < n then ?m (s + (x - d)) else ?m x)"
    using Suc.prems by (intro Suc.IH) auto
  have step: "copy_down m (d + of_nat (Suc n)) (s + of_nat (Suc n)) (Suc n) x =
      copy_down ?m (d + of_nat n) (s + of_nat n) n x"
    by (simp add: algebra_simps)
  have n_eq: "x = d + of_nat n \<longleftrightarrow> unat (x - d) = n"
  proof
    assume "x = d + of_nat n"
    with Suc.prems(1) show "unat (x - d) = n" by (simp add: unat_of_nat)
  next
    assume "unat (x - d) = n"
    then have "x - d = of_nat n" by auto
    then show "x = d + of_nat n" by (simp add: algebra_simps)
  qed
  have "s + (x - d) \<noteq> d + of_nat n" if "unat (x - d) < n"
  proof
    assume "s + (x - d) = d + of_nat n"
    then have "s = d + (of_nat n - of_nat (unat (x - d)))" by (simp add: algebra_simps)
    also have "of_nat n - of_nat (unat (x - d)) = (of_nat (n - unat (x - d)) :: uint)"
      using that by (simp add: of_nat_diff)
    finally have "d + of_nat (n - unat (x - d)) = s" by (rule sym)
    moreover have "0 < n - unat (x - d)" and "n - unat (x - d) < Suc n" using that by auto
    ultimately show False using Suc.prems(2) by blast
  qed
  with step IH n_eq show ?case by (auto simp: less_Suc_eq)
qed

theorem memset_fills: "memset m dst c n = mem_fill m dst (ucast c) n"
proof (rule ext)
  fix x
  have lt: "unat n < 2 ^ 32" by (rule unat_uint_less)
  have "stosl m dst (push_bit 24 (c AND 0xFF) OR push_bit 16 (c AND 0xFF) OR push_bit 8 (c AND 0xFF)
      OR (c AND 0xFF)) (unat (n div 4)) = stosb m dst (ucast c) (unat n)" if "n mod 4 = 0"
    using stosl_stosb [OF replicated_byte [of _ c], of m dst "unat (n div 4)"]
    by (simp add: unat_div4_times4 that)
  then have "memset m dst c n = stosb m dst (ucast c) (unat n)"
    by (simp add: memset_def Let_def)
  then show "memset m dst c n x = mem_fill m dst (ucast c) n x"
    using lt by (simp add: mem_fill_def stosb_apply word_less_nat_alt)
qed

theorem memmove_copies:
  assumes "unat src + unat n < 2 ^ 32" and "unat dst + unat n \<le> 2 ^ 32"
  shows "memmove m dst src n = mem_copy m dst src n"
proof (rule ext)
  fix x
  have n: "unat n < 2 ^ 32" by (rule unat_uint_less)
  have src_n: "unat (src + n) = unat src + unat n"
    using assms(1) by (simp add: unat_word_ariths)
  show "memmove m dst src n x = mem_copy m dst src n x"
  proof (cases "src < dst \<and> src + n > dst")
    case True
    have "dst + of_nat k \<noteq> src" if "0 < k" "k < unat n" for k
    proof
      assume "dst + of_nat k = src"
      then have "(unat dst + k) mod 2 ^ 32 = unat src" using unat_add_of_nat by metis
      moreover have "unat dst + k < 2 ^ 32" using that assms(2) by simp
      ultimately show False using True that by (simp add: word_less_nat_alt)
    qed
    from copy_down_apply [OF n this] True show ?thesis
      by (simp add: memmove_def mem_copy_def word_less_nat_alt)
  next
    case False
    have "src + of_nat k \<noteq> dst" if "0 < k" "k < unat n" for k
    proof
      assume "src + of_nat k = dst"
      then have "(unat src + k) mod 2 ^ 32 = unat dst" using unat_add_of_nat by metis
      moreover have "unat src + k < 2 ^ 32" using that assms(1) by simp
      ultimately have "unat src + k = unat dst" by simp
      with False that src_n show False by (simp add: word_less_nat_alt)
    qed
    from copy_up_apply [OF n this] False show ?thesis
      by (auto simp: memmove_def mem_copy_def word_less_nat_alt)
  qed
qed

lemma memcmp_loop_zero:
  "memcmp_loop m a b n = 0 \<longleftrightarrow> (\<forall>i < n. m (a + of_nat i) = m (b + of_nat i))"
proof (induction n arbitrary: a b)
  case 0
  then show ?case by simp
next
  case (Suc n)
  show ?case
  proof (cases "m a = m b")
    case True
    then have "memcmp_loop m a b (Suc n) = 0 \<longleftrightarrow>
        (\<forall>i < n. m (a + 1 + of_nat i) = m (b + 1 + of_nat i))"
      using Suc.IH by simp
    also have "\<dots> \<longleftrightarrow> (\<forall>i < Suc n. m (a + of_nat i) = m (b + of_nat i))"
      using True by (simp add: All_less_Suc2 algebra_simps)
    finally show ?thesis .
  next
    case False
    then have "uint (m a) \<noteq> uint (m b)" by (simp only: word_uint_eq_iff not_False_eq_True)
    with False show ?thesis by (auto intro!: exI [of _ 0])
  qed
qed

section \<open>Strings\<close>

lemma strncmp_loop_zero:
  "strncmp_loop p q i n = 0 \<longleftrightarrow>
     takeWhile (\<lambda>c. c \<noteq> 0) (map p [i..<i + n]) = takeWhile (\<lambda>c. c \<noteq> 0) (map q [i..<i + n])"
proof (induction n arbitrary: i)
  case 0
  then show ?case by simp
next
  case (Suc n)
  have "[i..<i + Suc n] = i # [Suc i..<Suc i + n]"
    by (simp add: upt_conv_Cons del: upt_Suc)
  moreover have "uint (p i) = uint (q i) \<longleftrightarrow> p i = q i"
    by (simp only: word_uint_eq_iff)
  ultimately show ?case using Suc.IH [of "Suc i"]
    by (auto simp del: upt_Suc)
qed

theorem strncmp_eq_0_iff: "strncmp p q n = 0 \<longleftrightarrow> cstr_n (unat n) p = cstr_n (unat n) q"
  using strncmp_loop_zero [of p q 0 "unat n"] by (simp add: strncmp_def cstr_n_def)

lemma strncpy_pad_apply: "strncpy_pad s i n j = (if i \<le> j \<and> j < i + n then 0 else s j)"
  by (induction n arbitrary: s i) auto

lemma strncpy_copy_apply:
  "strncpy_copy s t i n j =
     (if j < i \<or> i + n \<le> j then s j else if \<exists>k. i \<le> k \<and> k \<le> j \<and> t k = 0 then 0 else t j)"
proof (induction n arbitrary: s i)
  case 0
  then show ?case by auto
next
  case (Suc n)
  show ?case
  proof (cases "t i = 0")
    case True
    then have "(\<exists>k. i \<le> k \<and> k \<le> j \<and> t k = 0) \<longleftrightarrow> i \<le> j" by auto
    with True show ?thesis by (auto simp: strncpy_pad_apply)
  next
    case False
    have "(\<exists>k \<ge> i. k \<le> j \<and> t k = 0) \<longleftrightarrow> (\<exists>k \<ge> Suc i. k \<le> j \<and> t k = 0)"
      using False by (metis Suc_leD le_antisym not_less_eq_eq)
    with False show ?thesis by (auto simp: Suc.IH less_Suc_eq)
  qed
qed

lemma takeWhile_map_upt:
  assumes "k \<le> n" and "\<And>i. i < k \<Longrightarrow> P (f i)" and "k < n \<Longrightarrow> \<not> P (f k)"
  shows "takeWhile P (map f [0..<n]) = map f [0..<k]"
proof (cases "k = n")
  case True
  with assms(2) show ?thesis by (simp add: takeWhile_eq_all_conv)
next
  case False
  with assms(1) have "[0..<n] = [0..<k] @ [k..<n]"
    by (metis le_add_diff_inverse plus_nat.add_0 upt_add_eq_append zero_le)
  moreover have "[k..<n] = k # [Suc k..<n]"
    using False assms(1) by (simp add: upt_conv_Cons)
  ultimately have "map f [0..<n] = map f [0..<k] @ f k # map f [Suc k..<n]" by simp
  moreover have "takeWhile P (map f [0..<k] @ f k # map f [Suc k..<n]) = map f [0..<k]"
    using assms False by (subst takeWhile_append2) auto
  ultimately show ?thesis by simp
qed

theorem strncpy_holds_string:
  assumes "0 \<le> n"
  shows "cstr_n (nat n) (strncpy s t n) = cstr_n (nat n) t"
    and "\<And>j. nat n \<le> j \<Longrightarrow> strncpy s t n j = s j"
proof -
  have apply_eq: "strncpy s t n j =
      (if nat n \<le> j then s j else if \<exists>k \<le> j. t k = 0 then 0 else t j)" for j
    by (simp add: strncpy_def strncpy_copy_apply)
  show "\<And>j. nat n \<le> j \<Longrightarrow> strncpy s t n j = s j"
    by (simp add: apply_eq)
  show "cstr_n (nat n) (strncpy s t n) = cstr_n (nat n) t"
  proof (cases "\<exists>k < nat n. t k = 0")
    case True
    define k where "k = (LEAST k. t k = 0)"
    from True have k0: "t k = 0" and kn: "k < nat n" and before: "\<And>i. i < k \<Longrightarrow> t i \<noteq> 0"
      unfolding k_def by (auto intro: LeastI dest: not_less_Least order.strict_trans1 [OF Least_le])
    have same: "strncpy s t n i = t i" if "i < k" for i
      using that kn before by (auto simp: apply_eq)
    have "cstr_n (nat n) (strncpy s t n) = map (strncpy s t n) [0..<k]"
      unfolding cstr_n_def using kn k0 before same
      by (intro takeWhile_map_upt) (auto simp: apply_eq)
    also have "\<dots> = map t [0..<k]" using same by simp
    also have "\<dots> = cstr_n (nat n) t"
      unfolding cstr_n_def using kn k0 before by (intro takeWhile_map_upt [symmetric]) auto
    finally show ?thesis .
  next
    case False
    then have "map (strncpy s t n) [0..<nat n] = map t [0..<nat n]"
      by (auto simp: apply_eq)
    then show ?thesis by (simp only: cstr_n_def)
  qed
qed

lemma strlen_from_returns:
  assumes "t k = 0" and "i \<le> k" and "\<And>j. i \<le> j \<Longrightarrow> j < k \<Longrightarrow> t j \<noteq> 0"
  shows "strlen_from t i = Some k"
  using assms(2,3)
proof (induction "k - i" arbitrary: i)
  case 0
  with assms(1) show ?case by (simp add: strlen_from.simps [of t i])
next
  case (Suc d)
  then have "strlen_from t (Suc i) = Some k" by auto
  with Suc show ?case by (simp add: strlen_from.simps [of t i])
qed

text \<open>
  What \<^verbatim>\<open>safestrcpy\<close> leaves in the first \<open>n\<close> characters: the string of the source cut to
  \<open>n - 1\<close> characters, always with a terminator inside the \<open>n\<close> characters.
\<close>

lemma safestrcpy_loop_prefix:
  "safestrcpy_loop s t i n = (s', j) \<Longrightarrow>
     i \<le> j \<and> j \<le> i + n \<and> (\<forall>k < i. s' k = s k) \<and> (\<forall>k. i + n \<le> k \<longrightarrow> s' k = s k) \<and>
     (\<forall>k. i \<le> k \<longrightarrow> k < j \<longrightarrow> s' k = t k) \<and>
     ((\<forall>k. i \<le> k \<longrightarrow> k < i + n \<longrightarrow> t k \<noteq> 0) \<and> j = i + n
        \<or> i < j \<and> t (j - 1) = 0 \<and> (\<forall>k. i \<le> k \<longrightarrow> k < j - 1 \<longrightarrow> t k \<noteq> 0))"
proof (induction n arbitrary: s i)
  case 0
  then show ?case by auto
next
  case (Suc n)
  show ?case
  proof (cases "t i = 0")
    case True
    with Suc.prems show ?thesis by (auto simp: less_Suc_eq)
  next
    case False
    with Suc.prems have "safestrcpy_loop (s(i := t i)) t (Suc i) n = (s', j)" by simp
    note IH = Suc.IH [OF this]
    have split: "(\<forall>k. i \<le> k \<longrightarrow> Q k) \<longleftrightarrow> Q i \<and> (\<forall>k. Suc i \<le> k \<longrightarrow> Q k)" for Q :: "nat \<Rightarrow> bool"
      by (metis Suc_leD le_refl not_less_eq_eq order.antisym)
    from IH have "s' i = t i" by auto
    with IH False show ?thesis
      by (subst (1 2 3) split) auto
  qed
qed

lemma safestrcpy_cstr:
  assumes "0 < n"
  shows "cstr_n (nat n) (safestrcpy s t n) = cstr_n (nat n - 1) t"
    and "nat n \<le> k \<Longrightarrow> safestrcpy s t n k = s k"
    and "\<exists>k < nat n. safestrcpy s t n k = 0"
proof -
  obtain s' j where loop: "safestrcpy_loop s t 0 (nat n - 1) = (s', j)" by fastforce
  note facts = safestrcpy_loop_prefix [OF loop]
  have eq: "safestrcpy s t n = s'(j := 0)" using assms loop by (simp add: safestrcpy_def)
  from facts assms have jn: "j < nat n" by auto
  show "nat n \<le> k \<Longrightarrow> safestrcpy s t n k = s k"
    using facts jn by (auto simp: eq)
  show "\<exists>k < nat n. safestrcpy s t n k = 0"
    using jn by (auto simp: eq)
  define l where "l = (if (\<forall>k < nat n - 1. t k \<noteq> 0) then nat n - 1 else j - 1)"
  have l: "l \<le> nat n - 1" "\<And>i. i < l \<Longrightarrow> t i \<noteq> 0" "\<And>i. i < l \<Longrightarrow> (s'(j := 0)) i = t i"
      "l < nat n - 1 \<Longrightarrow> t l = 0" "(s'(j := 0)) l = 0"
    using facts jn unfolding l_def by (auto split: if_splits)
  have "cstr_n (nat n) (s'(j := 0)) = map (s'(j := 0)) [0..<l]"
    unfolding cstr_n_def using l assms by (intro takeWhile_map_upt) auto
  also have "\<dots> = map t [0..<l]" using l(3) by auto
  also have "\<dots> = cstr_n (nat n - 1) t"
    unfolding cstr_n_def using l by (intro takeWhile_map_upt [symmetric]) auto
  finally show "cstr_n (nat n) (safestrcpy s t n) = cstr_n (nat n - 1) t" by (simp only: eq)
qed

section \<open>Properties\<close>

text \<open>
  (C9) \<^verbatim>\<open>memmove\<close> is a simultaneous copy: after it, the destination holds what the source held before,
  even when the two overlap, and no other byte changes.
\<close>

theorem memmove_overlap_safe:
  assumes "unat src + unat n < 2 ^ 32" and "unat dst + unat n \<le> 2 ^ 32"
  shows "memmove m dst src n = mem_copy m dst src n"
  using assms by (rule memmove_copies)

theorem memmove_overlap_safe_witness:
  "map (memmove (\<lambda>a. ucast a) 3 2 4) [0, 1, 2, 3, 4, 5, 6, 7] = [0, 1, 2, 2, 3, 4, 5, 7]"
  using memmove_overlap_safe [of 2 4 3 "\<lambda>a. ucast a"] by (simp add: mem_copy_def)

end
