(* ===== verification/Mmu.thy ===== *)
theory Mmu
  imports Xv6_Prelude
begin

text \<open>
  The address arithmetic of \<^verbatim>\<open>mmu.h\<close> and \<^verbatim>\<open>memlayout.h\<close>: page rounding, the split of a linear
  address into directory index, table index and offset, and the kernel's linear map of physical
  memory.  Everything is 32-bit arithmetic that wraps, as the macros compute it.
\<close>

section \<open>Constants and macros\<close>

definition EXTMEM :: uint where "EXTMEM = 0x100000"
definition PHYSTOP :: uint where "PHYSTOP = 0xE000000"
definition DEVSPACE :: uint where "DEVSPACE = 0xFE000000"
definition KERNBASE :: uint where "KERNBASE = 0x80000000"
definition KERNLINK :: uint where "KERNLINK = KERNBASE + EXTMEM"

definition V2P :: "uint \<Rightarrow> uint" where "V2P a = a - KERNBASE"
definition P2V :: "uint \<Rightarrow> uint" where "P2V a = a + KERNBASE"

definition PGSIZE :: uint where "PGSIZE = 4096"
definition PTXSHIFT :: nat where "PTXSHIFT = 12"
definition PDXSHIFT :: nat where "PDXSHIFT = 22"

definition PDX :: "uint \<Rightarrow> uint" where "PDX va = drop_bit PDXSHIFT va AND 0x3FF"
definition PTX :: "uint \<Rightarrow> uint" where "PTX va = drop_bit PTXSHIFT va AND 0x3FF"

definition PGADDR :: "uint \<Rightarrow> uint \<Rightarrow> uint \<Rightarrow> uint" where
  "PGADDR d t ofs = push_bit PDXSHIFT d OR push_bit PTXSHIFT t OR ofs"

definition PGROUNDUP :: "uint \<Rightarrow> uint" where
  "PGROUNDUP sz = (sz + PGSIZE - 1) AND NOT (PGSIZE - 1)"

definition PGROUNDDOWN :: "uint \<Rightarrow> uint" where
  "PGROUNDDOWN a = a AND NOT (PGSIZE - 1)"

definition PTE_P :: uint where "PTE_P = 0x001"
definition PTE_W :: uint where "PTE_W = 0x002"
definition PTE_U :: uint where "PTE_U = 0x004"
definition PTE_PS :: uint where "PTE_PS = 0x080"

definition PTE_ADDR :: "uint \<Rightarrow> uint" where "PTE_ADDR pte = pte AND NOT 0xFFF"
definition PTE_FLAGS :: "uint \<Rightarrow> uint" where "PTE_FLAGS pte = pte AND 0xFFF"

section \<open>Page rounding\<close>

lemma mask12: "(0xFFF :: uint) = mask 12"
  by (simp add: mask_eq_exp_minus_1)

lemma mask10: "(0x3FF :: uint) = mask 10"
  by (simp add: mask_eq_exp_minus_1)

lemma and_mask12: "(a :: uint) AND 0xFFF = a mod 4096"
proof -
  have "a AND mask 12 = take_bit 12 a" by (simp add: take_bit_eq_mask)
  also have "\<dots> = a mod 2 ^ 12" by (rule take_bit_eq_mod)
  finally show ?thesis by (simp add: mask12)
qed

lemma PGROUNDDOWN_eq: "PGROUNDDOWN a = a - a mod PGSIZE"
proof -
  have "(a AND 0xFFF) + (a AND NOT 0xFFF) = (a AND 0xFFF) OR (a AND NOT 0xFFF)"
    by (rule disjunctive_add_eq_or) (auto simp: bit_eq_iff bit_simps)
  also have "\<dots> = a" by (auto simp: bit_eq_iff bit_simps)
  finally have "a = (a AND 0xFFF) + (a AND NOT 0xFFF)" by (rule sym)
  then show ?thesis by (simp add: PGROUNDDOWN_def PGSIZE_def and_mask12 algebra_simps)
qed

lemma PGROUNDDOWN_aligned [simp]: "PGROUNDDOWN a mod PGSIZE = 0"
proof -
  have "PGROUNDDOWN a AND 0xFFF = 0"
    by (rule bit_word_eqI) (auto simp: PGROUNDDOWN_def PGSIZE_def bit_simps)
  then show ?thesis by (simp add: and_mask12 PGSIZE_def)
qed

lemma PGROUNDUP_DOWN: "PGROUNDUP sz = PGROUNDDOWN (sz + PGSIZE - 1)"
  by (simp add: PGROUNDUP_def PGROUNDDOWN_def)

lemma PGROUNDUP_aligned [simp]: "PGROUNDUP sz mod PGSIZE = 0"
  by (simp add: PGROUNDUP_DOWN)

section \<open>Linear addresses\<close>

lemma bit_PDX: "bit (PDX va) n \<longleftrightarrow> n < 10 \<and> bit va (n + 22)"
  unfolding PDX_def PDXSHIFT_def mask10 by (auto simp: bit_simps add.commute)

lemma bit_PTX: "bit (PTX va) n \<longleftrightarrow> n < 10 \<and> bit va (n + 12)"
  unfolding PTX_def PTXSHIFT_def mask10 by (auto simp: bit_simps add.commute)

theorem PGADDR_split: "PGADDR (PDX va) (PTX va) (va AND 0xFFF) = va"
proof (rule bit_word_eqI)
  fix n assume "n < LENGTH(32)"
  then consider "n < 12" | "12 \<le> n" "n < 22" | "22 \<le> n" "n < 32" by fastforce
  then show "bit (PGADDR (PDX va) (PTX va) (va AND 0xFFF)) n = bit va n"
    unfolding mask12
    by cases (auto simp: PGADDR_def PDXSHIFT_def PTXSHIFT_def bit_PDX bit_PTX bit_simps)
qed

lemma PDX_PTX_PGADDR:
  assumes "d < 1024" and "t < 1024" and "ofs < 4096"
  shows "PDX (PGADDR d t ofs) = d" and "PTX (PGADDR d t ofs) = t"
    and "PGADDR d t ofs AND 0xFFF = ofs"
proof -
  have small: "bit w n \<Longrightarrow> n < k" if "unat w < 2 ^ k" for w :: uint and n k
  proof (rule ccontr)
    assume "bit w n" "\<not> n < k"
    have "take_bit k w = w"
      using that by (simp add: word_unat_eq_iff unsigned_take_bit_eq take_bit_nat_eq_self)
    then have "bit (take_bit k w) n = bit w n" by simp
    with \<open>bit w n\<close> \<open>\<not> n < k\<close> show False by (simp add: bit_simps)
  qed
  have d: "bit d n \<Longrightarrow> n < 10" and t: "bit t n \<Longrightarrow> n < 10" and o: "bit ofs n \<Longrightarrow> n < 12" for n
    using small [of d 10 n] small [of t 10 n] small [of ofs 12 n] assms
    by (auto simp: word_less_nat_alt)
  show "PDX (PGADDR d t ofs) = d"
    by (rule bit_word_eqI)
       (auto simp: bit_PDX PGADDR_def PDXSHIFT_def PTXSHIFT_def bit_simps dest: d t o)
  show "PTX (PGADDR d t ofs) = t"
    by (rule bit_word_eqI)
       (auto simp: bit_PTX PGADDR_def PDXSHIFT_def PTXSHIFT_def bit_simps dest: d t o)
  show "PGADDR d t ofs AND 0xFFF = ofs"
    unfolding mask12 by (rule bit_word_eqI)
       (auto simp: PGADDR_def PDXSHIFT_def PTXSHIFT_def bit_simps dest: d t o)
qed

lemma PTE_ADDR_FLAGS: "PTE_ADDR pte OR PTE_FLAGS pte = pte"
  by (rule bit_word_eqI) (auto simp: PTE_ADDR_def PTE_FLAGS_def bit_simps)

lemma V2P_P2V [simp]: "V2P (P2V a) = a" "P2V (V2P a) = a"
  by (simp_all add: V2P_def P2V_def)

section \<open>Pages\<close>

lemma aligned_iff: "(x :: uint) mod PGSIZE = 0 \<longleftrightarrow> unat x mod 4096 = 0"
  by (simp add: PGSIZE_def word_unat_eq_iff unat_mod_distrib)

lemma aligned_add_PGSIZE:
  assumes "(p :: uint) mod PGSIZE = 0"
  shows "(p + PGSIZE) mod PGSIZE = 0"
proof -
  have "unat (p + PGSIZE) mod 4096 = (unat p + 4096) mod 4096"
    by (simp add: PGSIZE_def unat_word_ariths mod_mod_cancel)
  then show ?thesis using assms by (simp add: aligned_iff)
qed

lemma aligned_unat:
  fixes x :: uint
  assumes "x mod PGSIZE = 0"
  obtains q where "unat x = 4096 * q"
proof -
  from assms have "4096 dvd unat x" by (simp add: aligned_iff dvd_eq_mod_eq_0)
  with that show ?thesis by (blast elim: dvdE)
qed

lemma aligned_add_small:
  fixes x d :: uint
  assumes "x mod PGSIZE = 0" and "d < PGSIZE"
  shows "unat (x + d) = unat x + unat d"
proof -
  from assms(1) obtain q where q: "unat x = 4096 * q" by (rule aligned_unat)
  have "unat x < 2 ^ 32" by (rule unat_uint_less)
  with q have "unat x + 4096 \<le> 2 ^ 32" by simp
  moreover have "unat d < 4096" using assms(2) by (simp add: PGSIZE_def word_less_nat_alt)
  ultimately show ?thesis by (simp add: unat_word_ariths)
qed

lemma in_page_iff:
  fixes x a :: uint
  assumes "x mod PGSIZE = 0"
  shows "a - x < PGSIZE \<longleftrightarrow> PGROUNDDOWN a = x"
proof
  assume lt: "a - x < PGSIZE"
  have "unat a = unat x + unat (a - x)"
    using aligned_add_small [OF assms lt] by simp
  moreover from assms obtain q where "unat x = 4096 * q" by (rule aligned_unat)
  moreover have "unat (a - x) < 4096" using lt by (simp add: PGSIZE_def word_less_nat_alt)
  ultimately have "unat a mod 4096 = unat (a - x)" by simp
  then have "a mod PGSIZE = a - x"
    by (simp add: PGSIZE_def word_unat_eq_iff unat_mod_distrib)
  then show "PGROUNDDOWN a = x" by (simp add: PGROUNDDOWN_eq)
next
  assume "PGROUNDDOWN a = x"
  then have "a - x = a mod PGSIZE" by (simp add: PGROUNDDOWN_eq algebra_simps)
  moreover have "a mod PGSIZE < PGSIZE" by (rule word_mod_less_divisor) (simp add: PGSIZE_def)
  ultimately show "a - x < PGSIZE" by simp
qed

lemma PGROUNDDOWN_add_small:
  "x mod PGSIZE = 0 \<Longrightarrow> d < PGSIZE \<Longrightarrow> PGROUNDDOWN (x + d) = x"
  using in_page_iff [of x "x + d"] by simp

definition same_page :: "(uint \<Rightarrow> uchar) \<Rightarrow> (uint \<Rightarrow> uchar) \<Rightarrow> uint \<Rightarrow> bool" where
  "same_page m m' x \<longleftrightarrow> (\<forall>a. PGROUNDDOWN a = x \<longrightarrow> m a = m' a)"

lemma same_page_refl [simp]: "same_page m m x"
  by (simp add: same_page_def)

lemma same_page_sym: "same_page m m' x \<Longrightarrow> same_page m' m x"
  by (simp add: same_page_def)

lemma same_page_trans: "same_page m m' x \<Longrightarrow> same_page m' m'' x \<Longrightarrow> same_page m m'' x"
  by (simp add: same_page_def)

lemma ld32_same_page:
  assumes "same_page m m' x" and "x mod PGSIZE = 0" and "d < PGSIZE - 3"
  shows "ld32 m (x + d) = ld32 m' (x + d)"
proof (rule ld32_cong)
  fix k :: nat assume "k < 4"
  have "unat d < 4093" using assms(3) by (simp add: PGSIZE_def word_less_nat_alt)
  with \<open>k < 4\<close> have "d + of_nat k < PGSIZE"
    by (simp add: PGSIZE_def word_less_nat_alt unat_add_of_nat)
  with assms(2) have "PGROUNDDOWN (x + (d + of_nat k)) = x" by (rule PGROUNDDOWN_add_small)
  with assms(1) show "m (x + d + of_nat k) = m' (x + d + of_nat k)"
    by (simp add: same_page_def add.assoc)
qed


section \<open>Segment and gate descriptors\<close>

text \<open>The bit fields of \<^verbatim>\<open>struct segdesc\<close> and \<^verbatim>\<open>struct gatedesc\<close>, each a word reduced to its width.\<close>

record segdesc =
  sd_lim_15_0 :: uint
  sd_base_15_0 :: uint
  sd_base_23_16 :: uint
  sd_type :: uint
  sd_s :: uint
  sd_dpl :: uint
  sd_p :: uint
  sd_lim_19_16 :: uint
  sd_avl :: uint
  sd_rsv1 :: uint
  sd_db :: uint
  sd_g :: uint
  sd_base_31_24 :: uint

definition SEG :: "uint \<Rightarrow> uint \<Rightarrow> uint \<Rightarrow> uint \<Rightarrow> segdesc" where
  "SEG type base lim dpl =
     \<lparr>sd_lim_15_0 = drop_bit 12 lim AND 0xffff, sd_base_15_0 = base AND 0xffff,
      sd_base_23_16 = drop_bit 16 base AND 0xff, sd_type = type AND 0xf, sd_s = 1, sd_dpl = dpl AND 3, sd_p = 1,
      sd_lim_19_16 = drop_bit 28 lim, sd_avl = 0, sd_rsv1 = 0, sd_db = 1, sd_g = 1, sd_base_31_24 = drop_bit 24 base\<rparr>"

definition SEG16 :: "uint \<Rightarrow> uint \<Rightarrow> uint \<Rightarrow> uint \<Rightarrow> segdesc" where
  "SEG16 type base lim dpl =
     \<lparr>sd_lim_15_0 = lim AND 0xffff, sd_base_15_0 = base AND 0xffff,
      sd_base_23_16 = drop_bit 16 base AND 0xff, sd_type = type AND 0xf, sd_s = 1, sd_dpl = dpl AND 3, sd_p = 1,
      sd_lim_19_16 = drop_bit 16 lim AND 0xf, sd_avl = 0, sd_rsv1 = 0, sd_db = 1, sd_g = 0, sd_base_31_24 = drop_bit 24 base\<rparr>"

record gatedesc =
  gd_off_15_0 :: uint
  gd_cs :: uint
  gd_args :: uint
  gd_rsv1 :: uint
  gd_type :: uint
  gd_s :: uint
  gd_dpl :: uint
  gd_p :: uint
  gd_off_31_16 :: uint

definition SEG_KCODE :: uint where "SEG_KCODE = 1"
definition SEG_KDATA :: uint where "SEG_KDATA = 2"
definition SEG_UCODE :: uint where "SEG_UCODE = 3"
definition SEG_UDATA :: uint where "SEG_UDATA = 4"
definition SEG_TSS :: uint where "SEG_TSS = 5"
definition DPL_USER :: uint where "DPL_USER = 3"
definition STA_X :: uint where "STA_X = 8"
definition STA_W :: uint where "STA_W = 2"
definition STA_R :: uint where "STA_R = 2"
definition STS_T32A :: uint where "STS_T32A = 9"
definition STS_IG32 :: uint where "STS_IG32 = 0xE"
definition STS_TG32 :: uint where "STS_TG32 = 0xF"
definition FL_IF :: uint where "FL_IF = 0x200"

definition SETGATE :: "bool \<Rightarrow> uint \<Rightarrow> uint \<Rightarrow> uint \<Rightarrow> gatedesc" where
  "SETGATE istrap sel off d =
     \<lparr>gd_off_15_0 = off AND 0xffff, gd_cs = sel AND 0xffff, gd_args = 0, gd_rsv1 = 0,
      gd_type = (if istrap then STS_TG32 else STS_IG32), gd_s = 0, gd_dpl = d AND 3, gd_p = 1,
      gd_off_31_16 = drop_bit 16 off\<rparr>"

text \<open>The processor reassembles base and offset from the pieces.\<close>

lemma mask16: "(0xffff :: uint) = mask 16"
  by (simp add: mask_eq_exp_minus_1)

lemma mask8: "(0xff :: uint) = mask 8"
  by (simp add: mask_eq_exp_minus_1)

lemma SEG_base:
  "push_bit 24 (sd_base_31_24 (SEG t b l d)) OR push_bit 16 (sd_base_23_16 (SEG t b l d)) OR sd_base_15_0 (SEG t b l d) = b"
  (is "?l = b")
proof (rule bit_word_eqI)
  fix n assume "n < LENGTH(32)"
  then show "bit ?l n = bit b n"
    unfolding SEG_def segdesc.simps mask16 mask8 by (cases "24 \<le> n") (auto simp: bit_simps)
qed

lemma SETGATE_offset: "push_bit 16 (gd_off_31_16 (SETGATE i c f d)) OR gd_off_15_0 (SETGATE i c f d) = f"
  unfolding SETGATE_def gatedesc.simps mask16 by (rule bit_word_eqI) (auto simp: bit_simps)

end
