(* ===== verification/Kalloc.thy ===== *)
theory Kalloc
  imports C_String Mmu
begin

text \<open>
  \<^verbatim>\<open>kalloc.c\<close>, the physical page allocator.  The free pages form a linked list through the first
  word of each page (\<^verbatim>\<open>struct run\<close>), in memory that everything else of the kernel shares.

  \<^item> State \<open>kmem_st\<close>: physical memory, the list head \<^verbatim>\<open>kmem.freelist\<close>, \<^verbatim>\<open>kmem.use_lock\<close>, and the
    address \<^verbatim>\<open>end\<close> of the first byte after the kernel, which the linker script defines and no
    operation changes.
  \<^item> \<open>free_list\<close> relates the in-memory list to the list of its pages; \<open>kmem_inv\<close> is the
    allocator's invariant.
  \<^item> The locale \<open>page_allocator\<close> is the contract its clients (page tables, kernel stacks, pipes)
    use; it is interpreted on \<open>kalloc\<close> and \<open>kfree\<close> below.
\<close>

section \<open>State and operations\<close>

record kmem_st =
  mem :: memory
  freelist :: uint
  use_lock :: bool
  kend :: uint     \<comment> \<open>the linker symbol \<^verbatim>\<open>end\<close>\<close>
  kdata :: uint    \<comment> \<open>the linker symbol \<^verbatim>\<open>data\<close>\<close>

definition kfree :: "uint \<Rightarrow> 'a kmem_st_scheme \<Rightarrow> 'a kmem_st_scheme result" where
  "kfree v s =
     (if v mod PGSIZE \<noteq> 0 \<or> v < kend s \<or> V2P v \<ge> PHYSTOP then Panic ''kfree''
      else let m = memset (mem s) v 1 PGSIZE
           in Ok (s\<lparr>mem := st32 m v (freelist s), freelist := v\<rparr>))"

definition kalloc :: "'a kmem_st_scheme \<Rightarrow> uint \<times> 'a kmem_st_scheme" where
  "kalloc s =
     (let r = freelist s
      in (r, if r \<noteq> 0 then s\<lparr>freelist := ld32 (mem s) r\<rparr> else s))"

text \<open>
  \<^verbatim>\<open>freerange\<close>: the loop guard is 32-bit arithmetic.  The loop ends because \<^verbatim>\<open>kfree\<close> panics on any
  page above \<^verbatim>\<open>PHYSTOP\<close>, long before the address could wrap.
\<close>

lemma kfree_Ok_below:
  assumes "kfree v s = Ok s'"
  shows "unat (v + PGSIZE) = unat v + 4096"
proof -
  from assms have "v - 0x80000000 < 0xE000000"
    by (auto simp: kfree_def V2P_def KERNBASE_def PHYSTOP_def Let_def not_le split: if_splits)
  then have "unat (v - 0x80000000) < 0xE000000" by (simp add: word_less_nat_alt)
  moreover have "unat v = (unat (v - 0x80000000) + unat (0x80000000 :: uint)) mod 2 ^ 32"
    using unat_word_ariths(1) [of "v - 0x80000000" "0x80000000"]
    by (simp only: diff_add_cancel len_of_numeral_defs) simp
  ultimately have "unat v < 0x8E000000" by simp
  then show ?thesis by (simp add: PGSIZE_def unat_word_ariths)
qed

function freerange_loop :: "uint \<Rightarrow> uint \<Rightarrow> 'a kmem_st_scheme \<Rightarrow> 'a kmem_st_scheme result" where
  "freerange_loop p vend s =
     (if p + PGSIZE \<le> vend
      then rbind (kfree p s) (\<lambda>s. freerange_loop (p + PGSIZE) vend s)
      else Ok s)"
  by pat_completeness auto
termination
proof (relation "measure (\<lambda>(p, vend, s). 2 ^ 32 - unat p)", goal_cases)
  case 1
  then show ?case by simp
next
  case (2 p vend s s')
  have "unat (p + PGSIZE) < 2 ^ 32" by (rule unat_uint_less)
  with kfree_Ok_below [OF 2(2)] show ?case by simp
qed

declare freerange_loop.simps [simp del]

definition freerange :: "uint \<Rightarrow> uint \<Rightarrow> 'a kmem_st_scheme \<Rightarrow> 'a kmem_st_scheme result" where
  "freerange vstart vend s = freerange_loop (PGROUNDUP vstart) vend s"

definition kinit1 :: "uint \<Rightarrow> uint \<Rightarrow> 'a kmem_st_scheme \<Rightarrow> 'a kmem_st_scheme result" where
  "kinit1 vstart vend s = freerange vstart vend (s\<lparr>use_lock := False\<rparr>)"

definition kinit2 :: "uint \<Rightarrow> uint \<Rightarrow> 'a kmem_st_scheme \<Rightarrow> 'a kmem_st_scheme result" where
  "kinit2 vstart vend s = rbind (freerange vstart vend s) (\<lambda>s. Ok (s\<lparr>use_lock := True\<rparr>))"

section \<open>The free list\<close>

definition kernel_page :: "uint \<Rightarrow> uint \<Rightarrow> bool" where
  "kernel_page e v \<longleftrightarrow> v mod PGSIZE = 0 \<and> e \<le> v \<and> V2P v < PHYSTOP"

primrec free_list :: "memory \<Rightarrow> uint \<Rightarrow> uint list \<Rightarrow> bool" where
  "free_list m p [] \<longleftrightarrow> p = 0"
| "free_list m p (x # xs) \<longleftrightarrow> p = x \<and> free_list m (ld32 m x) xs"

definition kmem_inv :: "'a kmem_st_scheme \<Rightarrow> uint list \<Rightarrow> bool" where
  "kmem_inv s xs \<longleftrightarrow>
     free_list (mem s) (freelist s) xs \<and> distinct xs \<and> (\<forall>x \<in> set xs. kernel_page (kend s) x)"

lemma kernel_page_nonzero: "kernel_page e v \<Longrightarrow> v \<noteq> 0"
  by (auto simp: kernel_page_def V2P_def KERNBASE_def PHYSTOP_def)

lemma kernel_page_aligned: "kernel_page e v \<Longrightarrow> v mod PGSIZE = 0"
  by (simp add: kernel_page_def)

lemma kfree_alt:
  "kfree v s =
     (if kernel_page (kend s) v
      then Ok (s\<lparr>mem := st32 (memset (mem s) v 1 PGSIZE) v (freelist s), freelist := v\<rparr>)
      else Panic ''kfree'')"
  by (auto simp: kfree_def kernel_page_def Let_def not_le not_less)

text \<open>Only the page itself is written when it is freed.\<close>

lemma st32_page_other:
  assumes "v mod PGSIZE = 0" and "x \<noteq> v" and "d < PGSIZE - 3"
  shows "same_page m (st32 m (v + d) w) x"
proof -
  have "PGROUNDDOWN (v + (d + of_nat k)) = v" if "k < 4" for k :: nat
  proof (rule PGROUNDDOWN_add_small [OF assms(1)])
    have "unat d < 4093" using assms(3) by (simp add: PGSIZE_def word_less_nat_alt)
    with that show "d + of_nat k < PGSIZE"
      by (simp add: PGSIZE_def word_less_nat_alt unat_add_of_nat)
  qed
  from this [of 0] this [of 1] this [of 2] this [of 3]
  have "PGROUNDDOWN (v + d) = v" "PGROUNDDOWN (v + d + 1) = v"
    "PGROUNDDOWN (v + d + 2) = v" "PGROUNDDOWN (v + d + 3) = v"
    by (simp_all add: add.assoc)
  with assms(2) show ?thesis by (auto simp: same_page_def st32_def)
qed

lemma memset_page_other:
  "v mod PGSIZE = 0 \<Longrightarrow> x \<noteq> v \<Longrightarrow> same_page m (memset m v c PGSIZE) x"
  by (simp add: same_page_def memset_fills mem_fill_def in_page_iff)

lemma free_list_same_pages:
  assumes "\<And>x. x \<in> set xs \<Longrightarrow> same_page m m' x" and "\<And>x. x \<in> set xs \<Longrightarrow> x mod PGSIZE = 0"
    and "free_list m p xs"
  shows "free_list m' p xs"
  using assms
proof (induction xs arbitrary: p)
  case Nil
  then show ?case by simp
next
  case (Cons x xs)
  have "ld32 m x = ld32 m' x"
    using ld32_same_page [of m m' x 0] Cons.prems by (simp add: PGSIZE_def)
  with Cons show ?case by auto
qed

text \<open>The invariant depends only on the pages on the list: writing any other page keeps it.\<close>

lemma kmem_inv_same_pages:
  assumes "kmem_inv s xs" and "\<And>x. x \<in> set xs \<Longrightarrow> same_page (mem s) (mem s') x"
    and "freelist s' = freelist s" and "kend s' = kend s"
  shows "kmem_inv s' xs"
proof -
  from assms(1) have "free_list (mem s) (freelist s) xs" and pages: "\<forall>x \<in> set xs. kernel_page (kend s) x"
    by (simp_all add: kmem_inv_def)
  then have "free_list (mem s') (freelist s) xs"
    using assms(2) by (blast intro: free_list_same_pages kernel_page_aligned)
  with assms pages show ?thesis by (simp add: kmem_inv_def)
qed

lemma kmem_inv_set_unique: "kmem_inv s xs \<Longrightarrow> kmem_inv s ys \<Longrightarrow> xs = ys"
proof -
  have "free_list m p xs \<Longrightarrow> free_list m p ys \<Longrightarrow> 0 \<notin> set xs \<Longrightarrow> 0 \<notin> set ys \<Longrightarrow> xs = ys"
    for m p xs ys
  proof (induction xs arbitrary: p ys)
    case Nil
    then show ?case by (cases ys) auto
  next
    case (Cons x xs)
    then show ?case by (cases ys) auto
  qed
  then show "kmem_inv s xs \<Longrightarrow> kmem_inv s ys \<Longrightarrow> xs = ys"
    unfolding kmem_inv_def by (metis kernel_page_nonzero)
qed

section \<open>Allocation and release\<close>

lemma kalloc_empty: "kmem_inv s [] \<Longrightarrow> kalloc s = (0, s)"
  by (simp add: kmem_inv_def kalloc_def)

lemma kalloc_head:
  assumes "kmem_inv s (x # xs)"
  shows "kalloc s = (x, s\<lparr>freelist := ld32 (mem s) x\<rparr>)"
    and "kmem_inv (s\<lparr>freelist := ld32 (mem s) x\<rparr>) xs"
  using assms kernel_page_nonzero [of "kend s" x] by (auto simp: kmem_inv_def kalloc_def)

lemma kfree_pushes:
  assumes "kmem_inv s xs" and "kernel_page (kend s) v" and "v \<notin> set xs"
  shows "\<exists>s'. kfree v s = Ok s' \<and> kmem_inv s' (v # xs) \<and> kend s' = kend s \<and>
           (\<forall>x. x \<noteq> v \<longrightarrow> same_page (mem s) (mem s') x)"
proof -
  let ?m = "st32 (memset (mem s) v 1 PGSIZE) v (freelist s)"
  let ?s = "s\<lparr>mem := ?m, freelist := v\<rparr>"
  have v: "v mod PGSIZE = 0" using assms(2) by (rule kernel_page_aligned)
  have others: "same_page (mem s) ?m x" if "x \<noteq> v" for x
    using same_page_trans [OF memset_page_other [OF v that] st32_page_other [OF v that, of 0]]
    by (simp add: PGSIZE_def)
  have "free_list ?m (freelist s) xs"
  proof (rule free_list_same_pages [where m = "mem s"])
    show "\<And>x. x \<in> set xs \<Longrightarrow> same_page (mem s) ?m x" using others assms(3) by metis
    show "\<And>x. x \<in> set xs \<Longrightarrow> x mod PGSIZE = 0" and "free_list (mem s) (freelist s) xs"
      using assms(1) by (auto simp: kmem_inv_def kernel_page_aligned)
  qed
  then have "kmem_inv ?s (v # xs)" using assms by (simp add: kmem_inv_def)
  with assms(2) others show ?thesis by (simp add: kfree_alt)
qed

lemma kfree_rejects: "\<not> kernel_page (kend s) v \<Longrightarrow> kfree v s = Panic ''kfree''"
  by (simp add: kfree_alt)

section \<open>Initialisation\<close>

definition range_pages :: "uint \<Rightarrow> uint \<Rightarrow> uint list" where
  "range_pages p vend = map (\<lambda>i. p + of_nat (4096 * i)) [0..<(unat vend - unat p) div 4096]"

lemma range_pages_step:
  assumes "unat p + 4096 \<le> unat vend"
  shows "range_pages p vend = p # range_pages (p + PGSIZE) vend"
proof -
  have un: "unat (p + PGSIZE) = unat p + 4096"
    using assms unat_uint_less [of vend] by (simp add: PGSIZE_def unat_word_ariths)
  define n where "n = (unat vend - unat (p + PGSIZE)) div 4096"
  have "(unat vend - unat p) div 4096 = Suc n"
    using assms un le_div_geq [of 4096 "unat vend - unat p"] unfolding n_def by simp
  moreover have "map (\<lambda>i. p + of_nat (4096 * i)) [0..<Suc n] =
      p # map (\<lambda>i. p + PGSIZE + of_nat (4096 * i)) [0..<n]"
    by (simp add: upt_conv_Cons map_Suc_upt [symmetric] PGSIZE_def o_def algebra_simps del: upt_Suc)
  ultimately show ?thesis unfolding range_pages_def n_def by simp
qed

lemma range_pages_empty: "unat vend < unat p + 4096 \<Longrightarrow> range_pages p vend = []"
  by (simp add: range_pages_def)

lemma kernel_page_unat:
  assumes "v mod PGSIZE = 0" and "e \<le> v" and "0x80000000 \<le> unat v" and "unat v < 0x8E000000"
  shows "kernel_page e v"
proof -
  have "(0x80000000 :: uint) \<le> v" using assms(3) by (simp add: word_le_nat_alt)
  then have "unat (v - 0x80000000) = unat v - 0x80000000"
    using unat_sub by fastforce
  then have "V2P v < PHYSTOP"
    using assms(3,4) by (simp add: V2P_def KERNBASE_def PHYSTOP_def word_less_nat_alt)
  with assms(1,2) show ?thesis by (simp add: kernel_page_def)
qed

lemma unat_kernel_page: "kernel_page e v \<Longrightarrow> 0x80000000 \<le> unat v \<and> unat v < 0x8E000000"
proof -
  assume "kernel_page e v"
  then have "unat (v - 0x80000000) < 0xE000000"
    by (simp add: kernel_page_def V2P_def KERNBASE_def PHYSTOP_def word_less_nat_alt)
  moreover have "unat v = (unat (v - 0x80000000) + unat (0x80000000 :: uint)) mod 2 ^ 32"
    using unat_word_ariths(1) [of "v - 0x80000000" "0x80000000"]
    by (simp only: diff_add_cancel len_of_numeral_defs) simp
  ultimately show ?thesis by simp
qed

text \<open>
  \<^verbatim>\<open>freerange\<close> pushes every page of its range, in ascending order, and nothing else; it does not
  panic as long as the range lies in the memory the kernel manages.
\<close>

lemma freerange_loop_frees:
  assumes "kmem_inv s xs" and "p mod PGSIZE = 0" and "kend s \<le> p"
    and "0x80000000 \<le> unat p" and "unat p \<le> 0x8E000000" and "unat vend \<le> 0x8E000000"
    and "\<forall>x \<in> set xs. x < p"
  shows "\<exists>s'. freerange_loop p vend s = Ok s' \<and> kmem_inv s' (rev (range_pages p vend) @ xs)
           \<and> kend s' = kend s"
  using assms
proof (induction "unat vend - unat p" arbitrary: p s xs rule: less_induct)
  case less
  have un: "unat (p + PGSIZE) = unat p + 4096"
    using less.prems(5) by (simp add: PGSIZE_def unat_word_ariths)
  show ?case
  proof (cases "p + PGSIZE \<le> vend")
    case True
    then have le: "unat p + 4096 \<le> unat vend" by (simp add: word_le_nat_alt un)
    have "kernel_page (kend s) p"
      using less.prems le by (intro kernel_page_unat) auto
    moreover have "p \<notin> set xs" using less.prems(7) by blast
    ultimately obtain t where t: "kfree p s = Ok t" "kmem_inv t (p # xs)" "kend t = kend s"
      using kfree_pushes [OF less.prems(1)] by blast
    have "p < p + PGSIZE" by (simp add: word_less_nat_alt un)
    have "\<exists>s'. freerange_loop (p + PGSIZE) vend t = Ok s' \<and>
        kmem_inv s' (rev (range_pages (p + PGSIZE) vend) @ p # xs) \<and> kend s' = kend t"
    proof (rule less.hyps)
      show "unat vend - unat (p + PGSIZE) < unat vend - unat p" using le un by simp
      show "kend t \<le> p + PGSIZE" using t(3) less.prems(3) \<open>p < p + PGSIZE\<close> by simp
      show "\<forall>x \<in> set (p # xs). x < p + PGSIZE" using less.prems(7) \<open>p < p + PGSIZE\<close> by auto
    qed (use t less.prems le un in \<open>auto simp: aligned_add_PGSIZE\<close>)
    with True t le show ?thesis
      by (simp add: freerange_loop.simps [of p] range_pages_step)
  next
    case False
    then have "unat vend < unat p + 4096" by (simp add: word_le_nat_alt un)
    with False less.prems(1) show ?thesis
      by (simp add: freerange_loop.simps [of p] range_pages_empty)
  qed
qed

lemma set_range_pages:
  assumes "p mod PGSIZE = 0" and "unat p \<le> unat vend"
  shows "set (range_pages p vend) =
           {v. v mod PGSIZE = 0 \<and> unat p \<le> unat v \<and> unat v + 4096 \<le> unat vend}"
proof -
  from assms(1) obtain q where q: "unat p = 4096 * q" by (rule aligned_unat)
  let ?n = "(unat vend - unat p) div 4096"
  have un: "unat (p + of_nat (4096 * i)) = 4096 * (q + i)" if "i < ?n" for i
  proof -
    have "4096 * (q + i) < 2 ^ 32" using that q unat_uint_less [of vend] assms(2) by auto
    moreover have "unat (p + of_nat (4096 * i)) = (4096 * q + 4096 * i) mod 2 ^ 32"
      by (simp only: unat_add_of_nat q)
    ultimately show ?thesis by (simp only: distrib_left [symmetric] mod_less)
  qed
  show ?thesis
  proof (intro set_eqI iffI)
    fix v assume "v \<in> set (range_pages p vend)"
    then obtain i where i: "i < ?n" "v = p + of_nat (4096 * i)" by (auto simp: range_pages_def)
    with un [OF i(1)] q assms(2)
    show "v \<in> {v. v mod PGSIZE = 0 \<and> unat p \<le> unat v \<and> unat v + 4096 \<le> unat vend}"
      by (auto simp: aligned_iff)
  next
    fix v assume v: "v \<in> {v. v mod PGSIZE = 0 \<and> unat p \<le> unat v \<and> unat v + 4096 \<le> unat vend}"
    then have "v mod PGSIZE = 0" by simp
    then obtain r where r: "unat v = 4096 * r" by (rule aligned_unat)
    with v q have i: "r - q < ?n" and "q \<le> r" by auto
    with un [OF i] r have "v = p + of_nat (4096 * (r - q))" by (simp add: word_unat_eq_iff)
    with i show "v \<in> set (range_pages p vend)" by (auto simp: range_pages_def)
  qed
qed

text \<open>
  After \<^verbatim>\<open>main\<close> has called \<^verbatim>\<open>kinit1(end, P2V(4MB))\<close> and \<^verbatim>\<open>kinit2(P2V(4MB), P2V(PHYSTOP))\<close> the free
  list holds every page the allocator manages exactly once.
\<close>

lemma kmem_inv_fresh: "freelist s = 0 \<Longrightarrow> kmem_inv s []"
  by (simp add: kmem_inv_def)

lemma PGROUNDUP_unat:
  assumes "unat a + 4096 \<le> 2 ^ 32"
  shows "unat (PGROUNDUP a) = (unat a + 4095) div 4096 * 4096"
proof -
  let ?b = "a + PGSIZE - 1"
  have "?b = a + of_nat 4095" by (simp add: PGSIZE_def)
  then have b: "unat ?b = unat a + 4095"
    using assms by (simp only: unat_add_of_nat) simp
  have "unat (?b mod PGSIZE) = (unat a + 4095) mod 4096"
    by (simp only: unat_mod_distrib b) (simp add: PGSIZE_def)
  moreover have "unat (?b - ?b mod PGSIZE) = unat ?b - unat (?b mod PGSIZE)"
    by (rule unat_sub) (simp add: word_le_nat_alt unat_mod_distrib)
  ultimately show ?thesis
    by (simp only: PGROUNDUP_DOWN PGROUNDDOWN_eq b minus_mod_eq_div_mult)
qed

lemma round_up_ge: "n \<le> (n + 4095) div 4096 * (4096 :: nat)"
proof -
  have "n + 4095 = (n + 4095) div 4096 * 4096 + (n + 4095) mod 4096" by (rule div_mult_mod_eq [symmetric])
  moreover have "(n + 4095) mod 4096 < (4096 :: nat)" by simp
  ultimately show ?thesis by linarith
qed

lemma round_up_le: "n \<le> 4096 * r \<Longrightarrow> (n + 4095) div 4096 * 4096 \<le> 4096 * (r :: nat)"
proof -
  assume "n \<le> 4096 * r"
  then have "n + 4095 < (r + 1) * 4096" by simp
  then have "(n + 4095) div 4096 < r + 1" by (rule less_mult_imp_div_less)
  then show ?thesis by simp
qed

lemma kinit_frees_all:
  assumes "freelist s = 0" and "KERNBASE \<le> kend s" and "kend s \<le> P2V 0x400000"
  shows "\<exists>s' xs. rbind (kinit1 (kend s) (P2V 0x400000) s) (kinit2 (P2V 0x400000) (P2V PHYSTOP)) = Ok s'
           \<and> kmem_inv s' xs \<and> set xs = {v. kernel_page (kend s) v}"
proof -
  let ?e = "kend s" and ?m = "P2V 0x400000" and ?t = "P2V PHYSTOP" and ?p = "PGROUNDUP (kend s)"
  have m: "unat ?m = 0x80400000" and t: "unat ?t = 0x8E000000"
    by (simp_all add: P2V_def KERNBASE_def PHYSTOP_def)
  have e: "0x80000000 \<le> unat ?e" "unat ?e \<le> 0x80400000"
    using assms(2,3) m by (simp_all add: word_le_nat_alt KERNBASE_def)
  have p: "unat ?p = (unat ?e + 4095) div 4096 * 4096"
    using e by (intro PGROUNDUP_unat) simp
  have p_bounds: "unat ?e \<le> unat ?p" "unat ?p \<le> 0x80400000"
    using round_up_ge [of "unat ?e"] round_up_le [of "unat ?e" "0x80400"] e(2) by (simp_all add: p)
  let ?s = "s\<lparr>use_lock := False\<rparr>"
  have m_up: "PGROUNDUP ?m = ?m"
    by (simp add: P2V_def KERNBASE_def PGROUNDUP_def PGSIZE_def)
  have "\<exists>u. freerange_loop ?p ?m ?s = Ok u \<and> kmem_inv u (rev (range_pages ?p ?m) @ []) \<and> kend u = kend ?s"
    using p_bounds e m by (intro freerange_loop_frees)
      (auto simp: kmem_inv_def assms(1) word_le_nat_alt)
  then obtain u where u: "freerange_loop ?p ?m ?s = Ok u" "kmem_inv u (rev (range_pages ?p ?m))"
      "kend u = ?e" by auto
  have set1: "set (range_pages ?p ?m) =
      {v. v mod PGSIZE = 0 \<and> unat ?p \<le> unat v \<and> unat v + 4096 \<le> unat ?m}"
    using p_bounds m by (intro set_range_pages) auto
  have "\<exists>w. freerange_loop ?m ?t u = Ok w \<and>
      kmem_inv w (rev (range_pages ?m ?t) @ rev (range_pages ?p ?m)) \<and> kend w = kend u"
    using u m t e set1 assms(3) m_up PGROUNDUP_aligned [of ?m]
    by (intro freerange_loop_frees) (auto simp: word_less_nat_alt)
  then obtain w where w: "freerange_loop ?m ?t u = Ok w"
      "kmem_inv w (rev (range_pages ?m ?t) @ rev (range_pages ?p ?m))" "kend w = ?e"
    using u(3) by auto
  have set2: "set (range_pages ?m ?t) =
      {v. v mod PGSIZE = 0 \<and> unat ?m \<le> unat v \<and> unat v + 4096 \<le> unat ?t}"
    using m t m_up PGROUNDUP_aligned [of ?m] by (intro set_range_pages) auto
  let ?xs = "rev (range_pages ?m ?t) @ rev (range_pages ?p ?m)"
  have "set ?xs = {v. kernel_page ?e v}"
  proof (intro set_eqI iffI)
    fix v assume "v \<in> set ?xs"
    with w(2,3) show "v \<in> {v. kernel_page ?e v}" by (auto simp: kmem_inv_def)
  next
    fix v assume "v \<in> {v. kernel_page ?e v}"
    then have v: "v mod PGSIZE = 0" "unat ?e \<le> unat v" "unat v < 0x8E000000"
      using unat_kernel_page [of ?e v] by (simp_all add: kernel_page_def word_le_nat_alt)
    from v(1) obtain r where r: "unat v = 4096 * r" by (rule aligned_unat)
    have "unat ?p \<le> unat v" using v(2) round_up_le [of "unat ?e" r] by (simp add: p r)
    moreover have "unat v + 4096 \<le> 0x80400000 \<or> 0x80400000 \<le> unat v"
      using r by (cases "r < 0x80400") auto
    moreover have "unat v + 4096 \<le> 0x8E000000" using v(3) r by auto
    ultimately show "v \<in> set ?xs" using v(1) m t by (auto simp: set1 set2)
  qed
  moreover have "kmem_inv (w\<lparr>use_lock := True\<rparr>) ?xs" using w(2) by (simp add: kmem_inv_def)
  ultimately show ?thesis
    using u(1) w(1) m_up by (auto simp: kinit1_def kinit2_def freerange_def)
qed

section \<open>The allocator as its clients see it\<close>

text \<open>
  A client of the allocator allocates pages, writes into pages it owns and frees pages it owns.
  \<open>client_run\<close> runs a sequence of such requests, keeping the set of owned pages; requests to write or
  free a page that is not owned are skipped, since a client does not make them.
\<close>

datatype page_req = AllocPage | WritePage uint memory | FreePage uint

primrec client_run ::
  "('s \<Rightarrow> uint \<times> 's) \<Rightarrow> (uint \<Rightarrow> 's \<Rightarrow> 's result) \<Rightarrow> (uint \<Rightarrow> memory \<Rightarrow> 's \<Rightarrow> 's)
    \<Rightarrow> page_req list \<Rightarrow> uint set \<Rightarrow> 's \<Rightarrow> (uint set \<times> 's) result" where
  "client_run alloc free put [] owned s = Ok (owned, s)"
| "client_run alloc free put (r # rs) owned s =
     (case r of
        AllocPage \<Rightarrow> (case alloc s of (p, s') \<Rightarrow>
            client_run alloc free put rs (if p = 0 then owned else insert p owned) s')
      | WritePage v f \<Rightarrow> client_run alloc free put rs owned (if v \<in> owned then put v f s else s)
      | FreePage v \<Rightarrow>
          (if v \<in> owned then rbind (free v s) (\<lambda>s'. client_run alloc free put rs (owned - {v}) s')
           else client_run alloc free put rs owned s))"

locale page_allocator =
  fixes alloc :: "'s \<Rightarrow> uint \<times> 's"
    and free :: "uint \<Rightarrow> 's \<Rightarrow> 's result"
    and put :: "uint \<Rightarrow> memory \<Rightarrow> 's \<Rightarrow> 's"
    and pool :: "'s \<Rightarrow> uint list \<Rightarrow> bool"
    and managed :: "'s \<Rightarrow> uint \<Rightarrow> bool"
  assumes pool_distinct: "pool s xs \<Longrightarrow> distinct xs"
    and pool_managed: "pool s xs \<Longrightarrow> x \<in> set xs \<Longrightarrow> managed s x"
    and managed_nonzero: "managed s x \<Longrightarrow> x \<noteq> 0"
    and alloc_empty: "pool s [] \<Longrightarrow> alloc s = (0, s)"
    and alloc_head: "pool s (x # xs) \<Longrightarrow>
           \<exists>s'. alloc s = (x, s') \<and> pool s' xs \<and> managed s' = managed s"
    and free_push: "pool s xs \<Longrightarrow> managed s v \<Longrightarrow> v \<notin> set xs \<Longrightarrow>
           \<exists>s'. free v s = Ok s' \<and> pool s' (v # xs) \<and> managed s' = managed s"
    and put_keeps: "pool s xs \<Longrightarrow> managed s v \<Longrightarrow> v \<notin> set xs \<Longrightarrow>
           pool (put v f s) xs \<and> managed (put v f s) = managed s"
begin

lemma client_run_conserves:
  assumes "pool s xs" and "owned \<inter> set xs = {}" and "\<forall>v \<in> owned. managed s v"
  shows "\<exists>owned' s' xs'. client_run alloc free put rs owned s = Ok (owned', s') \<and> pool s' xs' \<and>
           owned' \<inter> set xs' = {} \<and> owned' \<union> set xs' = owned \<union> set xs"
  using assms
proof (induction rs arbitrary: owned s xs)
  case Nil
  then show ?case by auto
next
  case (Cons r rs)
  show ?case
  proof (cases r)
    case AllocPage
    show ?thesis
    proof (cases xs)
      case Nil
      with Cons.prems(1) have "alloc s = (0, s)" by (simp add: alloc_empty)
      with AllocPage Cons show ?thesis by simp
    next
      case xs: (Cons x ys)
      with Cons.prems(1) obtain t where t: "alloc s = (x, t)" "pool t ys" "managed t = managed s"
        using alloc_head by blast
      have "managed s x" and "x \<notin> set ys"
        using Cons.prems(1) xs pool_managed pool_distinct by fastforce+
      then have "\<exists>owned' s' xs'. client_run alloc free put rs (insert x owned) t = Ok (owned', s') \<and>
          pool s' xs' \<and> owned' \<inter> set xs' = {} \<and> owned' \<union> set xs' = insert x owned \<union> set ys"
        using t Cons.prems xs by (intro Cons.IH) auto
      with AllocPage t xs managed_nonzero [OF \<open>managed s x\<close>] show ?thesis by simp
    qed
  next
    case (WritePage v f)
    show ?thesis
    proof (cases "v \<in> owned")
      case True
      with Cons.prems have "managed s v" and "v \<notin> set xs" by auto
      with Cons.prems(1) have "pool (put v f s) xs" "managed (put v f s) = managed s"
        using put_keeps by blast+
      with True WritePage Cons show ?thesis by simp
    next
      case False
      with WritePage Cons show ?thesis by simp
    qed
  next
    case (FreePage v)
    show ?thesis
    proof (cases "v \<in> owned")
      case True
      with Cons.prems have "managed s v" and v: "v \<notin> set xs" by auto
      with Cons.prems(1) obtain t where t: "free v s = Ok t" "pool t (v # xs)" "managed t = managed s"
        using free_push by blast
      have "\<exists>owned' s' xs'. client_run alloc free put rs (owned - {v}) t = Ok (owned', s') \<and>
          pool s' xs' \<and> owned' \<inter> set xs' = {} \<and> owned' \<union> set xs' = owned - {v} \<union> set (v # xs)"
        using t Cons.prems by (intro Cons.IH) auto
      moreover have "owned - {v} \<union> set (v # xs) = owned \<union> set xs" using True by auto
      ultimately show ?thesis using FreePage True t by simp
    next
      case False
      with FreePage Cons show ?thesis by simp
    qed
  qed
qed

end

definition write_page :: "uint \<Rightarrow> memory \<Rightarrow> 'a kmem_st_scheme \<Rightarrow> 'a kmem_st_scheme" where
  "write_page v f s = s\<lparr>mem := \<lambda>a. if PGROUNDDOWN a = v then f a else mem s a\<rparr>"

interpretation kmem: page_allocator kalloc kfree write_page kmem_inv "\<lambda>s. kernel_page (kend s)"
proof (unfold_locales, goal_cases)
  case (5 s x xs)
  then show ?case using kalloc_head by fastforce
next
  case (6 s xs v)
  then show ?case using kfree_pushes by fastforce
next
  case (7 s xs v f)
  have "kmem_inv (write_page v f s) xs"
    by (rule kmem_inv_same_pages [OF 7(1)]) (use 7 in \<open>auto simp: write_page_def same_page_def\<close>)
  then show ?case by (simp add: write_page_def)
qed (auto simp: kmem_inv_def kalloc_empty kernel_page_nonzero)

section \<open>Properties\<close>

text \<open>
  (C6) Boot: with an empty free list and the kernel image ending below 4MB, \<^verbatim>\<open>kinit1\<close> followed by
  \<^verbatim>\<open>kinit2\<close>, called as \<^verbatim>\<open>main\<close> calls them, does not panic and leaves a well-formed free list that
  holds every page between the end of the kernel and \<^verbatim>\<open>PHYSTOP\<close> exactly once.
\<close>

theorem boot_frees_every_page:
  assumes "freelist s = 0" and "KERNBASE \<le> kend s" and "kend s \<le> P2V 0x400000"
  shows "\<exists>s' xs. rbind (kinit1 (kend s) (P2V 0x400000) s) (kinit2 (P2V 0x400000) (P2V PHYSTOP)) = Ok s'
           \<and> kmem_inv s' xs \<and> distinct xs \<and> set xs = {v. kernel_page (kend s) v}"
  using kinit_frees_all [OF assms] by (auto simp: kmem_inv_def)

definition boot_kmem :: kmem_st where
  "boot_kmem = \<lparr>mem = \<lambda>_. 0, freelist = 0, use_lock = False, kend = 0x80115000, kdata = 0x80108000\<rparr>"

theorem boot_frees_every_page_witness:
  "\<exists>s' xs. rbind (kinit1 0x80115000 (P2V 0x400000) boot_kmem) (kinit2 (P2V 0x400000) (P2V PHYSTOP)) = Ok s'
     \<and> kmem_inv s' xs \<and> 0x80115000 \<in> set xs \<and> 0x80114000 \<notin> set xs"
proof -
  have "freelist boot_kmem = 0" "KERNBASE \<le> kend boot_kmem" "kend boot_kmem \<le> P2V 0x400000"
    by (simp_all add: boot_kmem_def KERNBASE_def P2V_def)
  from boot_frees_every_page [OF this] obtain s' xs
    where "rbind (kinit1 0x80115000 (P2V 0x400000) boot_kmem) (kinit2 (P2V 0x400000) (P2V PHYSTOP)) = Ok s'"
      and "kmem_inv s' xs" and "set xs = {v. kernel_page 0x80115000 v}"
    by (auto simp: boot_kmem_def)
  moreover have "kernel_page 0x80115000 0x80115000" "\<not> kernel_page 0x80115000 0x80114000"
    by (simp_all add: kernel_page_def V2P_def KERNBASE_def PHYSTOP_def PGSIZE_def)
  ultimately show ?thesis by blast
qed

text \<open>
  (C7) Allocation: whatever a client does with pages it owns (allocate, overwrite, free), no call
  panics, no page is handed out twice or lost: the owned pages and the free list stay disjoint and
  their union stays the same.
\<close>

theorem kalloc_conserves_pages:
  assumes "kmem_inv s xs" and "owned \<inter> set xs = {}" and "\<forall>v \<in> owned. kernel_page (kend s) v"
  shows "\<exists>owned' s' xs'. client_run kalloc kfree write_page rs owned s = Ok (owned', s') \<and>
           kmem_inv s' xs' \<and> owned' \<inter> set xs' = {} \<and> owned' \<union> set xs' = owned \<union> set xs"
  using assms by (rule kmem.client_run_conserves)

definition one_page :: kmem_st where
  "one_page = \<lparr>mem = \<lambda>_. 0, freelist = 0x80200000, use_lock = True, kend = 0x80115000, kdata = 0x80108000\<rparr>"

theorem kalloc_conserves_pages_witness:
  "\<exists>owned' s' xs'. client_run kalloc kfree write_page
       [AllocPage, WritePage 0x80200000 (\<lambda>_. 7), AllocPage, FreePage 0x80200000, AllocPage] {} one_page
       = Ok (owned', s') \<and>
     kmem_inv s' xs' \<and> owned' \<inter> set xs' = {} \<and> owned' \<union> set xs' = {0x80200000}"
proof -
  have "kmem_inv one_page [0x80200000]"
    by (simp add: kmem_inv_def one_page_def kernel_page_def ld32_def V2P_def KERNBASE_def PHYSTOP_def
        PGSIZE_def)
  from kalloc_conserves_pages [OF this, of "{}"] show ?thesis
    by (simp del: client_run.simps)
qed

end
