(* ===== verification/Spinlock.thy ===== *)
theory Spinlock
  imports C_String Mmu
begin

text \<open>
  \<^verbatim>\<open>spinlock.c\<close>: spin locks and the interrupt-disable nesting they use, for any number of CPUs.

  \<^item> \<open>cpu\<close> is the part of \<^verbatim>\<open>struct cpu\<close> the locks use, with the CPU's interrupt flag (\<^verbatim>\<open>FL_IF\<close> of
    \<^verbatim>\<open>eflags\<close>); \<open>spinlock\<close> is \<^verbatim>\<open>struct spinlock\<close>.  Locks are named by numbers.
  \<^item> \<^verbatim>\<open>acquire\<close> and \<^verbatim>\<open>release\<close> are cut at their atomic memory accesses; \<open>lock_step\<close> interleaves these
    pieces over all CPUs, and \<open>lock_inv\<close> is the invariant of every reachable configuration: mutual
    exclusion, and interrupts off exactly while a lock is wanted or held.
\<close>

section \<open>CPUs and locks\<close>

record cpu =
  ifl :: bool
  ncli :: int
  intena :: bool

record spinlock =
  locked :: uint
  lname :: string
  lcpu :: "nat option"
  lpcs :: "uint list"

record lock_st =
  cpus :: "nat \<Rightarrow> cpu"
  locks :: "nat \<Rightarrow> spinlock"

definition initlock :: "nat \<Rightarrow> string \<Rightarrow> lock_st \<Rightarrow> lock_st" where
  "initlock l name s =
     s\<lparr>locks := (locks s)(l := (locks s l)\<lparr>lname := name, locked := 0, lcpu := None\<rparr>)\<rparr>"

definition cli :: "nat \<Rightarrow> lock_st \<Rightarrow> lock_st" where
  "cli c s = s\<lparr>cpus := (cpus s)(c := (cpus s c)\<lparr>ifl := False\<rparr>)\<rparr>"

definition sti :: "nat \<Rightarrow> lock_st \<Rightarrow> lock_st" where
  "sti c s = s\<lparr>cpus := (cpus s)(c := (cpus s c)\<lparr>ifl := True\<rparr>)\<rparr>"

definition pushcli :: "nat \<Rightarrow> lock_st \<Rightarrow> lock_st" where
  "pushcli c s =
     (let eflags = ifl (cpus s c);
          s = cli c s;
          s = (if ncli (cpus s c) = 0
               then s\<lparr>cpus := (cpus s)(c := (cpus s c)\<lparr>intena := eflags\<rparr>)\<rparr> else s)
      in s\<lparr>cpus := (cpus s)(c := (cpus s c)\<lparr>ncli := ncli (cpus s c) + 1\<rparr>)\<rparr>)"

definition popcli :: "nat \<Rightarrow> lock_st \<Rightarrow> lock_st result" where
  "popcli c s =
     (if ifl (cpus s c) then Panic ''popcli - interruptible''
      else let s = s\<lparr>cpus := (cpus s)(c := (cpus s c)\<lparr>ncli := ncli (cpus s c) - 1\<rparr>)\<rparr>
           in if ncli (cpus s c) < 0 then Panic ''popcli''
              else if ncli (cpus s c) = 0 \<and> intena (cpus s c) then Ok (sti c s)
              else Ok s)"

definition holding :: "nat \<Rightarrow> nat \<Rightarrow> lock_st \<Rightarrow> (bool \<times> lock_st) result" where
  "holding l c s =
     (let s = pushcli c s;
          r = (locked (locks s l) \<noteq> 0 \<and> lcpu (locks s l) = Some c)
      in rbind (popcli c s) (\<lambda>s. Ok (r, s)))"

text \<open>\<^verbatim>\<open>getcallerpcs\<close> follows the chain of saved frame pointers in memory, at most ten frames.\<close>

fun walk_frames :: "memory \<Rightarrow> uint \<Rightarrow> nat \<Rightarrow> uint list" where
  "walk_frames m ebp 0 = []"
| "walk_frames m ebp (Suc n) =
     (if ebp = 0 \<or> ebp < KERNBASE \<or> ebp = 0xffffffff then replicate (Suc n) 0
      else ld32 m (ebp + 4) # walk_frames m (ld32 m ebp) n)"

definition getcallerpcs :: "memory \<Rightarrow> uint \<Rightarrow> uint list" where
  "getcallerpcs m v = walk_frames m (v - 8) 10"

section \<open>Acquire and release\<close>

text \<open>
  \<^verbatim>\<open>acquire\<close>: the part before the exchange loop, one round of the loop, and the part after it.
  The recorded call stack is an argument: it is read from the caller's frames.
\<close>

definition acquire_begin :: "nat \<Rightarrow> nat \<Rightarrow> lock_st \<Rightarrow> lock_st result" where
  "acquire_begin l c s =
     (let s = pushcli c s
      in rbind (holding l c s) (\<lambda>(h, s). if h then Panic ''acquire'' else Ok s))"

definition xchg_locked :: "nat \<Rightarrow> lock_st \<Rightarrow> uint \<times> lock_st" where
  "xchg_locked l s = (locked (locks s l), s\<lparr>locks := (locks s)(l := (locks s l)\<lparr>locked := 1\<rparr>)\<rparr>)"

definition acquire_finish :: "nat \<Rightarrow> nat \<Rightarrow> uint list \<Rightarrow> lock_st \<Rightarrow> lock_st" where
  "acquire_finish l c trace s =
     s\<lparr>locks := (locks s)(l := (locks s l)\<lparr>lcpu := Some c, lpcs := trace\<rparr>)\<rparr>"

text \<open>The whole of \<^verbatim>\<open>acquire\<close> when no other CPU runs: with the lock taken it spins for ever.\<close>

definition acquire :: "nat \<Rightarrow> nat \<Rightarrow> uint list \<Rightarrow> lock_st \<Rightarrow> lock_st result" where
  "acquire l c trace s =
     rbind (acquire_begin l c s) (\<lambda>s.
       case xchg_locked l s of (old, s) \<Rightarrow>
         if old \<noteq> 0 then Diverges else Ok (acquire_finish l c trace s))"

definition release_begin :: "nat \<Rightarrow> nat \<Rightarrow> lock_st \<Rightarrow> lock_st result" where
  "release_begin l c s =
     rbind (holding l c s) (\<lambda>(h, s).
       if \<not> h then Panic ''release''
       else Ok (s\<lparr>locks := (locks s)(l := (locks s l)\<lparr>lpcs := (lpcs (locks s l))[0 := 0], lcpu := None\<rparr>)\<rparr>))"

definition release_end :: "nat \<Rightarrow> nat \<Rightarrow> lock_st \<Rightarrow> lock_st result" where
  "release_end l c s = popcli c (s\<lparr>locks := (locks s)(l := (locks s l)\<lparr>locked := 0\<rparr>)\<rparr>)"

definition release :: "nat \<Rightarrow> nat \<Rightarrow> lock_st \<Rightarrow> lock_st result" where
  "release l c s = rbind (release_begin l c s) (release_end l c)"

section \<open>Interrupt nesting\<close>

definition cli_ok :: "cpu \<Rightarrow> bool" where
  "cli_ok k \<longleftrightarrow> 0 \<le> ncli k \<and> (0 < ncli k \<longrightarrow> \<not> ifl k)"

lemma pushcli_cpu [simp]:
  "cpus (pushcli c s) d =
     (if d = c then \<lparr>ifl = False, ncli = ncli (cpus s c) + 1,
        intena = (if ncli (cpus s c) = 0 then ifl (cpus s c) else intena (cpus s c))\<rparr>
      else cpus s d)"
  by (auto simp: pushcli_def cli_def Let_def)

lemma pushcli_locks [simp]: "locks (pushcli c s) = locks s"
  by (simp add: pushcli_def cli_def Let_def)

lemma popcli_cpu:
  "popcli c s =
     (if ifl (cpus s c) then Panic ''popcli - interruptible''
      else if ncli (cpus s c) < 1 then Panic ''popcli''
      else Ok (s\<lparr>cpus := (cpus s)(c := (cpus s c)\<lparr>ncli := ncli (cpus s c) - 1,
                  ifl := ncli (cpus s c) = 1 \<and> intena (cpus s c)\<rparr>)\<rparr>))"
  by (cases "cpus s c") (auto simp: popcli_def sti_def Let_def)

text \<open>
  A matched pair of \<^verbatim>\<open>pushcli\<close> and \<^verbatim>\<open>popcli\<close> restores the interrupt flag and the depth.
\<close>

lemma push_pop:
  assumes "cli_ok (cpus s c)"
  shows "\<exists>s'. popcli c (pushcli c s) = Ok s' \<and> locks s' = locks s \<and>
           (\<forall>d. d \<noteq> c \<longrightarrow> cpus s' d = cpus s d) \<and>
           ifl (cpus s' c) = ifl (cpus s c) \<and> ncli (cpus s' c) = ncli (cpus s c) \<and>
           (0 < ncli (cpus s c) \<longrightarrow> intena (cpus s' c) = intena (cpus s c))"
  using assms by (auto simp: popcli_cpu cli_ok_def)

lemma holding_spec:
  assumes "cli_ok (cpus s c)"
  shows "\<exists>s'. holding l c s = Ok (locked (locks s l) \<noteq> 0 \<and> lcpu (locks s l) = Some c, s') \<and>
           locks s' = locks s \<and> (\<forall>d. d \<noteq> c \<longrightarrow> cpus s' d = cpus s d) \<and>
           ifl (cpus s' c) = ifl (cpus s c) \<and> ncli (cpus s' c) = ncli (cpus s c) \<and>
           (0 < ncli (cpus s c) \<longrightarrow> intena (cpus s' c) = intena (cpus s c))"
  using push_pop [OF assms] by (auto simp: holding_def Let_def)

section \<open>All CPUs together\<close>

text \<open>
  Where a CPU is in the lock code: outside it, in the exchange loop, between the exchange that
  succeeded and the end of \<^verbatim>\<open>acquire\<close>, or between the two stores of \<^verbatim>\<open>release\<close>.  \<open>owns\<close> lists the
  locks whose critical sections the CPU is in.
\<close>

datatype lpc = Run | Spin nat | Got nat | Rel nat

record lconf =
  lst :: lock_st
  lpc :: "nat \<Rightarrow> lpc"
  owns :: "nat \<Rightarrow> nat list"

inductive lock_step :: "lconf \<Rightarrow> lconf \<Rightarrow> bool" where
  start: "lpc g c = Run \<Longrightarrow> acquire_begin l c (lst g) = Ok s \<Longrightarrow>
     lock_step g (g\<lparr>lst := s, lpc := (lpc g)(c := Spin l)\<rparr>)"
| spin: "lpc g c = Spin l \<Longrightarrow> xchg_locked l (lst g) = (old, s) \<Longrightarrow> old \<noteq> 0 \<Longrightarrow>
     lock_step g (g\<lparr>lst := s\<rparr>)"
| got: "lpc g c = Spin l \<Longrightarrow> xchg_locked l (lst g) = (0, s) \<Longrightarrow>
     lock_step g (g\<lparr>lst := s, lpc := (lpc g)(c := Got l)\<rparr>)"
| finish: "lpc g c = Got l \<Longrightarrow>
     lock_step g (g\<lparr>lst := acquire_finish l c trace (lst g), lpc := (lpc g)(c := Run),
                    owns := (owns g)(c := l # owns g c)\<rparr>)"
| release1: "lpc g c = Run \<Longrightarrow> release_begin l c (lst g) = Ok s \<Longrightarrow>
     lock_step g (g\<lparr>lst := s, lpc := (lpc g)(c := Rel l), owns := (owns g)(c := remove1 l (owns g c))\<rparr>)"
| release2: "lpc g c = Rel l \<Longrightarrow> release_end l c (lst g) = Ok s \<Longrightarrow>
     lock_step g (g\<lparr>lst := s, lpc := (lpc g)(c := Run)\<rparr>)"

definition lock_init :: "lconf \<Rightarrow> bool" where
  "lock_init g \<longleftrightarrow> (\<forall>c. lpc g c = Run \<and> owns g c = [] \<and> ncli (cpus (lst g) c) = 0) \<and>
     (\<forall>l. locked (locks (lst g) l) = 0 \<and> lcpu (locks (lst g) l) = None)"

inductive lock_reach :: "lconf \<Rightarrow> bool" where
  init: "lock_init g \<Longrightarrow> lock_reach g"
| step: "lock_reach g \<Longrightarrow> lock_step g h \<Longrightarrow> lock_reach h"

text \<open>CPU \<open>c\<close> has the lock \<open>l\<close>: it is inside, or on its way in or out.\<close>

definition has_lock :: "lconf \<Rightarrow> nat \<Rightarrow> nat \<Rightarrow> bool" where
  "has_lock g l c \<longleftrightarrow> l \<in> set (owns g c) \<or> lpc g c = Got l \<or> lpc g c = Rel l"

definition lock_inv :: "lconf \<Rightarrow> bool" where
  "lock_inv g \<longleftrightarrow>
     (\<forall>l c d. has_lock g l c \<longrightarrow> has_lock g l d \<longrightarrow> c = d) \<and>
     (\<forall>l c. has_lock g l c \<longrightarrow> locked (locks (lst g) l) \<noteq> 0) \<and>
     (\<forall>l c. lcpu (locks (lst g) l) = Some c \<longleftrightarrow> l \<in> set (owns g c)) \<and>
     (\<forall>c l. lpc g c \<in> {Got l, Rel l} \<longrightarrow> l \<notin> set (owns g c)) \<and>
     (\<forall>c. distinct (owns g c)) \<and>
     (\<forall>c. ncli (cpus (lst g) c) = int (length (owns g c)) + (if lpc g c = Run then 0 else 1)) \<and>
     (\<forall>c. 0 < ncli (cpus (lst g) c) \<longrightarrow> \<not> ifl (cpus (lst g) c))"

lemma lock_inv_cli_ok: "lock_inv g \<Longrightarrow> cli_ok (cpus (lst g) c)"
  by (simp add: lock_inv_def cli_ok_def)

lemma acquire_begin_Ok:
  assumes "cli_ok (cpus s c)" and "acquire_begin l c s = Ok s'"
  shows "locks s' = locks s" and "\<And>d. d \<noteq> c \<Longrightarrow> cpus s' d = cpus s d"
    and "ncli (cpus s' c) = ncli (cpus s c) + 1" and "\<not> ifl (cpus s' c)"
    and "\<not> (locked (locks s l) \<noteq> 0 \<and> lcpu (locks s l) = Some c)"
proof -
  have "cli_ok (cpus (pushcli c s) c)" using assms(1) by (simp add: cli_ok_def)
  from holding_spec [OF this, of l] assms(2)
  show "locks s' = locks s" and "\<And>d. d \<noteq> c \<Longrightarrow> cpus s' d = cpus s d"
    and "ncli (cpus s' c) = ncli (cpus s c) + 1" and "\<not> ifl (cpus s' c)"
    and "\<not> (locked (locks s l) \<noteq> 0 \<and> lcpu (locks s l) = Some c)"
    by (auto simp: acquire_begin_def Let_def split: if_splits)
qed

lemma release_begin_Ok:
  assumes "cli_ok (cpus s c)" and "release_begin l c s = Ok s'"
  shows "locks s' = (locks s)(l := (locks s l)\<lparr>lpcs := (lpcs (locks s l))[0 := 0], lcpu := None\<rparr>)"
    and "\<And>d. d \<noteq> c \<Longrightarrow> cpus s' d = cpus s d"
    and "ncli (cpus s' c) = ncli (cpus s c)" and "ifl (cpus s' c) = ifl (cpus s c)"
    and "locked (locks s l) \<noteq> 0 \<and> lcpu (locks s l) = Some c"
  using holding_spec [OF assms(1), of l] assms(2)
  by (auto simp: release_begin_def split: if_splits)

lemma lock_inv_init: "lock_init g \<Longrightarrow> lock_inv g"
  by (auto simp: lock_init_def lock_inv_def has_lock_def)

lemma lock_step_inv: "lock_step g h \<Longrightarrow> lock_inv g \<Longrightarrow> lock_inv h"
proof (induction rule: lock_step.induct)
  case (start g c l s)
  note b = acquire_begin_Ok [OF lock_inv_cli_ok [OF start.prems] start.hyps(2)]
  have has: "has_lock (g\<lparr>lst := s, lpc := (lpc g)(c := Spin l)\<rparr>) = has_lock g"
    using start.hyps(1) by (auto simp: has_lock_def fun_eq_iff)
  obtain k where k: "cpus s = (cpus (lst g))(c := k)" "ncli k = ncli (cpus (lst g) c) + 1" "\<not> ifl k"
  proof
    show "cpus s = (cpus (lst g))(c := cpus s c)" using b(2) by auto
  qed (use b in auto)
  show ?case
    using start.prems start.hyps(1) b(1) k unfolding lock_inv_def has by auto
next
  case (spin g c l old s)
  have has: "has_lock (g\<lparr>lst := s\<rparr>) = has_lock g" by (simp add: has_lock_def fun_eq_iff)
  have s: "s = (lst g)\<lparr>locks := (locks (lst g))(l := (locks (lst g) l)\<lparr>locked := 1\<rparr>)\<rparr>"
    using spin.hyps(2) by (simp add: xchg_locked_def)
  show ?case
    using spin.prems unfolding lock_inv_def has by (auto simp: s split: if_splits)
next
  case (got g c l s)
  have free: "\<not> has_lock g l d" for d
    using got by (auto simp: lock_inv_def xchg_locked_def)
  have s: "s = (lst g)\<lparr>locks := (locks (lst g))(l := (locks (lst g) l)\<lparr>locked := 1\<rparr>)\<rparr>"
    using got.hyps(2) by (simp add: xchg_locked_def)
  have has: "has_lock (g\<lparr>lst := s, lpc := (lpc g)(c := Got l)\<rparr>) k d \<longleftrightarrow>
      has_lock g k d \<or> k = l \<and> d = c" for k d
    using got.hyps(1) by (auto simp: has_lock_def)
  have "l \<notin> set (owns g c)" using free [of c] by (simp add: has_lock_def)
  then show ?case
    using got.prems got.hyps(1) free unfolding lock_inv_def has by (auto simp: s)
next
  case (finish g c l trace)
  have has: "has_lock (g\<lparr>lst := acquire_finish l c trace (lst g), lpc := (lpc g)(c := Run),
      owns := (owns g)(c := l # owns g c)\<rparr>) = has_lock g"
    using finish.hyps by (auto simp: has_lock_def fun_eq_iff)
  have l: "has_lock g l c" "l \<notin> set (owns g c)" 
    using finish by (auto simp: has_lock_def lock_inv_def)
  have others: "l \<notin> set (owns g d)" for d
    using finish.prems l unfolding lock_inv_def has_lock_def by metis
  show ?case
    using finish.prems finish.hyps l others unfolding lock_inv_def has
    by (auto simp: acquire_finish_def)
next
  case (release1 g c l s)
  note b = release_begin_Ok [OF lock_inv_cli_ok [OF release1.prems] release1.hyps(2)]
  have own: "l \<in> set (owns g c)" and dist: "distinct (owns g c)"
    using b(5) release1.prems by (simp_all add: lock_inv_def)
  have has: "has_lock (g\<lparr>lst := s, lpc := (lpc g)(c := Rel l),
      owns := (owns g)(c := remove1 l (owns g c))\<rparr>) = has_lock g"
    using release1.hyps(1) own dist by (auto simp: has_lock_def fun_eq_iff)
  have others: "d \<noteq> c \<Longrightarrow> l \<notin> set (owns g d)" for d
    using release1.prems own unfolding lock_inv_def has_lock_def by metis
  have len: "int (length (remove1 l (owns g c))) + 1 = int (length (owns g c))"
    using own length_pos_if_in_set [OF own] by (simp only: length_remove1 if_True)
  obtain k where k: "cpus s = (cpus (lst g))(c := k)" "ncli k = ncli (cpus (lst g) c)"
      "ifl k = ifl (cpus (lst g) c)"
  proof
    show "cpus s = (cpus (lst g))(c := cpus s c)" using b(2) by auto
  qed (use b in auto)
  show ?case
    using release1.prems release1.hyps(1) b(1) k own dist others len unfolding lock_inv_def has
    by auto
next
  case (release2 g c l s)
  let ?s = "(lst g)\<lparr>locks := (locks (lst g))(l := (locks (lst g) l)\<lparr>locked := 0\<rparr>)\<rparr>"
  have pop: "popcli c ?s = Ok s" using release2.hyps(2) by (simp add: release_end_def)
  have has: "has_lock (g\<lparr>lst := s, lpc := (lpc g)(c := Run)\<rparr>) k d \<longleftrightarrow>
      has_lock g k d \<and> \<not> (k = l \<and> d = c)" for k d
    using release2.hyps(1) release2.prems by (auto simp: has_lock_def lock_inv_def)
  have "has_lock g l c" using release2.hyps(1) by (simp add: has_lock_def)
  then show ?case
    using release2.prems release2.hyps(1) pop unfolding lock_inv_def has
    by (auto simp: popcli_cpu split: if_splits)
qed

lemma lock_reach_inv: "lock_reach g \<Longrightarrow> lock_inv g"
proof (induction rule: lock_reach.induct)
  case (init g)
  then show ?case by (rule lock_inv_init)
next
  case (step g h)
  then show ?case by (blast intro: lock_step_inv)
qed

text \<open>
  The owner of a lock can always release it: neither part of \<^verbatim>\<open>release\<close> panics, and when the last
  lock goes, interrupts are on again exactly if they were on before the first \<^verbatim>\<open>pushcli\<close>.
\<close>

lemma owner_releases:
  assumes "lock_inv g" and "l \<in> set (owns g c)" and "lpc g c = Run"
  shows "\<exists>s. release l c (lst g) = Ok s \<and> locked (locks s l) = 0 \<and>
           ncli (cpus s c) = ncli (cpus (lst g) c) - 1 \<and>
           (ifl (cpus s c) \<longleftrightarrow> length (owns g c) = 1 \<and> intena (cpus (lst g) c))"
proof -
  have ok: "cli_ok (cpus (lst g) c)" using assms(1) by (rule lock_inv_cli_ok)
  have len: "0 < length (owns g c)" using assms(2) by (cases "owns g c") auto
  then have n: "ncli (cpus (lst g) c) = int (length (owns g c))" "\<not> ifl (cpus (lst g) c)"
    using assms(1,3) by (auto simp: lock_inv_def)
  have "has_lock g l c" using assms(2) by (simp add: has_lock_def)
  then have lk: "locked (locks (lst g) l) \<noteq> 0" "lcpu (locks (lst g) l) = Some c"
    using assms(1,2) by (auto simp: lock_inv_def)
  from holding_spec [OF ok, of l] lk obtain s1 where s1: "holding l c (lst g) = Ok (True, s1)"
      "ncli (cpus s1 c) = ncli (cpus (lst g) c)" "ifl (cpus s1 c) = ifl (cpus (lst g) c)"
      "intena (cpus s1 c) = intena (cpus (lst g) c)"
    using n len by auto
  with n len show ?thesis
    by (auto simp: release_def release_begin_def release_end_def popcli_cpu)
qed

text \<open>A CPU that asks for a lock it already holds panics instead of deadlocking.\<close>

lemma reacquire_panics:
  assumes "lock_inv g" and "l \<in> set (owns g c)"
  shows "acquire_begin l c (lst g) = Panic ''acquire''"
proof -
  have "cli_ok (cpus (pushcli c (lst g)) c)"
    using lock_inv_cli_ok [OF assms(1)] by (simp add: cli_ok_def)
  moreover have "locked (locks (lst g) l) \<noteq> 0" "lcpu (locks (lst g) l) = Some c"
    using assms by (auto simp: lock_inv_def has_lock_def)
  ultimately show ?thesis
    using holding_spec [of "pushcli c (lst g)" c l] by (auto simp: acquire_begin_def Let_def)
qed

section \<open>Properties\<close>

text \<open>
  (C8) Locks on any number of CPUs, under every interleaving of the atomic steps of \<^verbatim>\<open>acquire\<close> and
  \<^verbatim>\<open>release\<close>: at most one CPU has a given lock; a CPU that is in a critical section has interrupts
  off; it can release its lock without a panic; and asking again for a lock it holds panics instead
  of spinning for ever.
\<close>

theorem spinlock_safe:
  assumes "lock_reach g"
  shows "(has_lock g l c \<and> has_lock g l d \<longrightarrow> c = d) \<and>
     (has_lock g l c \<longrightarrow> \<not> ifl (cpus (lst g) c)) \<and>
     (l \<in> set (owns g c) \<and> lpc g c = Run \<longrightarrow> (\<exists>s. release l c (lst g) = Ok s)) \<and>
     (l \<in> set (owns g c) \<longrightarrow> acquire_begin l c (lst g) = Panic ''acquire'')"
proof -
  have inv: "lock_inv g" using assms by (rule lock_reach_inv)
  have "\<not> ifl (cpus (lst g) c)" if "has_lock g l c"
  proof -
    have "0 < ncli (cpus (lst g) c)"
      using inv that by (auto simp: lock_inv_def has_lock_def dest: length_pos_if_in_set)
    with inv show ?thesis by (simp add: lock_inv_def)
  qed
  moreover have "has_lock g l c \<and> has_lock g l d \<longrightarrow> c = d" using inv by (auto simp: lock_inv_def)
  ultimately show ?thesis
    using owner_releases [OF inv] reacquire_panics [OF inv] by blast
qed

definition quiet :: lconf where
  "quiet = \<lparr>lst = \<lparr>cpus = \<lambda>_. \<lparr>ifl = True, ncli = 0, intena = False\<rparr>,
      locks = \<lambda>_. \<lparr>locked = 0, lname = ''ptable'', lcpu = None, lpcs = []\<rparr>\<rparr>, lpc = \<lambda>_. Run, owns = \<lambda>_. []\<rparr>"

text \<open>CPU 0 has taken lock 5 while CPU 1 spins on it.\<close>

definition contended :: lconf where
  "contended =
     (let g1 = quiet\<lparr>lst := the_ok (acquire_begin 5 0 (lst quiet)), lpc := (lpc quiet)(0 := Spin 5)\<rparr>;
          g2 = g1\<lparr>lst := the_ok (acquire_begin 5 1 (lst g1)), lpc := (lpc g1)(1 := Spin 5)\<rparr>;
          g3 = g2\<lparr>lst := snd (xchg_locked 5 (lst g2)), lpc := (lpc g2)(0 := Got 5)\<rparr>
      in g3\<lparr>lst := acquire_finish 5 0 [] (lst g3), lpc := (lpc g3)(0 := Run),
            owns := (owns g3)(0 := 5 # owns g3 0)\<rparr>)"

lemmas contended_simps = contended_def quiet_def acquire_begin_def holding_def popcli_def pushcli_def
  cli_def sti_def xchg_locked_def acquire_finish_def Let_def

lemma contended_reach: "lock_reach contended"
proof -
  define g1 where "g1 = quiet\<lparr>lst := the_ok (acquire_begin 5 0 (lst quiet)), lpc := (lpc quiet)(0 := Spin 5)\<rparr>"
  define g2 where "g2 = g1\<lparr>lst := the_ok (acquire_begin 5 1 (lst g1)), lpc := (lpc g1)(1 := Spin 5)\<rparr>"
  define g3 where "g3 = g2\<lparr>lst := snd (xchg_locked 5 (lst g2)), lpc := (lpc g2)(0 := Got 5)\<rparr>"
  have "lock_reach quiet" by (rule lock_reach.init) (simp add: lock_init_def quiet_def)
  moreover have "lock_step quiet g1"
    unfolding g1_def by (rule lock_step.start) (simp_all add: contended_simps)
  moreover have "lock_step g1 g2"
    unfolding g2_def by (rule lock_step.start) (simp_all add: contended_simps g1_def)
  moreover have "lock_step g2 g3"
    unfolding g3_def by (rule lock_step.got) (simp_all add: contended_simps g1_def g2_def)
  moreover have "lock_step g3 contended"
    unfolding contended_def Let_def g1_def [symmetric] g2_def [symmetric] g3_def [symmetric]
    by (rule lock_step.finish) (simp add: g3_def)
  ultimately show ?thesis by (meson lock_reach.step)
qed

theorem spinlock_safe_witness:
  "has_lock contended 5 0 \<and> lpc contended 1 = Spin 5 \<and> \<not> ifl (cpus (lst contended) 0) \<and>
   (\<exists>s. release 5 0 (lst contended) = Ok s) \<and>
   acquire_begin 5 0 (lst contended) = Panic ''acquire''"
proof -
  have "5 \<in> set (owns contended 0)" "lpc contended 0 = Run" "lpc contended 1 = Spin 5"
    by (simp_all add: contended_def Let_def quiet_def)
  with spinlock_safe [OF contended_reach, of 5 0 0] show ?thesis by (auto simp: has_lock_def)
qed

end
