(* ===== verification/Proc.thy ===== *)
theory Proc
  imports Kalloc Spinlock
begin

text \<open>
  \<^verbatim>\<open>proc.h\<close> and the process-table part of \<^verbatim>\<open>proc.c\<close>: the process table, allocation of a process
  with its kernel stack, sleep and wakeup, kill, and one CPU's view of the scheduler.  \<^verbatim>\<open>fork\<close>,
  \<^verbatim>\<open>exit\<close> and \<^verbatim>\<open>wait\<close> use the file system and page tables and come later.

  \<^item> State \<open>proc_st\<close> extends the allocator's state with \<^verbatim>\<open>ptable\<close>, \<^verbatim>\<open>nextpid\<close>, \<^verbatim>\<open>initproc\<close>, the
    \<^verbatim>\<open>proc\<close> field of each CPU, and the CPU that executes.  A process pointer is its index in the
    table.  \<open>forkret\<close> and \<open>trapret\<close> are code addresses fixed by the linker.
  \<^item> \<^verbatim>\<open>p->tf\<close> and \<^verbatim>\<open>p->context\<close> are addresses inside the kernel stack page, as in the source; their
    fields are words of physical memory at the offsets of \<^verbatim>\<open>struct trapframe\<close> and
    \<^verbatim>\<open>struct context\<close>.
  \<^item> Spin locks delimit atomic sections.  Every operation below is one such section of
    \<^verbatim>\<open>ptable.lock\<close>, so \<^verbatim>\<open>acquire\<close> and \<^verbatim>\<open>release\<close> do not appear; the lock itself is the subject of
    \<^verbatim>\<open>Spinlock\<close>.
\<close>

section \<open>Process table\<close>

definition NPROC :: nat where "NPROC = 64"
definition NCPU :: nat where "NCPU = 8"
definition NOFILE :: nat where "NOFILE = 16"
definition KSTACKSIZE :: uint where "KSTACKSIZE = 4096"

datatype procstate = UNUSED | EMBRYO | SLEEPING | RUNNABLE | RUNNING | ZOMBIE

record proc =
  p_sz :: uint
  p_pgdir :: uint
  p_kstack :: uint
  p_state :: procstate
  p_pid :: int
  p_parent :: "nat option"
  p_tf :: uint
  p_context :: uint
  p_chan :: "chan option"
  p_killed :: bool
  p_ofile :: "nat \<Rightarrow> nat option"
  p_cwd :: "nat option"
  p_name :: carray

text \<open>A table entry as the loader leaves it: all bytes zero.\<close>

definition zero_proc :: proc where
  "zero_proc = \<lparr>p_sz = 0, p_pgdir = 0, p_kstack = 0, p_state = UNUSED, p_pid = 0, p_parent = None,
     p_tf = 0, p_context = 0, p_chan = None, p_killed = False, p_ofile = (\<lambda>_. None), p_cwd = None,
     p_name = (\<lambda>_. 0)\<rparr>"

record proc_st = kmem_st +
  ptable :: "nat \<Rightarrow> proc"
  nextpid :: int
  initproc :: "nat option"
  cpu_proc :: "nat \<Rightarrow> nat option"
  this_cpu :: nat
  forkret :: uint
  trapret :: uint

definition upd_proc :: "nat \<Rightarrow> (proc \<Rightarrow> proc) \<Rightarrow> 'a proc_st_scheme \<Rightarrow> 'a proc_st_scheme" where
  "upd_proc i f s = s\<lparr>ptable := (ptable s)(i := f (ptable s i))\<rparr>"

definition myproc :: "'a proc_st_scheme \<Rightarrow> nat option" where
  "myproc s = cpu_proc s (this_cpu s)"

text \<open>\<^verbatim>\<open>myproc()->pid\<close>; only meaningful in process context.\<close>

definition mypid :: "'a proc_st_scheme \<Rightarrow> int" where
  "mypid s = (case myproc s of Some p \<Rightarrow> p_pid (ptable s p) | None \<Rightarrow> 0)"

section \<open>Trap frame and context\<close>

text \<open>Sizes and offsets of \<^verbatim>\<open>struct trapframe\<close> (\<^verbatim>\<open>x86.h\<close>) and \<^verbatim>\<open>struct context\<close>.\<close>

definition sizeof_trapframe :: uint where "sizeof_trapframe = 76"
definition tf_eax :: uint where "tf_eax = 28"
definition tf_es :: uint where "tf_es = 40"
definition tf_ds :: uint where "tf_ds = 44"
definition tf_trapno :: uint where "tf_trapno = 48"
definition tf_err :: uint where "tf_err = 52"
definition tf_eip :: uint where "tf_eip = 56"
definition tf_cs :: uint where "tf_cs = 60"
definition tf_eflags :: uint where "tf_eflags = 64"
definition tf_esp :: uint where "tf_esp = 68"
definition tf_ss :: uint where "tf_ss = 72"
definition sizeof_context :: uint where "sizeof_context = 20"
definition context_ebp :: uint where "context_ebp = 12"
definition context_eip :: uint where "context_eip = 16"

section \<open>Operations\<close>

definition allocproc :: "'a proc_st_scheme \<Rightarrow> nat option \<times> 'a proc_st_scheme" where
  "allocproc s =
     (case find (\<lambda>i. p_state (ptable s i) = UNUSED) [0..<NPROC] of
        None \<Rightarrow> (None, s)
      | Some p \<Rightarrow>
          let s = upd_proc p (\<lambda>q. q\<lparr>p_state := EMBRYO, p_pid := nextpid s\<rparr>) s;
              s = s\<lparr>nextpid := nextpid s + 1\<rparr>;
              (k, s) = kalloc s;
              s = upd_proc p (\<lambda>q. q\<lparr>p_kstack := k\<rparr>) s
          in if k = 0 then (None, upd_proc p (\<lambda>q. q\<lparr>p_state := UNUSED\<rparr>) s)
             else let sp = k + KSTACKSIZE;
                      sp = sp - sizeof_trapframe;
                      s = upd_proc p (\<lambda>q. q\<lparr>p_tf := sp\<rparr>) s;
                      sp = sp - 4;
                      s = s\<lparr>mem := st32 (mem s) sp (trapret s)\<rparr>;
                      sp = sp - sizeof_context;
                      s = upd_proc p (\<lambda>q. q\<lparr>p_context := sp\<rparr>) s;
                      s = s\<lparr>mem := memset (mem s) sp 0 sizeof_context\<rparr>;
                      s = s\<lparr>mem := st32 (mem s) (sp + context_eip) (forkret s)\<rparr>
                  in (Some p, s))"

definition wakeup1 :: "chan \<Rightarrow> 'a proc_st_scheme \<Rightarrow> 'a proc_st_scheme" where
  "wakeup1 c s = s\<lparr>ptable := \<lambda>i.
     if i < NPROC \<and> p_state (ptable s i) = SLEEPING \<and> p_chan (ptable s i) = Some c
     then (ptable s i)\<lparr>p_state := RUNNABLE\<rparr> else ptable s i\<rparr>"

definition wakeup :: "chan \<Rightarrow> 'a proc_st_scheme \<Rightarrow> 'a proc_st_scheme" where
  "wakeup c s = wakeup1 c s"

definition kill :: "int \<Rightarrow> 'a proc_st_scheme \<Rightarrow> int \<times> 'a proc_st_scheme" where
  "kill pid s =
     (case find (\<lambda>i. p_pid (ptable s i) = pid) [0..<NPROC] of
        None \<Rightarrow> (-1, s)
      | Some p \<Rightarrow>
          (0, upd_proc p (\<lambda>q. q\<lparr>p_killed := True,
                 p_state := (if p_state q = SLEEPING then RUNNABLE else p_state q)\<rparr>) s))"

text \<open>
  \<^verbatim>\<open>sched\<close> gives the CPU back to the scheduler, which clears \<^verbatim>\<open>c->proc\<close>; the checks are the panics at
  its head, on the lock and interrupt state the caller must have established.
\<close>

definition sched_checks :: "bool \<Rightarrow> int \<Rightarrow> bool \<Rightarrow> nat \<Rightarrow> 'a proc_st_scheme \<Rightarrow> unit result" where
  "sched_checks holding_ptable depth intr p s =
     (if \<not> holding_ptable then Panic ''sched ptable.lock''
      else if depth \<noteq> 1 then Panic ''sched locks''
      else if p_state (ptable s p) = RUNNING then Panic ''sched running''
      else if intr then Panic ''sched interruptible''
      else Ok ())"

text \<open>
  The scheduler of CPU \<open>c\<close>: its loop looks at the table from slot \<open>from\<close> on, dispatches the first
  runnable process, and clears \<^verbatim>\<open>c->proc\<close> when that process switches back.
\<close>

definition scheduler_scan :: "nat \<Rightarrow> 'a proc_st_scheme \<Rightarrow> nat option" where
  "scheduler_scan from s = find (\<lambda>i. p_state (ptable s i) = RUNNABLE) [from..<NPROC]"

definition scheduler_dispatch :: "nat \<Rightarrow> nat \<Rightarrow> 'a proc_st_scheme \<Rightarrow> 'a proc_st_scheme" where
  "scheduler_dispatch c p s =
     upd_proc p (\<lambda>q. q\<lparr>p_state := RUNNING\<rparr>) (s\<lparr>cpu_proc := (cpu_proc s)(c := Some p)\<rparr>)"

definition switch_back :: "nat \<Rightarrow> 'a proc_st_scheme \<Rightarrow> 'a proc_st_scheme" where
  "switch_back c s = s\<lparr>cpu_proc := (cpu_proc s)(c := None)\<rparr>"

text \<open>The parts of \<^verbatim>\<open>yield\<close> and \<^verbatim>\<open>sleep\<close> before and after the switch to the scheduler.\<close>

definition yield_enter :: "nat \<Rightarrow> 'a proc_st_scheme \<Rightarrow> 'a proc_st_scheme" where
  "yield_enter p s = upd_proc p (\<lambda>q. q\<lparr>p_state := RUNNABLE\<rparr>) s"

definition sleep_enter :: "chan \<Rightarrow> 'a proc_st_scheme \<Rightarrow> 'a proc_st_scheme result" where
  "sleep_enter c s =
     (case myproc s of
        None \<Rightarrow> Panic ''sleep''
      | Some p \<Rightarrow> Ok (upd_proc p (\<lambda>q. q\<lparr>p_chan := Some c, p_state := SLEEPING\<rparr>) s))"

definition sleep_resume :: "nat \<Rightarrow> 'a proc_st_scheme \<Rightarrow> 'a proc_st_scheme" where
  "sleep_resume p s = upd_proc p (\<lambda>q. q\<lparr>p_chan := None\<rparr>) s"

text \<open>
  \<^verbatim>\<open>procdump\<close> prints one line per table entry in use: its pid, state and name, and for a sleeping
  process the program counters of its kernel stack up to the first zero.
\<close>

definition state_name :: "procstate \<Rightarrow> string" where
  "state_name st = (case st of UNUSED \<Rightarrow> ''unused'' | EMBRYO \<Rightarrow> ''embryo'' | SLEEPING \<Rightarrow> ''sleep ''
     | RUNNABLE \<Rightarrow> ''runble'' | RUNNING \<Rightarrow> ''run   '' | ZOMBIE \<Rightarrow> ''zombie'')"

definition procdump :: "'a proc_st_scheme \<Rightarrow> (int \<times> string \<times> carray \<times> uint list) list" where
  "procdump s =
     map (\<lambda>i. let p = ptable s i
              in (p_pid p, state_name (p_state p), p_name p,
                  if p_state p = SLEEPING
                  then takeWhile (\<lambda>pc. pc \<noteq> 0)
                         (getcallerpcs (mem s) (ld32 (mem s) (p_context p + context_ebp) + 8))
                  else []))
     (filter (\<lambda>i. p_state (ptable s i) \<noteq> UNUSED) [0..<NPROC])"

section \<open>Sleep and wakeup\<close>

lemma wakeup_fields [simp]:
  "mem (wakeup c s) = mem s" "freelist (wakeup c s) = freelist s" "kend (wakeup c s) = kend s"
  "nextpid (wakeup c s) = nextpid s" "initproc (wakeup c s) = initproc s"
  "cpu_proc (wakeup c s) = cpu_proc s" "this_cpu (wakeup c s) = this_cpu s"
  "proc_st.more (wakeup c s) = proc_st.more s"
  by (simp_all add: wakeup_def wakeup1_def)

lemma wakeup_pid [simp]: "p_pid (ptable (wakeup c s) i) = p_pid (ptable s i)"
  by (simp add: wakeup_def wakeup1_def)

lemma mypid_wakeup [simp]: "mypid (wakeup c s) = mypid s"
  by (simp add: mypid_def myproc_def split: option.split)

lemma wakeup_wakes:
  "p_state (ptable (wakeup c s) i) =
     (if i < NPROC \<and> p_state (ptable s i) = SLEEPING \<and> p_chan (ptable s i) = Some c then RUNNABLE
      else p_state (ptable s i))"
  by (simp add: wakeup_def wakeup1_def)

section \<open>Allocating a process\<close>

text \<open>
  A process slot handed out by \<^verbatim>\<open>allocproc\<close> has a fresh pid and a kernel stack whose top holds, from
  high to low addresses, the trap frame, the return address \<^verbatim>\<open>trapret\<close> and a zeroed context that
  starts at \<^verbatim>\<open>forkret\<close>; only the stack page is written.
\<close>

definition new_stack :: "'a proc_st_scheme \<Rightarrow> uint \<Rightarrow> memory" where
  "new_stack s k =
     st32 (memset (st32 (mem s) (k + 4016) (trapret s)) (k + 3996) 0 20) (k + 4012) (forkret s)"

lemma new_stack_layout:
  "ld32 (new_stack s k) (k + 4012) = forkret s"
  "ld32 (new_stack s k) (k + 4016) = trapret s"
  "ld32 (new_stack s k) (k + 3996) = 0" "ld32 (new_stack s k) (k + 4000) = 0"
  "ld32 (new_stack s k) (k + 4004) = 0" "ld32 (new_stack s k) (k + 4008) = 0"
  using bytes_join32 [of "trapret s"] bytes_join32 [of "forkret s"]
  by (simp_all add: new_stack_def ld32_def st32_def memset_fills mem_fill_def add.assoc)

lemma new_stack_other_page:
  assumes "k mod PGSIZE = 0" and "x \<noteq> k"
  shows "same_page (mem s) (new_stack s k) x"
proof -
  have zero: "same_page m (memset m (k + 3996) 0 20) x" for m
  proof -
    have "PGROUNDDOWN a = k" if "a - (k + 3996) < 20" for a
    proof -
      define d where "d = a - (k + 3996)"
      have "PGROUNDDOWN (k + (3996 + d)) = k"
        using that by (intro PGROUNDDOWN_add_small [OF assms(1)])
          (simp add: d_def [symmetric] PGSIZE_def word_less_nat_alt unat_word_ariths)
      then show ?thesis by (simp add: d_def)
    qed
    with assms(2) show ?thesis by (auto simp: same_page_def memset_fills mem_fill_def)
  qed
  have "same_page m (st32 m (k + 4012) w) x" "same_page m (st32 m (k + 4016) w) x" for m w
    by (rule st32_page_other [OF assms]; simp add: PGSIZE_def)+
  from same_page_trans [OF same_page_trans [OF this(2) zero] this(1)] show ?thesis
    unfolding new_stack_def .
qed

lemma allocproc_no_slot:
  "\<forall>i < NPROC. p_state (ptable s i) \<noteq> UNUSED \<Longrightarrow> allocproc s = (None, s)"
  by (simp add: allocproc_def find_None_iff [THEN iffD2])

lemma allocproc_cases:
  assumes "kmem_inv s xs" and "find (\<lambda>i. p_state (ptable s i) = UNUSED) [0..<NPROC] = Some p"
  shows "allocproc s =
    (case xs of
       [] \<Rightarrow> (None, s\<lparr>nextpid := nextpid s + 1, ptable := (ptable s)
                   (p := (ptable s p)\<lparr>p_pid := nextpid s, p_kstack := 0, p_state := UNUSED\<rparr>)\<rparr>)
     | k # _ \<Rightarrow> (Some p, s\<lparr>nextpid := nextpid s + 1, freelist := ld32 (mem s) k,
                   ptable := (ptable s)(p := (ptable s p)\<lparr>p_state := EMBRYO, p_pid := nextpid s,
                     p_kstack := k, p_tf := k + 4020, p_context := k + 3996\<rparr>),
                   mem := new_stack s k\<rparr>))"
proof (cases xs)
  case Nil
  with assms have "freelist s = 0" by (simp add: kmem_inv_def)
  with assms(2) Nil show ?thesis by (simp add: allocproc_def upd_proc_def kalloc_def)
next
  case (Cons k ys)
  with assms(1) have "freelist s = k" "k \<noteq> 0" by (auto simp: kmem_inv_def dest: kernel_page_nonzero)
  with assms(2) Cons show ?thesis
    by (simp add: allocproc_def upd_proc_def kalloc_def new_stack_def KSTACKSIZE_def
        sizeof_trapframe_def sizeof_context_def context_eip_def Let_def algebra_simps)
qed

end
