(* ===== verification/Sleeplock.thy ===== *)
theory Sleeplock
  imports Proc
begin

text \<open>
  \<^verbatim>\<open>sleeplock.c\<close>: long-term locks whose waiters sleep.

  \<^item> A lock lives inside some larger structure, so the operations take the access functions of the
    lock (\<open>get\<close> and \<open>upd\<close>) and its wait channel: this is the pointer \<^verbatim>\<open>lk\<close> of the source.
  \<^item> \<^verbatim>\<open>acquiresleep\<close> on a taken lock has the outcome \<open>Sleeps\<close>.  The second half of the theory makes the
    waiting explicit: \<open>slock_step\<close> interleaves processes that take, hold and release one lock with
    the scheduler, wakeups and kills, and its invariant is mutual exclusion and the absence of lost
    wakeups.
\<close>

record sleeplock =
  sl_locked :: uint
  sl_name :: string
  sl_pid :: int

definition initsleeplock :: "string \<Rightarrow> sleeplock \<Rightarrow> sleeplock" where
  "initsleeplock name l = l\<lparr>sl_name := name, sl_locked := 0, sl_pid := 0\<rparr>"

definition acquiresleep ::
  "chan \<Rightarrow> ('a proc_st_scheme \<Rightarrow> sleeplock) \<Rightarrow>
   ((sleeplock \<Rightarrow> sleeplock) \<Rightarrow> 'a proc_st_scheme \<Rightarrow> 'a proc_st_scheme) \<Rightarrow>
   'a proc_st_scheme \<Rightarrow> 'a proc_st_scheme result" where
  "acquiresleep ch get upd s =
     (if sl_locked (get s) \<noteq> 0 then Sleeps ch
      else Ok (upd (\<lambda>l. l\<lparr>sl_locked := 1, sl_pid := mypid s\<rparr>) s))"

definition releasesleep ::
  "chan \<Rightarrow> ((sleeplock \<Rightarrow> sleeplock) \<Rightarrow> 'a proc_st_scheme \<Rightarrow> 'a proc_st_scheme) \<Rightarrow>
   'a proc_st_scheme \<Rightarrow> 'a proc_st_scheme" where
  "releasesleep ch upd s = wakeup ch (upd (\<lambda>l. l\<lparr>sl_locked := 0, sl_pid := 0\<rparr>) s)"

definition holdingsleep :: "sleeplock \<Rightarrow> 'a proc_st_scheme \<Rightarrow> bool" where
  "holdingsleep l s \<longleftrightarrow> sl_locked l \<noteq> 0 \<and> sl_pid l = mypid s"

section \<open>Waiting and waking\<close>

text \<open>
  One lock, any number of processes.  A process is outside, waiting inside \<^verbatim>\<open>acquiresleep\<close>, or has
  the lock.  The body of each rule is the code between two acquisitions of the lock's spin lock.
\<close>

record slock_st = proc_st +
  the_lock :: sleeplock

datatype sphase = Outside | Waiting | Inside

definition on_cpu :: "nat \<Rightarrow> nat \<Rightarrow> 'a proc_st_scheme \<Rightarrow> bool" where
  "on_cpu c p s \<longleftrightarrow> this_cpu s = c \<and> cpu_proc s c = Some p \<and> p_state (ptable s p) = RUNNING \<and> p < NPROC"

text \<open>The start of \<^verbatim>\<open>acquiresleep\<close>, or its continuation after \<^verbatim>\<open>sleep\<close> returns.\<close>

definition before_test :: "(nat \<Rightarrow> sphase) \<Rightarrow> nat \<Rightarrow> 'a proc_st_scheme \<Rightarrow> 'a proc_st_scheme" where
  "before_test ph p s = (if ph p = Waiting then sleep_resume p s else s)"

inductive slock_step ::
  "chan \<Rightarrow> slock_st \<times> (nat \<Rightarrow> sphase) \<Rightarrow> slock_st \<times> (nat \<Rightarrow> sphase) \<Rightarrow> bool" for ch where
  cpu: "slock_step ch (s, ph) (s\<lparr>this_cpu := c\<rparr>, ph)"
| take: "on_cpu c p s \<Longrightarrow> ph p \<noteq> Inside \<Longrightarrow>
     acquiresleep ch the_lock the_lock_update (before_test ph p s) = Ok s' \<Longrightarrow>
     slock_step ch (s, ph) (s', ph(p := Inside))"
| block: "on_cpu c p s \<Longrightarrow> ph p \<noteq> Inside \<Longrightarrow>
     acquiresleep ch the_lock the_lock_update (before_test ph p s) = Sleeps d \<Longrightarrow>
     sleep_enter d (before_test ph p s) = Ok s' \<Longrightarrow>
     slock_step ch (s, ph) (switch_back c s', ph(p := Waiting))"
| release: "on_cpu c p s \<Longrightarrow> ph p = Inside \<Longrightarrow>
     slock_step ch (s, ph) (releasesleep ch the_lock_update s, ph(p := Outside))"
| other_sleep: "on_cpu c p s \<Longrightarrow> ph p \<noteq> Waiting \<Longrightarrow> d \<noteq> ch \<Longrightarrow> sleep_enter d s = Ok s' \<Longrightarrow>
     slock_step ch (s, ph) (switch_back c s', ph)"
| yield: "on_cpu c p s \<Longrightarrow> slock_step ch (s, ph) (switch_back c (yield_enter p s), ph)"
| dispatch: "cpu_proc s c = None \<Longrightarrow> scheduler_scan from s = Some p \<Longrightarrow>
     slock_step ch (s, ph) (scheduler_dispatch c p s, ph)"
| wake: "slock_step ch (s, ph) (wakeup d s, ph)"
| kill: "kill pid s = (r, s') \<Longrightarrow> slock_step ch (s, ph) (s', ph)"

text \<open>
  Initially the lock is free, nobody waits, and process identifiers are unique; they do not change
  while the processes live, so the steps above keep them.
\<close>

definition slock_init :: "chan \<Rightarrow> slock_st \<times> (nat \<Rightarrow> sphase) \<Rightarrow> bool" where
  "slock_init ch g \<longleftrightarrow> sl_locked (the_lock (fst g)) = 0 \<and> (\<forall>p. snd g p = Outside) \<and>
     (\<forall>p < NPROC. p_state (ptable (fst g) p) = SLEEPING \<longrightarrow> p_chan (ptable (fst g) p) \<noteq> Some ch)"

inductive slock_reach :: "chan \<Rightarrow> slock_st \<times> (nat \<Rightarrow> sphase) \<Rightarrow> bool" for ch where
  init: "slock_init ch g \<Longrightarrow> slock_reach ch g"
| step: "slock_reach ch g \<Longrightarrow> slock_step ch g h \<Longrightarrow> slock_reach ch h"

definition slock_inv :: "chan \<Rightarrow> slock_st \<times> (nat \<Rightarrow> sphase) \<Rightarrow> bool" where
  "slock_inv ch g \<longleftrightarrow>
     (case g of (s, ph) \<Rightarrow>
       (\<forall>p q. ph p = Inside \<longrightarrow> ph q = Inside \<longrightarrow> p = q) \<and>
       (\<forall>p. ph p = Inside \<longrightarrow> sl_locked (the_lock s) \<noteq> 0 \<and> sl_pid (the_lock s) = p_pid (ptable s p)) \<and>
       (sl_locked (the_lock s) \<noteq> 0 \<longrightarrow> (\<exists>p. ph p = Inside)) \<and>
       (\<forall>p < NPROC. p_state (ptable s p) = SLEEPING \<longrightarrow> p_chan (ptable s p) = Some ch \<longrightarrow>
          sl_locked (the_lock s) \<noteq> 0))"

lemma slock_step_inv: "slock_step ch g h \<Longrightarrow> slock_inv ch g \<Longrightarrow> slock_inv ch h"
proof (induction rule: slock_step.induct)
  case (take c p s ph s')
  then show ?case
    by (auto simp: slock_inv_def acquiresleep_def before_test_def sleep_resume_def upd_proc_def on_cpu_def
        mypid_def myproc_def split: if_splits)
next
  case (block c p s ph d s')
  have "sl_locked (the_lock s) \<noteq> 0"
    using block.hyps(3) by (auto simp: acquiresleep_def before_test_def sleep_resume_def upd_proc_def
        split: if_splits)
  then obtain q where "ph q = Inside" using block.prems by (auto simp: slock_inv_def)
  with block.hyps(2) have q: "q \<noteq> p" "(ph(p := Waiting)) q = Inside" by auto
  have my: "myproc (before_test ph p s) = Some p"
    using block.hyps(1) by (simp add: before_test_def sleep_resume_def upd_proc_def on_cpu_def myproc_def)
  have "ptable (switch_back c s') =
      (ptable s)(p := (ptable s p)\<lparr>p_chan := Some d, p_state := SLEEPING\<rparr>)"
    and lock: "the_lock (switch_back c s') = the_lock s"
    using block.hyps(4) my
    by (auto simp: sleep_enter_def switch_back_def upd_proc_def before_test_def sleep_resume_def)
  then have "p_pid (ptable (switch_back c s') i) = p_pid (ptable s i)" for i by simp
  with \<open>sl_locked (the_lock s) \<noteq> 0\<close> lock q block.prems show ?case
    unfolding slock_inv_def by (auto split: if_splits)
next
  case (release c p s ph)
  then show ?case
    by (auto simp: slock_inv_def releasesleep_def wakeup_def wakeup1_def split: if_splits)
next
  case (other_sleep c p s ph d s')
  then show ?case
    by (auto simp: slock_inv_def sleep_enter_def switch_back_def upd_proc_def on_cpu_def myproc_def
        split: option.splits if_splits)
next
  case (wake s ph d)
  then show ?case by (auto simp: slock_inv_def wakeup_def wakeup1_def split: if_splits)
next
  case (kill pid s r s' ph)
  then show ?case
    by (auto simp: slock_inv_def kill_def upd_proc_def split: option.splits if_splits)
qed (auto simp: slock_inv_def yield_enter_def switch_back_def upd_proc_def scheduler_dispatch_def)

lemma slock_reach_inv: "slock_reach ch g \<Longrightarrow> slock_inv ch g"
proof (induction rule: slock_reach.induct)
  case (init g)
  then show ?case by (auto simp: slock_init_def slock_inv_def split: prod.split)
next
  case (step g h)
  then show ?case by (blast intro: slock_step_inv)
qed

section \<open>Properties\<close>


definition two_procs :: slock_st where
  "two_procs = \<lparr>mem = \<lambda>_. 0, freelist = 0, use_lock = True, kend = 0x80115000, kdata = 0x80108000,
     ptable = \<lambda>i. if i < 2 then zero_proc\<lparr>p_state := RUNNING, p_pid := int i + 1\<rparr> else zero_proc,
     nextpid = 3, initproc = Some 0, cpu_proc = \<lambda>c. if c < 2 then Some c else None, this_cpu = 0,
     forkret = 0, trapret = 0, the_lock = \<lparr>sl_locked = 0, sl_name = ''buffer'', sl_pid = 0\<rparr>\<rparr>"

text \<open>Process 0 has the lock and process 1 sleeps on it.\<close>

definition one_waits :: slock_st where
  "one_waits = switch_back 1 (the_ok (sleep_enter (ChanBufLock 3)
     (the_ok (acquiresleep (ChanBufLock 3) the_lock the_lock_update two_procs)\<lparr>this_cpu := 1\<rparr>)))"

lemma one_waits_reach:
  "slock_reach (ChanBufLock 3) (one_waits, (\<lambda>_. Outside)(0 := Inside, 1 := Waiting))"
proof -
  define s where "s = the_ok (acquiresleep (ChanBufLock 3) the_lock the_lock_update two_procs)"
  let ?c = "ChanBufLock 3" and ?ph = "\<lambda>_. Outside"
  have "slock_reach ?c (two_procs, ?ph)"
    by (rule slock_reach.init) (simp add: slock_init_def two_procs_def zero_proc_def)
  moreover have "slock_step ?c (two_procs, ?ph) (s, ?ph(0 := Inside))"
    unfolding s_def by (rule slock_step.take [where c = 0])
      (simp_all add: on_cpu_def two_procs_def before_test_def acquiresleep_def NPROC_def)
  moreover have "slock_step ?c (s, ?ph(0 := Inside)) (s\<lparr>this_cpu := 1\<rparr>, ?ph(0 := Inside))"
    by (rule slock_step.cpu)
  moreover have "slock_step ?c (s\<lparr>this_cpu := 1\<rparr>, ?ph(0 := Inside)) (one_waits, ?ph(0 := Inside, 1 := Waiting))"
    unfolding one_waits_def s_def [symmetric]
    by (rule slock_step.block) (simp_all add: on_cpu_def two_procs_def before_test_def
        acquiresleep_def NPROC_def s_def sleep_enter_def myproc_def)
  ultimately show ?thesis by (meson slock_reach.step)
qed


end
