(* ===== verification/Ide.thy ===== *)
theory Ide
  imports Sleeplock
begin

text \<open>
  \<^verbatim>\<open>buf.h\<close> and \<^verbatim>\<open>ide.c\<close>: buffers and the disk driver.

  \<^item> State \<open>bio_st\<close> extends the process state with the buffers, the two disks and the driver's queue.
    Index \<open>NBUF\<close> of the buffer array is \<^verbatim>\<open>bcache.head\<close>.  A block is a function from byte offsets; only
    the offsets below \<^verbatim>\<open>BSIZE\<close> belong to it.
  \<^item> The disk is hardware.  \<open>idestart\<close> programs the command registers (\<open>ide_cmd\<close>) as the source does;
    the device decodes them as LBA28 addresses.  A write takes effect when its data have been sent,
    a read returns the addressed sector.  \<open>ide_fails\<close> says for which sectors the device reports an
    error.  \<open>disk_writes\<close> is a ghost history of the writes, for the crash theorems of the log.
  \<^item> Waiting for a request is waiting for interrupts: \<open>ide_wait\<close> runs \<open>ideintr\<close> until the buffer is
    done.  Its fuel \<open>NBUF + 1\<close> exceeds the number of requests that can be queued, since every queued
    request is a different buffer.
\<close>

section \<open>Buffers\<close>

definition BSIZE :: nat where "BSIZE = 512"
definition FSSIZE :: uint where "FSSIZE = 1000"
definition NBUF :: nat where "NBUF = 30"
definition B_VALID :: uint where "B_VALID = 0x2"
definition B_DIRTY :: uint where "B_DIRTY = 0x4"

type_synonym block = "nat \<Rightarrow> uchar"

record buf =
  flags :: uint
  b_dev :: uint
  b_blockno :: uint
  b_lock :: sleeplock
  refcnt :: uint
  b_prev :: nat
  b_next :: nat
  b_qnext :: "nat option"
  b_data :: block

text \<open>The task-file registers \<^verbatim>\<open>0x1f2\<close> to \<^verbatim>\<open>0x1f7\<close>.\<close>

record ide_regs =
  r_count :: uchar
  r_lba0 :: uchar
  r_lba1 :: uchar
  r_lba2 :: uchar
  r_drive :: uchar
  r_cmd :: uchar

record bio_st = proc_st +
  bufs :: "nat \<Rightarrow> buf"
  disk :: "uint \<Rightarrow> uint \<Rightarrow> block"
  disk_writes :: "(uint \<times> uint \<times> block) list"
  idequeue :: "nat option"
  ide_cmd :: ide_regs
  havedisk1 :: bool
  ide_fails :: "uint \<Rightarrow> uint \<Rightarrow> bool"

definition upd_buf :: "nat \<Rightarrow> (buf \<Rightarrow> buf) \<Rightarrow> 'a bio_st_scheme \<Rightarrow> 'a bio_st_scheme" where
  "upd_buf i f s = s\<lparr>bufs := (bufs s)(i := f (bufs s i))\<rparr>"

definition b_valid :: "buf \<Rightarrow> bool" where "b_valid b \<longleftrightarrow> flags b AND B_VALID \<noteq> 0"
definition b_dirty :: "buf \<Rightarrow> bool" where "b_dirty b \<longleftrightarrow> flags b AND B_DIRTY \<noteq> 0"

section \<open>The device\<close>

definition IDE_CMD_READ :: uchar where "IDE_CMD_READ = 0x20"
definition IDE_CMD_WRITE :: uchar where "IDE_CMD_WRITE = 0x30"
definition IDE_CMD_RDMUL :: uchar where "IDE_CMD_RDMUL = 0xc4"
definition IDE_CMD_WRMUL :: uchar where "IDE_CMD_WRMUL = 0xc5"
definition SECTOR_SIZE :: nat where "SECTOR_SIZE = 512"

definition ata_drive :: "ide_regs \<Rightarrow> uint" where
  "ata_drive r = (if bit (r_drive r) 4 then 1 else 0)"

definition ata_sector :: "ide_regs \<Rightarrow> uint" where
  "ata_sector r = ucast (r_lba0 r) OR push_bit 8 (ucast (r_lba1 r)) OR push_bit 16 (ucast (r_lba2 r))
     OR push_bit 24 (ucast (r_drive r AND 0x0f))"

text \<open>\<^verbatim>\<open>idewait\<close>: the device becomes ready; with \<^verbatim>\<open>checkerr\<close> its error status is reported.\<close>

definition idewait :: "bool \<Rightarrow> 'a bio_st_scheme \<Rightarrow> int" where
  "idewait checkerr s =
     (if checkerr \<and> ide_fails s (ata_drive (ide_cmd s)) (ata_sector (ide_cmd s)) then -1 else 0)"

section \<open>Driver\<close>

text \<open>\<open>status\<close> is what the status port of disk 1 returns in the polls of \<^verbatim>\<open>ideinit\<close>.\<close>

definition ideinit :: "(nat \<Rightarrow> uchar) \<Rightarrow> 'a bio_st_scheme \<Rightarrow> 'a bio_st_scheme" where
  "ideinit status s =
     (if list_ex (\<lambda>i. status i \<noteq> 0) [0..<1000] then s\<lparr>havedisk1 := True\<rparr> else s)"

definition ide_command :: "buf \<Rightarrow> ide_regs" where
  "ide_command b =
     (let sector_per_block = BSIZE div SECTOR_SIZE;
          sector = b_blockno b * of_nat sector_per_block;
          read_cmd = (if sector_per_block = 1 then IDE_CMD_READ else IDE_CMD_RDMUL);
          write_cmd = (if sector_per_block = 1 then IDE_CMD_WRITE else IDE_CMD_WRMUL)
      in \<lparr>r_count = of_nat sector_per_block,
          r_lba0 = ucast (sector AND 0xff),
          r_lba1 = ucast (drop_bit 8 sector AND 0xff),
          r_lba2 = ucast (drop_bit 16 sector AND 0xff),
          r_drive = ucast (0xe0 OR push_bit 4 (b_dev b AND 1) OR (drop_bit 24 sector AND 0x0f)),
          r_cmd = (if flags b AND B_DIRTY \<noteq> 0 then write_cmd else read_cmd)\<rparr>)"

definition idestart :: "nat option \<Rightarrow> 'a bio_st_scheme \<Rightarrow> 'a bio_st_scheme result" where
  "idestart ob s =
     (case ob of
        None \<Rightarrow> Panic ''idestart''
      | Some i \<Rightarrow>
          let b = bufs s i; r = ide_command b
          in if b_blockno b \<ge> FSSIZE then Panic ''incorrect blockno''
             else if BSIZE div SECTOR_SIZE > 7 then Panic ''idestart''
             else if flags b AND B_DIRTY \<noteq> 0
             then let d = ata_drive r; n = ata_sector r
                  in Ok (s\<lparr>ide_cmd := r,
                           disk := (disk s)(d := (disk s d)(n := b_data b)),
                           disk_writes := disk_writes s @ [(d, n, b_data b)]\<rparr>)
             else Ok (s\<lparr>ide_cmd := r\<rparr>))"

definition ideintr :: "'a bio_st_scheme \<Rightarrow> 'a bio_st_scheme result" where
  "ideintr s =
     (case idequeue s of
        None \<Rightarrow> Ok s
      | Some i \<Rightarrow>
          let s = s\<lparr>idequeue := b_qnext (bufs s i)\<rparr>;
              s = (if flags (bufs s i) AND B_DIRTY = 0 \<and> idewait True s \<ge> 0
                   then upd_buf i (\<lambda>b. b\<lparr>b_data := disk s (ata_drive (ide_cmd s)) (ata_sector (ide_cmd s))\<rparr>) s
                   else s);
              s = upd_buf i (\<lambda>b. b\<lparr>flags := (flags b OR B_VALID) AND NOT B_DIRTY\<rparr>) s;
              s = wakeup (ChanBuf i) s
          in if idequeue s \<noteq> None then idestart (idequeue s) s else Ok s)"

text \<open>The queue is threaded through \<^verbatim>\<open>qnext\<close>; a request is appended behind the last one.\<close>

fun ide_last :: "nat \<Rightarrow> nat \<Rightarrow> 'a bio_st_scheme \<Rightarrow> nat result" where
  "ide_last 0 i s = Diverges"
| "ide_last (Suc n) i s = (case b_qnext (bufs s i) of None \<Rightarrow> Ok i | Some j \<Rightarrow> ide_last n j s)"

definition ide_append :: "nat \<Rightarrow> 'a bio_st_scheme \<Rightarrow> 'a bio_st_scheme result" where
  "ide_append i s =
     (let s = upd_buf i (\<lambda>b. b\<lparr>b_qnext := None\<rparr>) s
      in case idequeue s of
           None \<Rightarrow> Ok (s\<lparr>idequeue := Some i\<rparr>)
         | Some h \<Rightarrow> rbind (ide_last (Suc NBUF) h s)
                      (\<lambda>j. Ok (upd_buf j (\<lambda>b. b\<lparr>b_qnext := Some i\<rparr>) s)))"

fun ide_wait :: "nat \<Rightarrow> nat \<Rightarrow> 'a bio_st_scheme \<Rightarrow> 'a bio_st_scheme result" where
  "ide_wait 0 i s = Diverges"
| "ide_wait (Suc n) i s =
     (if flags (bufs s i) AND (B_VALID OR B_DIRTY) = B_VALID then Ok s
      else rbind (ideintr s) (ide_wait n i))"

definition iderw :: "nat \<Rightarrow> 'a bio_st_scheme \<Rightarrow> 'a bio_st_scheme result" where
  "iderw i s =
     (let b = bufs s i
      in if \<not> holdingsleep (b_lock b) s then Panic ''iderw: buf not locked''
         else if flags b AND (B_VALID OR B_DIRTY) = B_VALID then Panic ''iderw: nothing to do''
         else if b_dev b \<noteq> 0 \<and> \<not> havedisk1 s then Panic ''iderw: ide disk 1 not present''
         else rbind (ide_append i s) (\<lambda>s.
              rbind (if idequeue s = Some i then idestart (Some i) s else Ok s)
                (ide_wait (Suc NBUF) i)))"

section \<open>Flag and address arithmetic\<close>

lemma B_DIRTY_bit: "B_DIRTY = push_bit 2 1"
  by (simp add: B_DIRTY_def)

lemma B_VALID_bit: "B_VALID = push_bit 1 1"
  by (simp add: B_VALID_def)

lemma b_valid_bit [simp]: "b_valid b \<longleftrightarrow> bit (flags b) 1"
  by (simp only: b_valid_def B_VALID_bit bit_iff_and_push_bit_not_eq_0 [symmetric])

lemma b_dirty_bit [simp]: "b_dirty b \<longleftrightarrow> bit (flags b) 2"
  by (simp only: b_dirty_def B_DIRTY_bit bit_iff_and_push_bit_not_eq_0 [symmetric])

lemma and_B_DIRTY [simp]: "f AND B_DIRTY = 0 \<longleftrightarrow> \<not> bit f 2"
  by (simp only: B_DIRTY_bit) (metis bit_iff_and_push_bit_not_eq_0)

lemma and_B_VALID [simp]: "f AND B_VALID = 0 \<longleftrightarrow> \<not> bit f 1"
  by (simp only: B_VALID_bit) (metis bit_iff_and_push_bit_not_eq_0)

lemma bit_flags [simp]:
  "bit (f OR B_DIRTY) 2" "bit (f OR B_DIRTY) 1 = bit f 1"
  "bit (f OR B_VALID) 1" "bit (f OR B_VALID) 2 = bit f 2"
  "\<not> bit (f AND NOT B_DIRTY) 2" "bit (f AND NOT B_DIRTY) 1 = bit f 1"
  unfolding B_DIRTY_bit B_VALID_bit by (simp_all add: bit_simps)

lemmas bit_flags_Suc [simp] = bit_flags [unfolded One_nat_def]

lemma bit_B_VALID: "bit B_VALID n \<longleftrightarrow> n = 1"
  unfolding B_VALID_bit bit_push_bit_iff bit_1_iff by auto

lemma bit_B_DIRTY: "bit B_DIRTY n \<longleftrightarrow> n = 2"
  unfolding B_DIRTY_bit bit_push_bit_iff bit_1_iff by auto

lemma done_flags [simp]:
  "f AND (B_VALID OR B_DIRTY) = B_VALID \<longleftrightarrow> bit f 1 \<and> \<not> bit f 2"
proof
  assume *: "f AND (B_VALID OR B_DIRTY) = B_VALID"
  have "bit (f AND (B_VALID OR B_DIRTY)) n = bit B_VALID n" for n by (simp only: *)
  from this [of 1] this [of 2] show "bit f 1 \<and> \<not> bit f 2"
    by (simp add: bit_and_iff bit_or_iff bit_B_VALID bit_B_DIRTY)
next
  assume "bit f 1 \<and> \<not> bit f 2"
  then show "f AND (B_VALID OR B_DIRTY) = B_VALID"
    by (intro bit_word_eqI) (auto simp: bit_and_iff bit_or_iff bit_B_VALID bit_B_DIRTY)
qed

text \<open>The command registers address the block: sector and drive as the device decodes them.\<close>

lemma reg_masks:
  "(0xff :: uint) = mask 8" "(0x0f :: uint) = mask 4" "(0x0f :: uchar) = mask 4"
  "(0xe0 :: uint) = push_bit 5 (mask 3)"
  by (simp_all add: mask_eq_exp_minus_1)

lemma ide_command_regs:
  "r_lba0 (ide_command b) = ucast (b_blockno b AND mask 8)"
  "r_lba1 (ide_command b) = ucast (drop_bit 8 (b_blockno b) AND mask 8)"
  "r_lba2 (ide_command b) = ucast (drop_bit 16 (b_blockno b) AND mask 8)"
  "r_drive (ide_command b) = ucast (push_bit 5 (mask 3) OR push_bit 4 (b_dev b AND 1)
     OR (drop_bit 24 (b_blockno b) AND mask 4))"
  unfolding reg_masks [symmetric] by (simp_all add: ide_command_def BSIZE_def SECTOR_SIZE_def Let_def)

lemma bit_range_cases:
  fixes n :: nat
  obtains "n < 8" | k where "n = 8 + k" "k < 8" | k where "n = 16 + k" "k < 8"
    | k where "n = 24 + k" "k < 4" | k where "n = 28 + k"
proof -
  assume a: "n < 8 \<Longrightarrow> thesis" "\<And>k. n = 8 + k \<Longrightarrow> k < 8 \<Longrightarrow> thesis"
    "\<And>k. n = 16 + k \<Longrightarrow> k < 8 \<Longrightarrow> thesis" "\<And>k. n = 24 + k \<Longrightarrow> k < 4 \<Longrightarrow> thesis" "\<And>k. n = 28 + k \<Longrightarrow> thesis"
  show thesis
    using a(1) a(2) [of "n - 8"] a(3) [of "n - 16"] a(4) [of "n - 24"] a(5) [of "n - 28"] by linarith
qed

lemma ata_sector_bits:
  "bit (ata_sector (ide_command b)) n \<longleftrightarrow> n < 28 \<and> bit (b_blockno b) n"
  unfolding ata_sector_def ide_command_regs reg_masks
  by (rule bit_range_cases [of n]) (simp_all add: bit_simps)

lemma ide_command_sector:
  assumes "b_blockno b < FSSIZE"
  shows "ata_sector (ide_command b) = b_blockno b"
proof (rule bit_word_eqI)
  fix n
  have "unat (b_blockno b) < 1000" using assms by (simp add: FSSIZE_def word_less_nat_alt)
  have high: "\<not> bit (b_blockno b) n" if "28 \<le> n"
  proof -
    have "unat (b_blockno b) < 2 ^ n"
      using \<open>unat (b_blockno b) < 1000\<close> power_increasing [OF that, of "2 :: nat"] by simp
    then have "\<not> bit (unat (b_blockno b)) n" by (simp add: bit_iff_odd)
    then show ?thesis by (simp add: bit_unsigned_iff)
  qed
  show "bit (ata_sector (ide_command b)) n = bit (b_blockno b) n"
    by (cases "28 \<le> n") (simp_all add: ata_sector_bits high)
qed

lemma ide_command_drive: "ata_drive (ide_command b) = b_dev b AND 1"
  unfolding ata_drive_def ide_command_regs
  by (simp add: bit_simps and_one_eq mod_2_eq_odd)


section \<open>The request queue\<close>

primrec ide_chain :: "(nat \<Rightarrow> buf) \<Rightarrow> nat option \<Rightarrow> nat list \<Rightarrow> bool" where
  "ide_chain bs p [] \<longleftrightarrow> p = None"
| "ide_chain bs p (x # xs) \<longleftrightarrow> p = Some x \<and> ide_chain bs (b_qnext (bs x)) xs"

definition pending :: "buf \<Rightarrow> bool" where
  "pending b \<longleftrightarrow> \<not> (b_valid b \<and> \<not> b_dirty b)"

definition started :: "'a bio_st_scheme \<Rightarrow> nat \<Rightarrow> bool" where
  "started s i \<longleftrightarrow> ide_cmd s = ide_command (bufs s i) \<and>
     (b_dirty (bufs s i) \<longrightarrow> disk s (b_dev (bufs s i) AND 1) (b_blockno (bufs s i)) = b_data (bufs s i))"

definition ide_ok :: "'a bio_st_scheme \<Rightarrow> nat list \<Rightarrow> bool" where
  "ide_ok s xs \<longleftrightarrow> ide_chain (bufs s) (idequeue s) xs \<and> distinct xs \<and> set xs \<subseteq> {..<NBUF} \<and>
     (\<forall>x \<in> set xs. b_blockno (bufs s x) < FSSIZE \<and> pending (bufs s x)) \<and>
     (xs \<noteq> [] \<longrightarrow> started s (hd xs))"

lemma ide_chain_cong:
  "(\<And>x. x \<in> set xs \<Longrightarrow> b_qnext (bs x) = b_qnext (bs' x)) \<Longrightarrow> ide_chain bs p xs = ide_chain bs' p xs"
  by (induction xs arbitrary: p) auto

lemma ide_chain_upd [simp]: "i \<notin> set xs \<Longrightarrow> ide_chain (bs(i := b)) p xs = ide_chain bs p xs"
  by (rule ide_chain_cong) auto

lemma ide_chain_append:
  "ide_chain bs p xs \<Longrightarrow> xs \<noteq> [] \<Longrightarrow> distinct xs \<Longrightarrow> i \<notin> set xs \<Longrightarrow> b_qnext (bs i) = None \<Longrightarrow>
   ide_chain (bs(last xs := (bs (last xs))\<lparr>b_qnext := Some i\<rparr>)) p (xs @ [i])"
proof (induction xs arbitrary: p)
  case (Cons x xs)
  show ?case
  proof (cases xs)
    case Nil
    with Cons.prems show ?thesis by simp
  next
    case (Cons y ys)
    with Cons.prems have "x \<noteq> last xs" by auto
    with Cons.prems Cons.IH [of "b_qnext (bs x)"] Cons show ?thesis by auto
  qed
qed simp

lemma ide_last_chain:
  "ide_chain (bufs s) (Some h) xs \<Longrightarrow> length xs \<le> n \<Longrightarrow> ide_last n h s = Ok (last xs)"
proof (induction n arbitrary: h xs)
  case (Suc n)
  then obtain ys where xs: "xs = h # ys" "ide_chain (bufs s) (b_qnext (bufs s h)) ys" by (cases xs) auto
  show ?case
  proof (cases ys)
    case Nil
    with xs show ?thesis by simp
  next
    case (Cons y zs)
    with xs Suc.IH [of y ys] Suc.prems(2) show ?thesis by simp
  qed
qed auto

text \<open>What serving the request of buffer \<open>i\<close> leaves in it, and the effect of starting one.\<close>

definition served :: "'a bio_st_scheme \<Rightarrow> nat \<Rightarrow> buf" where
  "served s i =
     (let b = bufs s i; d = b_dev b AND 1; n = b_blockno b
      in (if b_dirty b \<or> ide_fails s d n then b else b\<lparr>b_data := disk s d n\<rparr>)
           \<lparr>flags := (flags b OR B_VALID) AND NOT B_DIRTY\<rparr>)"

lemma served_fields [simp]:
  "b_qnext (served s i) = b_qnext (bufs s i)" "b_dev (served s i) = b_dev (bufs s i)"
  "b_blockno (served s i) = b_blockno (bufs s i)" "b_lock (served s i) = b_lock (bufs s i)"
  "flags (served s i) = (flags (bufs s i) OR B_VALID) AND NOT B_DIRTY"
  by (simp_all add: served_def Let_def)

definition put_disk :: "uint \<Rightarrow> uint \<Rightarrow> block \<Rightarrow> 'a bio_st_scheme \<Rightarrow> 'a bio_st_scheme" where
  "put_disk d n v s = s\<lparr>disk := (disk s)(d := (disk s d)(n := v)),
     disk_writes := disk_writes s @ [(d, n, v)]\<rparr>"

definition start_req :: "nat \<Rightarrow> 'a bio_st_scheme \<Rightarrow> 'a bio_st_scheme" where
  "start_req i s =
     (let b = bufs s i; s = s\<lparr>ide_cmd := ide_command b\<rparr>
      in if b_dirty b then put_disk (b_dev b AND 1) (b_blockno b) (b_data b) s else s)"

lemma idestart_ok:
  "b_blockno (bufs s i) < FSSIZE \<Longrightarrow> idestart (Some i) s = Ok (start_req i s)"
  by (auto simp: idestart_def start_req_def put_disk_def ide_command_sector ide_command_drive
      BSIZE_def SECTOR_SIZE_def Let_def not_le)

lemma start_req_fields [simp]:
  "bufs (start_req i s) = bufs s" "idequeue (start_req i s) = idequeue s"
  "started (start_req i s) i" "ide_fails (start_req i s) = ide_fails s"
  by (auto simp: start_req_def put_disk_def started_def Let_def)

lemma ide_ok_served:
  assumes "ide_ok s (x # xs)"
  shows "ide_chain ((bufs s)(x := served s x)) (b_qnext (bufs s x)) xs" and "distinct xs"
    and "set xs \<subseteq> {..<NBUF}" and "x \<notin> set xs"
    and "\<And>y. y \<in> set xs \<Longrightarrow> b_blockno (bufs s y) < FSSIZE \<and> pending (bufs s y)"
  using assms by (auto simp: ide_ok_def)

lemma ideintr_serves:
  assumes "ide_ok s (x # xs)"
  defines "t \<equiv> wakeup (ChanBuf x) (s\<lparr>idequeue := b_qnext (bufs s x), bufs := (bufs s)(x := served s x)\<rparr>)"
  shows "ideintr s = Ok (if xs = [] then t else start_req (hd xs) t)"
    and "ide_ok (if xs = [] then t else start_req (hd xs) t) xs"
proof -
  have x: "idequeue s = Some x" "b_blockno (bufs s x) < FSSIZE" "ide_cmd s = ide_command (bufs s x)"
    using assms(1) by (auto simp: ide_ok_def started_def)
  note rest = ide_ok_served [OF assms(1)]
  have q: "idequeue t = (case xs of [] \<Rightarrow> None | y # _ \<Rightarrow> Some y)"
    using rest(1) by (cases xs) (auto simp: t_def wakeup_def wakeup1_def)
  define s0 where "s0 = s\<lparr>idequeue := b_qnext (bufs s x)\<rparr>"
  have "upd_buf x (\<lambda>b. b\<lparr>flags := (flags b OR B_VALID) AND NOT B_DIRTY\<rparr>)
      (if flags (bufs s0 x) AND B_DIRTY = 0 \<and> 0 \<le> idewait True s0
       then upd_buf x (\<lambda>b. b\<lparr>b_data := disk s0 (ata_drive (ide_cmd s0)) (ata_sector (ide_cmd s0))\<rparr>) s0
       else s0) = s\<lparr>idequeue := b_qnext (bufs s x), bufs := (bufs s)(x := served s x)\<rparr>"
    using x by (simp add: s0_def upd_buf_def served_def idewait_def ide_command_sector ide_command_drive
        Let_def)
  then have "ideintr s = (if idequeue t \<noteq> None then idestart (idequeue t) t else Ok t)"
    unfolding ideintr_def t_def s0_def by (simp only: x(1) option.case Let_def)
  moreover have "b_blockno (bufs t (hd xs)) < FSSIZE" if "xs \<noteq> []"
    using rest(4,5) that by (cases xs) (auto simp: t_def wakeup_def wakeup1_def)
  ultimately show "ideintr s = Ok (if xs = [] then t else start_req (hd xs) t)"
    by (cases xs) (simp_all add: q idestart_ok)
  have bt: "bufs t = (bufs s)(x := served s x)" by (simp add: t_def wakeup_def wakeup1_def)
  have "ide_chain (bufs t) (idequeue t) xs"
    using rest(1) by (simp add: bt) (simp add: t_def wakeup_def wakeup1_def)
  then show "ide_ok (if xs = [] then t else start_req (hd xs) t) xs"
    using rest(2-5) by (auto simp: ide_ok_def bt)
qed

definition apply_write :: "uint \<times> uint \<times> block \<Rightarrow> (uint \<Rightarrow> uint \<Rightarrow> block) \<Rightarrow> (uint \<Rightarrow> uint \<Rightarrow> block)" where
  "apply_write w D = (case w of (d, n, v) \<Rightarrow> D(d := (D d)(n := v)))"

definition apply_writes :: "(uint \<times> uint \<times> block) list \<Rightarrow> (uint \<Rightarrow> uint \<Rightarrow> block) \<Rightarrow> (uint \<Rightarrow> uint \<Rightarrow> block)" where
  "apply_writes ws D = fold apply_write ws D"

definition write_of :: "buf \<Rightarrow> uint \<times> uint \<times> block" where
  "write_of b = (b_dev b AND 1, b_blockno b, b_data b)"

primrec writes_of :: "(nat \<Rightarrow> buf) \<Rightarrow> nat list \<Rightarrow> (uint \<times> uint \<times> block) list" where
  "writes_of bs [] = []"
| "writes_of bs (i # is) = (if b_dirty (bs i) then [write_of (bs i)] else []) @ writes_of bs is"

lemma writes_of_cong:
  "(\<And>i. i \<in> set xs \<Longrightarrow> bs i = bs' i) \<Longrightarrow> writes_of bs xs = writes_of bs' xs"
  by (induction xs) auto

lemma start_req_disk:
  "disk (start_req i s) = (if b_dirty (bufs s i) then apply_write (write_of (bufs s i)) (disk s) else disk s)"
  "disk_writes (start_req i s) =
     disk_writes s @ (if b_dirty (bufs s i) then [write_of (bufs s i)] else [])"
  by (simp_all add: start_req_def put_disk_def apply_write_def write_of_def Let_def)

lemma wakeup_bio_fields [simp]:
  "bufs (wakeup c s) = bufs s" "disk (wakeup c s) = disk s" "disk_writes (wakeup c s) = disk_writes s"
  "idequeue (wakeup c s) = idequeue s" "ide_cmd (wakeup c s) = ide_cmd s"
  "havedisk1 (wakeup c s) = havedisk1 s" "ide_fails (wakeup c s) = ide_fails s"
  "bio_st.more (wakeup c s) = bio_st.more s"
  by (simp_all add: wakeup_def wakeup1_def)

lemma ide_wait_done: "0 < n \<Longrightarrow> \<not> pending (bufs s i) \<Longrightarrow> ide_wait n i s = Ok s"
  by (cases n) (auto simp: pending_def)

text \<open>
  Waiting for the last request of the queue serves all of them, in order: the pending writes reach
  the disk in queue order.
\<close>

lemma ide_wait_serves:
  assumes "ide_ok s (xs @ [i])" and "length xs + 2 \<le> n"
  shows "\<exists>s'. ide_wait n i s = Ok s' \<and> ide_ok s' [] \<and>
    (\<forall>x \<in> set (xs @ [i]). \<not> pending (bufs s' x)) \<and>
    (\<forall>j. j \<notin> set (xs @ [i]) \<longrightarrow> bufs s' j = bufs s j) \<and>
    disk_writes s' = disk_writes s @ writes_of (bufs s) (tl (xs @ [i])) \<and>
    disk s' = apply_writes (writes_of (bufs s) (tl (xs @ [i]))) (disk s)"
  using assms
proof (induction xs arbitrary: s n)
  case Nil
  then obtain m where n: "n = Suc (Suc m)" by (metis add_2_eq_Suc le_Suc_ex list.size(3) add_0)
  have "pending (bufs s i)" using Nil.prems(1) by (simp add: ide_ok_def)
  with ideintr_serves [of s i "[]"] Nil.prems(1) show ?case
    by (auto simp: n pending_def apply_writes_def)
next
  case (Cons x xs)
  then obtain m where n: "n = Suc m" "length xs + 2 \<le> m" by (cases n) auto
  define t where "t = wakeup (ChanBuf x) (s\<lparr>idequeue := b_qnext (bufs s x), bufs := (bufs s)(x := served s x)\<rparr>)"
  have t: "bufs t = (bufs s)(x := served s x)" "disk t = disk s" "disk_writes t = disk_writes s"
    by (simp_all add: t_def)
  obtain y ys where ys: "xs @ [i] = y # ys" by (cases "xs @ [i]") auto
  have ok: "ide_ok s (x # (xs @ [i]))" using Cons.prems(1) by simp
  from ideintr_serves [OF ok] have intr: "ideintr s = Ok (start_req y t)" "ide_ok (start_req y t) (xs @ [i])"
    by (simp_all add: ys t_def)
  have pend: "pending (bufs s i)" and x: "x \<notin> set (xs @ [i])" using ok by (auto simp: ide_ok_def)
  with ys have "x \<noteq> y" "x \<notin> set ys" by auto
  obtain s' where s': "ide_wait m i (start_req y t) = Ok s'" "ide_ok s' []"
    "\<forall>x \<in> set (xs @ [i]). \<not> pending (bufs s' x)" "\<forall>j. j \<notin> set (xs @ [i]) \<longrightarrow> bufs s' j = bufs t j"
    "disk_writes s' = disk_writes (start_req y t) @ writes_of (bufs t) ys"
    "disk s' = apply_writes (writes_of (bufs t) ys) (disk (start_req y t))"
    using Cons.IH [OF intr(2) n(2)] unfolding ys list.sel start_req_fields by blast
  have e: "writes_of (bufs t) ys = writes_of (bufs s) ys" "bufs t y = bufs s y"
    using \<open>x \<noteq> y\<close> \<open>x \<notin> set ys\<close> by (auto simp: t(1) intro: writes_of_cong)
  have w: "disk_writes s' = disk_writes s @ writes_of (bufs s) (xs @ [i])"
    "disk s' = apply_writes (writes_of (bufs s) (xs @ [i])) (disk s)"
    unfolding s'(5,6) ys start_req_disk t(2,3) e by (simp_all add: apply_writes_def)
  have "\<not> pending (bufs s' x)" using s'(4) x by (simp add: pending_def t(1))
  moreover have "bufs s' j = bufs s j" if "j \<notin> set ((x # xs) @ [i])" for j
    using s'(4) that by (simp add: t(1))
  moreover have "ide_wait n i s = Ok s'"
    using s'(1) intr(1) pend n(1) by (auto simp: pending_def)
  ultimately show ?case using s'(2,3) w by simp
qed

lemma ide_append_ok:
  assumes "ide_ok s xs" and "i \<notin> set xs" and "i < NBUF"
    and "b_blockno (bufs s i) < FSSIZE" and "pending (bufs s i)"
  shows "\<exists>s'. ide_append i s = Ok s' \<and> ide_chain (bufs s') (idequeue s') (xs @ [i]) \<and>
    (\<forall>j. (bufs s' j)\<lparr>b_qnext := None\<rparr> = (bufs s j)\<lparr>b_qnext := None\<rparr>) \<and>
    (\<forall>j. j \<notin> set (xs @ [i]) \<longrightarrow> bufs s' j = bufs s j) \<and>
    s' = s\<lparr>bufs := bufs s', idequeue := idequeue s'\<rparr>"
proof (cases xs)
  case Nil
  with assms(1) show ?thesis by (auto simp: ide_ok_def ide_append_def upd_buf_def)
next
  case (Cons h ys)
  let ?s = "upd_buf i (\<lambda>b. b\<lparr>b_qnext := None\<rparr>) s"
  have q: "idequeue s = Some h" "ide_chain (bufs s) (Some h) xs" "distinct xs" "set xs \<subseteq> {..<NBUF}"
    using assms(1) Cons by (auto simp: ide_ok_def)
  have ch: "ide_chain (bufs ?s) (Some h) xs"
    using q(2) assms(2) by (simp add: upd_buf_def)
  have "length xs \<le> Suc NBUF"
    using card_mono [OF _ q(4)] distinct_card [OF q(3)] by simp
  then have last: "ide_last (Suc NBUF) h ?s = Ok (last xs)" by (rule ide_last_chain [OF ch])
  have "ide_chain ((bufs ?s)(last xs := (bufs ?s (last xs))\<lparr>b_qnext := Some i\<rparr>)) (Some h) (xs @ [i])"
    by (rule ide_chain_append) (use ch q assms(2) Cons in \<open>auto simp: upd_buf_def\<close>)
  then show ?thesis
    using last q Cons by (simp add: ide_append_def upd_buf_def del: ide_last.simps)
qed

lemma iderw_pending:
  assumes "holdingsleep (b_lock (bufs s i)) s" and "pending (bufs s i)" and "b_dev (bufs s i) \<noteq> 0 \<longrightarrow> havedisk1 s"
  shows "iderw i s = rbind (ide_append i s) (\<lambda>s.
    rbind (if idequeue s = Some i then idestart (Some i) s else Ok s) (ide_wait (Suc NBUF) i))"
  using assms by (auto simp: iderw_def pending_def Let_def simp del: ide_wait.simps)

lemma iderw_serves:
  assumes "ide_ok s xs" and "i \<notin> set xs" and "i < NBUF" and "holdingsleep (b_lock (bufs s i)) s"
    and "pending (bufs s i)" and "b_blockno (bufs s i) < FSSIZE" and "b_dev (bufs s i) \<noteq> 0 \<longrightarrow> havedisk1 s"
  shows "\<exists>s'. iderw i s = Ok s' \<and> ide_ok s' [] \<and>
    (\<forall>x \<in> set (xs @ [i]). \<not> pending (bufs s' x)) \<and>
    (\<forall>j. j \<notin> set (xs @ [i]) \<longrightarrow> bufs s' j = bufs s j) \<and>
    (let ws = writes_of (bufs s) (case xs of [] \<Rightarrow> [i] | _ # ys \<Rightarrow> ys @ [i])
     in disk_writes s' = disk_writes s @ ws \<and> disk s' = apply_writes ws (disk s))"
proof -
  obtain t where t: "ide_append i s = Ok t" "ide_chain (bufs t) (idequeue t) (xs @ [i])"
      "\<And>j. (bufs t j)\<lparr>b_qnext := None\<rparr> = (bufs s j)\<lparr>b_qnext := None\<rparr>"
      "\<And>j. j \<notin> set (xs @ [i]) \<Longrightarrow> bufs t j = bufs s j"
      "t = s\<lparr>bufs := bufs t, idequeue := idequeue t\<rparr>"
    using ide_append_ok [OF assms(1-3,6,5)] by blast
  have same: "flags (bufs t j) = flags (bufs s j)" "b_dev (bufs t j) = b_dev (bufs s j)"
      "b_blockno (bufs t j) = b_blockno (bufs s j)" "b_data (bufs t j) = b_data (bufs s j)" for j
    using arg_cong [OF t(3), of flags j] arg_cong [OF t(3), of b_dev j]
      arg_cong [OF t(3), of b_blockno j] arg_cong [OF t(3), of b_data j] by simp_all
  then have cmd: "ide_command (bufs t j) = ide_command (bufs s j)" "write_of (bufs t j) = write_of (bufs s j)"
      "b_dirty (bufs t j) = b_dirty (bufs s j)" "pending (bufs t j) = pending (bufs s j)" for j
    by (simp_all add: ide_command_def write_of_def pending_def)
  have disk: "disk t = disk s" "disk_writes t = disk_writes s" "ide_cmd t = ide_cmd s"
    by (subst t(5), simp)+
  have q: "idequeue t = Some i \<longleftrightarrow> xs = []" using t(2) assms(2) by (cases xs) auto
  define u where "u = (if xs = [] then start_req i t else t)"
  have "distinct (xs @ [i])" "set (xs @ [i]) \<subseteq> {..<NBUF}" using assms(1-3) by (auto simp: ide_ok_def)
  moreover have "started t (hd xs)" if "xs \<noteq> []"
    using assms(1) that by (simp add: ide_ok_def started_def cmd disk same)
  ultimately have ok: "ide_ok u (xs @ [i])"
    using t(2) assms(1,5,6) by (cases xs) (auto simp: u_def ide_ok_def cmd same)
  have len: "length xs + 2 \<le> Suc NBUF"
    using card_mono [OF _ \<open>set (xs @ [i]) \<subseteq> {..<NBUF}\<close>] distinct_card [OF \<open>distinct (xs @ [i])\<close>] by simp
  have "iderw i s = ide_wait (Suc NBUF) i u"
    unfolding iderw_pending [OF assms(4,5,7)]
    using assms(6) t(1) q same(3) by (simp add: u_def idestart_ok del: ide_wait.simps)
  with ide_wait_serves [OF ok len] obtain s' where s': "iderw i s = Ok s'" "ide_ok s' []"
    "\<forall>x \<in> set (xs @ [i]). \<not> pending (bufs s' x)"
    "\<forall>j. j \<notin> set (xs @ [i]) \<longrightarrow> bufs s' j = bufs u j"
    "disk_writes s' = disk_writes u @ writes_of (bufs u) (tl (xs @ [i]))"
    "disk s' = apply_writes (writes_of (bufs u) (tl (xs @ [i]))) (disk u)"
    by auto
  have bu: "bufs u = bufs t" by (simp add: u_def)
  have w: "writes_of (bufs t) ys = writes_of (bufs s) ys" for ys
    by (induction ys) (simp_all add: cmd same)
  show ?thesis
    using s' bu t(4) w disk by (cases xs) (auto simp: u_def start_req_disk cmd same apply_writes_def Let_def)
qed

text \<open>With no other request queued, the effect of \<^verbatim>\<open>iderw\<close> in full.\<close>

lemma iderw_alone:
  assumes "i < NBUF" and "idequeue s = None" and "holdingsleep (b_lock (bufs s i)) s" and "pending (bufs s i)"
    and "b_blockno (bufs s i) < FSSIZE" and "b_dev (bufs s i) \<noteq> 0 \<longrightarrow> havedisk1 s"
  shows "iderw i s = Ok (wakeup (ChanBuf i)
     ((if b_dirty (bufs s i) then put_disk (b_dev (bufs s i) AND 1) (b_blockno (bufs s i)) (b_data (bufs s i)) s
       else s)\<lparr>ide_cmd := ide_command (bufs s i), bufs := (bufs s)(i := (served s i)\<lparr>b_qnext := None\<rparr>)\<rparr>))"
proof -
  let ?b = "bufs s i"
  define t where "t = s\<lparr>bufs := (bufs s)(i := ?b\<lparr>b_qnext := None\<rparr>), idequeue := Some i\<rparr>"
  define u where "u = start_req i t"
  let ?r = "wakeup (ChanBuf i) (u\<lparr>idequeue := b_qnext (bufs u i), bufs := (bufs u)(i := served u i)\<rparr>)"
  have "ide_append i s = Ok t" using assms(2) by (simp add: ide_append_def upd_buf_def t_def)
  moreover have "idestart (Some i) t = Ok u"
    unfolding u_def by (rule idestart_ok) (simp add: t_def assms(5))
  ultimately have "iderw i s = ide_wait (Suc NBUF) i u"
    unfolding iderw_pending [OF assms(3,4,6)] by (simp add: t_def del: ide_wait.simps)
  moreover have "ide_ok u [i]"
    using assms by (simp add: ide_ok_def u_def t_def pending_def)
  with ideintr_serves [of u i "[]"] have "ideintr u = Ok ?r" by simp
  moreover have "ide_wait NBUF i ?r = Ok ?r" by (rule ide_wait_done) (simp_all add: pending_def NBUF_def)
  moreover have "pending (bufs u i)" using assms(4) by (simp add: u_def t_def pending_def)
  ultimately have rw: "iderw i s = Ok ?r" by (auto simp: pending_def)
  have cmd: "ide_command (b\<lparr>b_qnext := None\<rparr>) = ide_command b" for b by (simp add: ide_command_def)
  have "served u i = (served s i)\<lparr>b_qnext := None\<rparr>"
    by (simp add: served_def u_def t_def start_req_def put_disk_def Let_def)
  then show ?thesis
    unfolding rw by (cases s rule: bio_st.cases_scheme)
      (use assms(2) in \<open>simp add: u_def t_def start_req_def put_disk_def cmd Let_def\<close>)
qed

section \<open>The driver interface\<close>

text \<open>
  What a disk driver promises the buffer cache: a request for a ready buffer completes; a dirty buffer
  reaches the disk at its address and nothing else changes there; any other buffer receives the
  contents of its address; the other buffers stay as they are and stay ready.
\<close>

locale disk_driver =
  fixes rw :: "nat \<Rightarrow> 's \<Rightarrow> 's result"
    and content :: "'s \<Rightarrow> 'addr \<Rightarrow> block"
    and buffer :: "'s \<Rightarrow> nat \<Rightarrow> buf"
    and addr :: "buf \<Rightarrow> 'addr"
    and ready :: "'s \<Rightarrow> nat \<Rightarrow> bool"
  assumes rw_done: "ready s i \<Longrightarrow> \<exists>s'. rw i s = Ok s' \<and> \<not> pending (buffer s' i) \<and>
        addr (buffer s' i) = addr (buffer s i) \<and> (\<forall>j. j \<noteq> i \<longrightarrow> buffer s' j = buffer s j) \<and>
        (\<forall>j. j \<noteq> i \<longrightarrow> ready s j \<longrightarrow> ready s' j)"
    and rw_write: "ready s i \<Longrightarrow> b_dirty (buffer s i) \<Longrightarrow> rw i s = Ok s' \<Longrightarrow> k < BSIZE \<Longrightarrow>
        content s' a k = (if a = addr (buffer s i) then b_data (buffer s i) k else content s a k)"
    and rw_read: "ready s i \<Longrightarrow> \<not> b_dirty (buffer s i) \<Longrightarrow> rw i s = Ok s' \<Longrightarrow> k < BSIZE \<Longrightarrow>
        b_data (buffer s' i) k = content s (addr (buffer s i)) k \<and> content s' a k = content s a k"
begin

primrec run_requests :: "nat list \<Rightarrow> 's \<Rightarrow> 's result" where
  "run_requests [] s = Ok s"
| "run_requests (i # is) s = rbind (rw i s) (run_requests is)"

text \<open>The contents of an address after the dirty ones among the buffers \<open>is\<close> have been written.\<close>

primrec written :: "(nat \<Rightarrow> buf) \<Rightarrow> nat list \<Rightarrow> 'addr \<Rightarrow> block \<Rightarrow> block" where
  "written bs [] a v = v"
| "written bs (i # is) a v = written bs is a (if b_dirty (bs i) \<and> addr (bs i) = a then b_data (bs i) else v)"

lemma written_cong:
  assumes "\<And>i. i \<in> set is \<Longrightarrow> bs i = bs' i" and "v k = v' k"
  shows "written bs is a v k = written bs' is a v' k"
proof -
  have val: "v k = v' k \<Longrightarrow> written bs' is a v k = written bs' is a v' k" for v v'
  proof (induction "is" arbitrary: v v')
    case (Cons i "is")
    show ?case unfolding written.simps by (rule Cons.IH) (simp add: Cons.prems)
  qed simp
  have "written bs is a v = written bs' is a v"
    using assms(1) by (induction "is" arbitrary: v) simp_all
  then show ?thesis using val [of v v', OF assms(2)] by simp
qed

lemma run_requests_content:
  assumes "distinct is" and "\<forall>i \<in> set is. ready s i"
  shows "\<exists>s'. run_requests is s = Ok s' \<and> (\<forall>i \<in> set is. \<not> pending (buffer s' i)) \<and>
     (\<forall>j. j \<notin> set is \<longrightarrow> buffer s' j = buffer s j \<and> (ready s j \<longrightarrow> ready s' j)) \<and>
     (\<forall>a. \<forall>k < BSIZE. content s' a k = written (buffer s) is a (content s a) k)"
  using assms
proof (induction "is" arbitrary: s)
  case Nil
  then show ?case by simp
next
  case (Cons i "is")
  then have i: "ready s i" "i \<notin> set is" by simp_all
  from rw_done [OF i(1)] obtain t where t: "rw i s = Ok t" "\<not> pending (buffer t i)"
      "\<And>j. j \<noteq> i \<Longrightarrow> buffer t j = buffer s j" "\<And>j. j \<noteq> i \<Longrightarrow> ready s j \<Longrightarrow> ready t j" by blast
  have "ready t j" if "j \<in> set is" for j
    using t(4) [of j] i(2) Cons.prems(2) that by auto
  then have "distinct is" "\<forall>j \<in> set is. ready t j" using Cons.prems(1) by simp_all
  from Cons.IH [OF this] obtain s' where s': "run_requests is t = Ok s'"
      "\<forall>i \<in> set is. \<not> pending (buffer s' i)"
      "\<And>j. j \<notin> set is \<Longrightarrow> buffer s' j = buffer t j \<and> (ready t j \<longrightarrow> ready s' j)"
      "\<And>a k. k < BSIZE \<Longrightarrow> content s' a k = written (buffer t) is a (content t a) k"
    by blast
  have "content s' a k = written (buffer s) (i # is) a (content s a) k" if "k < BSIZE" for a k
  proof -
    have "content t a k = (if b_dirty (buffer s i) \<and> addr (buffer s i) = a then b_data (buffer s i) else content s a) k"
      using rw_write [OF i(1) _ t(1) that] rw_read [OF i(1) _ t(1) that] by (cases "b_dirty (buffer s i)") auto
    moreover have "buffer t j = buffer s j" if "j \<in> set is" for j
      using t(3) [of j] i(2) that by auto
    ultimately have "written (buffer t) is a (content t a) k = written (buffer s) (i # is) a (content s a) k"
      unfolding written.simps by (intro written_cong) simp_all
    with s'(4) [OF that] show ?thesis by simp
  qed
  then show ?case
    using s' t i by (auto simp del: written.simps)
qed

text \<open>Whoever reads an address gets what was last written there.\<close>

lemma write_read_back:
  assumes "ready s i" and "ready s j" and "i \<noteq> j" and "b_dirty (buffer s i)" and "\<not> b_dirty (buffer s j)"
    and "addr (buffer s j) = addr (buffer s i)"
  shows "\<exists>s'. run_requests [i, j] s = Ok s' \<and> (\<forall>k < BSIZE. b_data (buffer s' j) k = b_data (buffer s i) k)"
proof -
  from rw_done [OF assms(1)] assms(2,3) obtain t where t: "rw i s = Ok t" "buffer t j = buffer s j" "ready t j"
    by metis
  from rw_done [OF t(3)] obtain u where u: "rw j t = Ok u" by blast
  have "b_data (buffer u j) k = b_data (buffer s i) k" if "k < BSIZE" for k
    using rw_read [OF t(3) _ u that] rw_write [OF assms(1,4) t(1) that] t(2) assms(5,6) by simp
  with t(1) u show ?thesis by simp
qed

end

definition ide_ready :: "'a bio_st_scheme \<Rightarrow> nat \<Rightarrow> bool" where
  "ide_ready s i \<longleftrightarrow> i < NBUF \<and> idequeue s = None \<and> holdingsleep (b_lock (bufs s i)) s \<and>
     pending (bufs s i) \<and> b_blockno (bufs s i) < FSSIZE \<and> (b_dev (bufs s i) \<noteq> 0 \<longrightarrow> havedisk1 s) \<and>
     \<not> ide_fails s (b_dev (bufs s i) AND 1) (b_blockno (bufs s i))"

lemma iderw_ready: "ide_ready s i \<Longrightarrow> iderw i s = Ok (wakeup (ChanBuf i)
     ((if b_dirty (bufs s i) then put_disk (b_dev (bufs s i) AND 1) (b_blockno (bufs s i)) (b_data (bufs s i)) s
       else s)\<lparr>ide_cmd := ide_command (bufs s i), bufs := (bufs s)(i := (served s i)\<lparr>b_qnext := None\<rparr>)\<rparr>))"
  unfolding ide_ready_def by (rule iderw_alone) auto

lemma mypid_cong:
  "ptable s = ptable t \<Longrightarrow> cpu_proc s = cpu_proc t \<Longrightarrow> this_cpu s = this_cpu t \<Longrightarrow> mypid s = mypid t"
  by (auto simp: mypid_def myproc_def split: option.split)

lemma mypid_bio_upd [simp]:
  "mypid (s\<lparr>bufs := x1\<rparr>) = mypid s" "mypid (s\<lparr>disk := x2\<rparr>) = mypid s" "mypid (s\<lparr>disk_writes := x3\<rparr>) = mypid s"
  "mypid (s\<lparr>idequeue := x4\<rparr>) = mypid s" "mypid (s\<lparr>ide_cmd := x5\<rparr>) = mypid s"
  by (rule mypid_cong; simp)+

interpretation ide: disk_driver iderw "\<lambda>s a. disk s (fst a) (snd a)" bufs
  "\<lambda>b. (b_dev b AND 1, b_blockno b)" ide_ready
proof (unfold_locales, goal_cases)
  case (1 s i)
  then show ?case
    by (auto simp: iderw_ready pending_def ide_ready_def holdingsleep_def put_disk_def)
next
  case (2 s i s' k a)
  then show ?case by (cases a) (auto simp: iderw_ready put_disk_def)
next
  case (3 s i s' k a)
  then show ?case by (auto simp: iderw_ready served_def ide_ready_def Let_def)
qed

section \<open>Properties\<close>

text \<open>
  (C11) The IDE driver, whatever requests of other processes are queued when \<^verbatim>\<open>iderw\<close> is called: it
  returns, every queued buffer and the caller's are then valid and clean, the queue is empty, no
  other buffer has changed, and the pending writes have reached the disk in queue order, the
  caller's last (the request at the head of the queue had been sent before).
\<close>

theorem iderw_completes:
  assumes "ide_ok s xs" and "i \<notin> set xs" and "i < NBUF" and "holdingsleep (b_lock (bufs s i)) s"
    and "pending (bufs s i)" and "b_blockno (bufs s i) < FSSIZE" and "b_dev (bufs s i) \<noteq> 0 \<longrightarrow> havedisk1 s"
  shows "\<exists>s'. iderw i s = Ok s' \<and> idequeue s' = None \<and>
    (\<forall>x \<in> set (xs @ [i]). b_valid (bufs s' x) \<and> \<not> b_dirty (bufs s' x)) \<and>
    (\<forall>j. j \<notin> set (xs @ [i]) \<longrightarrow> bufs s' j = bufs s j) \<and>
    (let ws = writes_of (bufs s) (case xs of [] \<Rightarrow> [i] | _ # ys \<Rightarrow> ys @ [i])
     in disk_writes s' = disk_writes s @ ws \<and> disk s' = apply_writes ws (disk s))"
proof -
  obtain s' where s': "iderw i s = Ok s'" "ide_ok s' []" "\<forall>x \<in> set (xs @ [i]). \<not> pending (bufs s' x)"
    "\<forall>j. j \<notin> set (xs @ [i]) \<longrightarrow> bufs s' j = bufs s j"
    "let ws = writes_of (bufs s) (case xs of [] \<Rightarrow> [i] | _ # ys \<Rightarrow> ys @ [i])
     in disk_writes s' = disk_writes s @ ws \<and> disk s' = apply_writes ws (disk s)"
    using iderw_serves [OF assms] by blast
  have "idequeue s' = None" using s'(2) by (simp add: ide_ok_def)
  with s' show ?thesis by (auto simp: pending_def)
qed

definition zero_buf :: buf where
  "zero_buf = \<lparr>flags = 0, b_dev = 0, b_blockno = 0, b_lock = \<lparr>sl_locked = 0, sl_name = ''buffer'', sl_pid = 0\<rparr>,
     refcnt = 0, b_prev = 0, b_next = 0, b_qnext = None, b_data = \<lambda>_. 0\<rparr>"

definition zero_regs :: ide_regs where
  "zero_regs = \<lparr>r_count = 0, r_lba0 = 0, r_lba1 = 0, r_lba2 = 0, r_drive = 0, r_cmd = 0\<rparr>"

definition bio0 :: bio_st where
  "bio0 = \<lparr>mem = \<lambda>_. 0, freelist = 0, use_lock = True, kend = 0x80115000, kdata = 0x80108000,
     ptable = (\<lambda>_. zero_proc)(0 := zero_proc\<lparr>p_state := RUNNING, p_pid := 1\<rparr>),
     nextpid = 2, initproc = Some 0, cpu_proc = (\<lambda>_. None)(0 := Some 0), this_cpu = 0,
     forkret = 0, trapret = 0, bufs = \<lambda>_. zero_buf, disk = \<lambda>_ _ _. 0, disk_writes = [],
     idequeue = None, ide_cmd = zero_regs, havedisk1 = True, ide_fails = \<lambda>_ _. False\<rparr>"

text \<open>The request of buffer 4 (a write of block 7) is on its way; buffer 5 wants block 8 written.\<close>

definition held_buf :: "uint \<Rightarrow> uint \<Rightarrow> block \<Rightarrow> buf" where
  "held_buf f n v = zero_buf\<lparr>flags := f, b_dev := 1, b_blockno := n,
     b_lock := \<lparr>sl_locked = 1, sl_name = ''buffer'', sl_pid = 1\<rparr>, refcnt := 1, b_data := v\<rparr>"

definition busy_ide :: bio_st where
  "busy_ide = the_ok (idestart (Some 4) (bio0\<lparr>idequeue := Some 4,
     bufs := (bufs bio0)(4 := held_buf 6 7 (\<lambda>_. 42), 5 := held_buf 6 8 (\<lambda>_. 43))\<rparr>))"

theorem iderw_completes_witness:
  "\<exists>s'. iderw 5 busy_ide = Ok s' \<and> b_valid (bufs s' 4) \<and> b_valid (bufs s' 5) \<and>
     disk s' 1 7 = (\<lambda>_. 42) \<and> disk s' 1 8 = (\<lambda>_. 43)"
proof -
  let ?t = "bio0\<lparr>idequeue := Some 4,
     bufs := (bufs bio0)(4 := held_buf 6 7 (\<lambda>_. 42), 5 := held_buf 6 8 (\<lambda>_. 43))\<rparr>"
  have b: "busy_ide = start_req 4 ?t"
    unfolding busy_ide_def by (subst idestart_ok) (simp_all add: held_buf_def FSSIZE_def)
  have dirty: "bit (6 :: uint) 2" "bit (6 :: uint) (Suc 0)"
    by (simp_all add: bit_numeral_rec)
  have "ide_ok busy_ide [4]"
    by (simp add: b ide_ok_def held_buf_def zero_buf_def FSSIZE_def pending_def NBUF_def dirty)
  moreover have "mypid busy_ide = 1"
    by (simp add: b start_req_def put_disk_def Let_def bio0_def mypid_def myproc_def)
  moreover have "havedisk1 busy_ide" "disk_writes busy_ide = [(1, 7, \<lambda>_. 42)]"
    "disk busy_ide = (\<lambda>_ _ _. 0)(1 := (\<lambda>_ _. 0)(7 := \<lambda>_. 42))"
    by (simp_all add: b start_req_def put_disk_def Let_def bio0_def held_buf_def dirty)
  ultimately show ?thesis
    using iderw_completes [of busy_ide "[4]" 5]
    by (auto simp: b held_buf_def zero_buf_def holdingsleep_def pending_def NBUF_def FSSIZE_def dirty
        apply_writes_def apply_write_def write_of_def)
qed

text \<open>
  (C12) When the device reports an error for a read, \<^verbatim>\<open>ideintr\<close> skips the transfer but still marks the
  buffer valid: \<^verbatim>\<open>iderw\<close> returns normally and the caller sees the buffer's old contents as if they
  were the block.
\<close>

theorem ide_read_error_unnoticed:
  assumes "i < NBUF" and "idequeue s = None" and "holdingsleep (b_lock (bufs s i)) s"
    and "flags (bufs s i) = 0" and "b_blockno (bufs s i) < FSSIZE" and "b_dev (bufs s i) \<noteq> 0 \<longrightarrow> havedisk1 s"
    and "ide_fails s (b_dev (bufs s i) AND 1) (b_blockno (bufs s i))"
  shows "\<exists>s'. iderw i s = Ok s' \<and> b_valid (bufs s' i) \<and> b_data (bufs s' i) = b_data (bufs s i)"
  using iderw_alone [OF assms(1-3) _ assms(5,6)] assms(4,7)
  by (simp add: pending_def served_def bit_B_VALID Let_def)

theorem ide_read_error_unnoticed_witness:
  "\<exists>s'. iderw 4 (bio0\<lparr>bufs := (bufs bio0)(4 := held_buf 0 7 (\<lambda>_. 9)), ide_fails := \<lambda>_ _. True\<rparr>) = Ok s' \<and>
     b_valid (bufs s' 4) \<and> b_data (bufs s' 4) = (\<lambda>_. 9)"
proof -
  let ?s = "bio0\<lparr>bufs := (bufs bio0)(4 := held_buf 0 7 (\<lambda>_. 9)), ide_fails := \<lambda>_ _. True\<rparr>"
  have "\<exists>s'. iderw 4 ?s = Ok s' \<and> b_valid (bufs s' 4) \<and> b_data (bufs s' 4) = b_data (bufs ?s 4)"
    by (rule ide_read_error_unnoticed) (simp_all add: NBUF_def bio0_def held_buf_def zero_buf_def
        holdingsleep_def mypid_def myproc_def FSSIZE_def)
  then show ?thesis by (simp add: held_buf_def)
qed

end
