(* ===== verification/Memide.thy ===== *)
theory Memide
  imports Ide
begin

text \<open>
  \<^verbatim>\<open>memide.c\<close>: the disk driver for a kernel without a scratch disk, which keeps disk 1 in memory.  It
  offers the same operations as \<^verbatim>\<open>ide.c\<close> (only one of the two files is linked) and satisfies the
  same driver interface.
\<close>

record memide_st = bio_st +
  disksize :: uint
  memdisk :: block

text \<open>\<open>img\<close> and \<open>sz\<close> are the linked-in file system image.\<close>

definition mem_ideinit :: "block \<Rightarrow> uint \<Rightarrow> 'a memide_st_scheme \<Rightarrow> 'a memide_st_scheme" where
  "mem_ideinit img sz s = s\<lparr>memdisk := img, disksize := sz div 512\<rparr>"

definition mem_ideintr :: "'a memide_st_scheme \<Rightarrow> 'a memide_st_scheme" where
  "mem_ideintr s = s"

definition mem_iderw :: "nat \<Rightarrow> 'a memide_st_scheme \<Rightarrow> 'a memide_st_scheme result" where
  "mem_iderw i s =
     (let b = bufs s i
      in if \<not> holdingsleep (b_lock b) s then Panic ''iderw: buf not locked''
         else if flags b AND (B_VALID OR B_DIRTY) = B_VALID then Panic ''iderw: nothing to do''
         else if b_dev b \<noteq> 1 then Panic ''iderw: request not for disk 1''
         else if b_blockno b \<ge> disksize s then Panic ''iderw: block out of range''
         else let p = unat (b_blockno b) * BSIZE;
                  s = (if flags b AND B_DIRTY \<noteq> 0
                       then (upd_buf i (\<lambda>b. b\<lparr>flags := flags b AND NOT B_DIRTY\<rparr>) s)
                              \<lparr>memdisk := \<lambda>k. if p \<le> k \<and> k < p + BSIZE then b_data b (k - p) else memdisk s k\<rparr>
                       else upd_buf i (\<lambda>b. b\<lparr>b_data := \<lambda>k. if k < BSIZE then memdisk s (p + k) else b_data b k\<rparr>) s)
              in Ok (upd_buf i (\<lambda>b. b\<lparr>flags := flags b OR B_VALID\<rparr>) s))"

definition mem_ready :: "'a memide_st_scheme \<Rightarrow> nat \<Rightarrow> bool" where
  "mem_ready s i \<longleftrightarrow> holdingsleep (b_lock (bufs s i)) s \<and> pending (bufs s i) \<and> b_dev (bufs s i) = 1 \<and>
     b_blockno (bufs s i) < disksize s"

definition mem_block :: "'a memide_st_scheme \<Rightarrow> uint \<Rightarrow> block" where
  "mem_block s n = (\<lambda>k. memdisk s (unat n * BSIZE + k))"

lemma block_ranges_disjoint:
  fixes m n k :: nat
  assumes "k < BSIZE"
  shows "m * BSIZE \<le> n * BSIZE + k \<and> n * BSIZE + k < m * BSIZE + BSIZE \<longleftrightarrow> m = n"
proof
  assume "m * BSIZE \<le> n * BSIZE + k \<and> n * BSIZE + k < m * BSIZE + BSIZE"
  then have "(n * BSIZE + k) div BSIZE = m" by (intro div_nat_eqI) (auto simp: algebra_simps)
  with assms show "m = n" by simp
qed (use assms in auto)

lemma mypid_memide_upd [simp]:
  "mypid (s\<lparr>memdisk := x1\<rparr>) = mypid s" "mypid (s\<lparr>disksize := x2\<rparr>) = mypid s"
  by (rule mypid_cong; simp)+

lemma mem_iderw_ready:
  assumes "mem_ready s i"
  defines "p \<equiv> unat (b_blockno (bufs s i)) * BSIZE"
  shows "mem_iderw i s = Ok (upd_buf i (\<lambda>b. b\<lparr>flags := flags b OR B_VALID\<rparr>)
    (if b_dirty (bufs s i)
     then (upd_buf i (\<lambda>b. b\<lparr>flags := flags b AND NOT B_DIRTY\<rparr>) s)\<lparr>memdisk :=
        \<lambda>k. if p \<le> k \<and> k < p + BSIZE then b_data (bufs s i) (k - p) else memdisk s k\<rparr>
     else upd_buf i (\<lambda>b. b\<lparr>b_data := \<lambda>k. if k < BSIZE then memdisk s (p + k) else b_data b k\<rparr>) s))"
proof -
  have "\<not> disksize s \<le> b_blockno (bufs s i)" using assms(1) by (simp add: mem_ready_def not_le)
  with assms(1) show ?thesis
    unfolding p_def by (auto simp: mem_iderw_def mem_ready_def pending_def Let_def)
qed

interpretation memide: disk_driver mem_iderw mem_block bufs b_blockno mem_ready
proof (unfold_locales, goal_cases)
  case (1 s i)
  then show ?case
    by (auto simp: mem_iderw_ready mem_ready_def pending_def upd_buf_def holdingsleep_def)
next
  case (2 s i s' k a)
  have "b_blockno (bufs s i) = a \<longleftrightarrow> unat (b_blockno (bufs s i)) = unat a" by (simp add: word_unat_eq_iff)
  with 2 show ?case
    by (auto simp: mem_iderw_ready upd_buf_def mem_block_def block_ranges_disjoint)
next
  case (3 s i s' k a)
  then show ?case
    by (auto simp: mem_iderw_ready upd_buf_def mem_block_def)
qed

section \<open>Properties\<close>


definition memide0 :: memide_st where
  "memide0 = bio_st.extend (bio0\<lparr>bufs := (bufs bio0)(4 := held_buf 6 7 (\<lambda>_. 42), 5 := held_buf 0 7 (\<lambda>_. 0))\<rparr>)
     \<lparr>disksize = 1000, memdisk = \<lambda>_. 0\<rparr>"


end
