(* ===== verification/Bio.thy ===== *)
theory Bio
  imports Ide
begin

text \<open>
  \<^verbatim>\<open>bio.c\<close>: the buffer cache.

  \<^item> The \<^verbatim>\<open>prev\<close>/\<^verbatim>\<open>next\<close> ring of buffers is kept as in the source: links stored in the buffers, with
    index \<open>NBUF\<close> for \<^verbatim>\<open>bcache.head\<close>.  The two scans of \<^verbatim>\<open>bget\<close> follow the links; their fuel
    \<open>Suc NBUF\<close> is enough because the invariant \<open>ring\<close> makes the links a cycle over all buffers.
  \<^item> \<open>view\<close> is what the cache and the disk together say a block contains.  \<open>bc_inv\<close> is the cache's
    invariant: the ring, at most one buffer per block, clean unlocked buffers agree with the disk.
    The specifications of \<open>bread\<close>, \<open>bwrite\<close> and \<open>brelse\<close> below are in terms of \<open>view\<close> and \<open>disk\<close>;
    the log and the file system build on them.
  \<^item> At boot every buffer says block 0 of device 0, so uniqueness excludes that block, which nothing
    reads.
\<close>

section \<open>Operations\<close>

definition upd_lock :: "nat \<Rightarrow> (sleeplock \<Rightarrow> sleeplock) \<Rightarrow> 'a bio_st_scheme \<Rightarrow> 'a bio_st_scheme" where
  "upd_lock i f s = upd_buf i (\<lambda>b. b\<lparr>b_lock := f (b_lock b)\<rparr>) s"

definition binit_buf :: "nat \<Rightarrow> 'a bio_st_scheme \<Rightarrow> 'a bio_st_scheme" where
  "binit_buf b s =
     (let s = upd_buf b (\<lambda>x. x\<lparr>b_next := b_next (bufs s NBUF), b_prev := NBUF\<rparr>) s;
          s = upd_lock b (initsleeplock ''buffer'') s;
          s = upd_buf (b_next (bufs s NBUF)) (\<lambda>x. x\<lparr>b_prev := b\<rparr>) s
      in upd_buf NBUF (\<lambda>x. x\<lparr>b_next := b\<rparr>) s)"

definition binit :: "'a bio_st_scheme \<Rightarrow> 'a bio_st_scheme" where
  "binit s = fold binit_buf [0..<NBUF] (upd_buf NBUF (\<lambda>x. x\<lparr>b_prev := NBUF, b_next := NBUF\<rparr>) s)"

fun scan_next :: "nat \<Rightarrow> (buf \<Rightarrow> bool) \<Rightarrow> nat \<Rightarrow> 'a bio_st_scheme \<Rightarrow> nat option result" where
  "scan_next 0 P b s = Diverges"
| "scan_next (Suc n) P b s =
     (if b = NBUF then Ok None
      else if P (bufs s b) then Ok (Some b)
      else scan_next n P (b_next (bufs s b)) s)"

fun scan_prev :: "nat \<Rightarrow> (buf \<Rightarrow> bool) \<Rightarrow> nat \<Rightarrow> 'a bio_st_scheme \<Rightarrow> nat option result" where
  "scan_prev 0 P b s = Diverges"
| "scan_prev (Suc n) P b s =
     (if b = NBUF then Ok None
      else if P (bufs s b) then Ok (Some b)
      else scan_prev n P (b_prev (bufs s b)) s)"

definition lock_buf :: "nat \<Rightarrow> 'a bio_st_scheme \<Rightarrow> (nat \<times> 'a bio_st_scheme) result" where
  "lock_buf b s =
     rbind (acquiresleep (ChanBufLock b) (\<lambda>s. b_lock (bufs s b)) (upd_lock b) s) (\<lambda>s. Ok (b, s))"

definition bget :: "uint \<Rightarrow> uint \<Rightarrow> 'a bio_st_scheme \<Rightarrow> (nat \<times> 'a bio_st_scheme) result" where
  "bget dev blockno s =
     rbind (scan_next (Suc NBUF) (\<lambda>b. b_dev b = dev \<and> b_blockno b = blockno) (b_next (bufs s NBUF)) s)
       (\<lambda>r. case r of
          Some b \<Rightarrow> lock_buf b (upd_buf b (\<lambda>x. x\<lparr>refcnt := refcnt x + 1\<rparr>) s)
        | None \<Rightarrow>
            rbind (scan_prev (Suc NBUF) (\<lambda>b. refcnt b = 0 \<and> flags b AND B_DIRTY = 0) (b_prev (bufs s NBUF)) s)
              (\<lambda>r. case r of
                 Some b \<Rightarrow> lock_buf b (upd_buf b (\<lambda>x. x\<lparr>b_dev := dev, b_blockno := blockno, flags := 0,
                                                      refcnt := 1\<rparr>) s)
               | None \<Rightarrow> Panic ''bget: no buffers''))"

definition bread :: "uint \<Rightarrow> uint \<Rightarrow> 'a bio_st_scheme \<Rightarrow> (nat \<times> 'a bio_st_scheme) result" where
  "bread dev blockno s =
     rbind (bget dev blockno s) (\<lambda>(b, s).
       if flags (bufs s b) AND B_VALID = 0 then rbind (iderw b s) (\<lambda>s. Ok (b, s)) else Ok (b, s))"

definition bwrite :: "nat \<Rightarrow> 'a bio_st_scheme \<Rightarrow> 'a bio_st_scheme result" where
  "bwrite b s =
     (if \<not> holdingsleep (b_lock (bufs s b)) s then Panic ''bwrite''
      else iderw b (upd_buf b (\<lambda>x. x\<lparr>flags := flags x OR B_DIRTY\<rparr>) s))"

definition brelse :: "nat \<Rightarrow> 'a bio_st_scheme \<Rightarrow> 'a bio_st_scheme result" where
  "brelse b s =
     (if \<not> holdingsleep (b_lock (bufs s b)) s then Panic ''brelse''
      else let s = releasesleep (ChanBufLock b) (upd_lock b) s;
               s = upd_buf b (\<lambda>x. x\<lparr>refcnt := refcnt x - 1\<rparr>) s
           in if refcnt (bufs s b) = 0
              then let s = upd_buf (b_next (bufs s b)) (\<lambda>x. x\<lparr>b_prev := b_prev (bufs s b)\<rparr>) s;
                       s = upd_buf (b_prev (bufs s b)) (\<lambda>x. x\<lparr>b_next := b_next (bufs s b)\<rparr>) s;
                       s = upd_buf b (\<lambda>x. x\<lparr>b_next := b_next (bufs s NBUF)\<rparr>) s;
                       s = upd_buf b (\<lambda>x. x\<lparr>b_prev := NBUF\<rparr>) s;
                       s = upd_buf (b_next (bufs s NBUF)) (\<lambda>x. x\<lparr>b_prev := b\<rparr>) s
                   in Ok (upd_buf NBUF (\<lambda>x. x\<lparr>b_next := b\<rparr>) s)
              else Ok s)"

section \<open>The ring of buffers\<close>

fun linked :: "(nat \<Rightarrow> buf) \<Rightarrow> nat list \<Rightarrow> bool" where
  "linked bs (x # y # zs) \<longleftrightarrow> b_next (bs x) = y \<and> b_prev (bs y) = x \<and> linked bs (y # zs)"
| "linked bs _ \<longleftrightarrow> True"

definition ring :: "(nat \<Rightarrow> buf) \<Rightarrow> nat list \<Rightarrow> bool" where
  "ring bs xs \<longleftrightarrow> linked bs (NBUF # xs @ [NBUF]) \<and> distinct xs \<and> set xs = {..<NBUF}"

lemma linked_append: "linked bs (xs @ m # ys) \<longleftrightarrow> linked bs (xs @ [m]) \<and> linked bs (m # ys)"
  by (induction bs xs rule: linked.induct) auto

lemma linked_snoc:
  "xs \<noteq> [] \<Longrightarrow> linked bs (xs @ [x]) \<longleftrightarrow> linked bs xs \<and> b_next (bs (last xs)) = x \<and> b_prev (bs x) = last xs"
  by (induction bs xs rule: linked.induct) auto

lemma linked_cong:
  "(\<And>x. x \<in> set (butlast xs) \<Longrightarrow> b_next (bs x) = b_next (bs' x)) \<Longrightarrow>
   (\<And>x. x \<in> set (tl xs) \<Longrightarrow> b_prev (bs x) = b_prev (bs' x)) \<Longrightarrow> linked bs xs = linked bs' xs"
  by (induction bs xs rule: linked.induct) (auto split: if_splits)

lemma scan_next_linked:
  "linked (bufs s) (xs @ [NBUF]) \<Longrightarrow> NBUF \<notin> set xs \<Longrightarrow> length xs < n \<Longrightarrow>
   scan_next n P (hd (xs @ [NBUF])) s = Ok (find (\<lambda>i. P (bufs s i)) xs)"
proof (induction xs arbitrary: n)
  case Nil
  then show ?case by (cases n) auto
next
  case (Cons x xs)
  then obtain m where m: "n = Suc m" by (cases n) auto
  have "b_next (bufs s x) = hd (xs @ [NBUF])" "linked (bufs s) (xs @ [NBUF])"
    using Cons.prems(1) by (cases xs; simp)+
  with Cons m show ?case by simp
qed

lemma scan_prev_linked:
  "linked (bufs s) (NBUF # xs) \<Longrightarrow> NBUF \<notin> set xs \<Longrightarrow> length xs < n \<Longrightarrow>
   scan_prev n P (last (NBUF # xs)) s = Ok (find (\<lambda>i. P (bufs s i)) (rev xs))"
proof (induction xs arbitrary: n rule: rev_induct)
  case Nil
  then show ?case by (cases n) auto
next
  case (snoc x xs)
  then obtain m where m: "n = Suc m" by (cases n) auto
  have "b_prev (bufs s x) = last (NBUF # xs)" "linked (bufs s) (NBUF # xs)"
    using snoc.prems(1) linked_snoc [of "NBUF # xs" "bufs s" x] by auto
  with snoc m show ?case by simp
qed

text \<open>Taking a buffer out of the ring and putting it at the front.\<close>

definition unlink :: "nat \<Rightarrow> (nat \<Rightarrow> buf) \<Rightarrow> (nat \<Rightarrow> buf)" where
  "unlink b bs =
     (let bs = bs(b_next (bs b) := (bs (b_next (bs b)))\<lparr>b_prev := b_prev (bs b)\<rparr>)
      in bs(b_prev (bs b) := (bs (b_prev (bs b)))\<lparr>b_next := b_next (bs b)\<rparr>))"

definition push_front :: "nat \<Rightarrow> (nat \<Rightarrow> buf) \<Rightarrow> (nat \<Rightarrow> buf)" where
  "push_front b bs =
     (let h = b_next (bs NBUF);
          bs = bs(b := (bs b)\<lparr>b_next := h, b_prev := NBUF\<rparr>);
          bs = bs(h := (bs h)\<lparr>b_prev := b\<rparr>)
      in bs(NBUF := (bs NBUF)\<lparr>b_next := b\<rparr>))"

lemma unlink_linked:
  assumes "linked bs (NBUF # xs @ b # ys @ [NBUF])" and "distinct (xs @ b # ys)"
    and "NBUF \<notin> set (xs @ b # ys)"
  shows "linked (unlink b bs) (NBUF # xs @ ys @ [NBUF])"
proof -
  define p where "p = last (NBUF # xs)"
  define q where "q = hd (ys @ [NBUF])"
  obtain ps where ps: "NBUF # xs = ps @ [p]" unfolding p_def by (metis append_butlast_last_id list.discI)
  obtain qs where qs: "ys @ [NBUF] = q # qs" unfolding q_def by (cases "ys @ [NBUF]") auto
  have "linked bs (ps @ p # b # q # qs)"
    using assms(1) ps qs by (metis append.assoc append_Cons append_Nil)
  then have l: "linked bs (ps @ [p])" "b_next (bs p) = b" "b_prev (bs b) = p" "b_next (bs b) = q"
      "b_prev (bs q) = b" "linked bs (q # qs)"
    using linked_append [of bs ps p "b # q # qs"] by simp_all
  have dist: "distinct (NBUF # xs)" "distinct (ys @ [NBUF])" "set (NBUF # xs) \<inter> set ys = {}"
      "set xs \<inter> set (ys @ [NBUF]) = {}" "b \<notin> set (NBUF # xs)" "b \<notin> set (ys @ [NBUF])"
    using assms(2,3) by auto
  then have sets: "p \<notin> set ps" "q \<notin> set qs" "p \<notin> set ys" "q \<notin> set xs" "p \<noteq> b" "q \<noteq> b"
    unfolding ps qs by auto
  have nx: "b_next (unlink b bs x) = (if x = p then q else b_next (bs x))"
    and pv: "b_prev (unlink b bs x) = (if x = q then p else b_prev (bs x))" for x
    using l(3,4) sets(5,6) by (auto simp: unlink_def Let_def)
  have "linked (unlink b bs) (ps @ [p]) = linked bs (ps @ [p])"
  proof (rule linked_cong)
    have "tl (ps @ [p]) = xs" unfolding ps [symmetric] by simp
    then show "x \<in> set (tl (ps @ [p])) \<Longrightarrow> b_prev (unlink b bs x) = b_prev (bs x)" for x
      using sets(4) by (auto simp: pv)
  qed (use sets(1) in \<open>auto simp: nx\<close>)
  moreover have "linked (unlink b bs) (q # qs) = linked bs (q # qs)"
  proof (rule linked_cong)
    have "butlast (q # qs) = ys" unfolding qs [symmetric] by simp
    then show "x \<in> set (butlast (q # qs)) \<Longrightarrow> b_next (unlink b bs x) = b_next (bs x)" for x
      using sets(3) by (auto simp: nx)
  qed (use sets(2) in \<open>auto simp: pv\<close>)
  ultimately have "linked (unlink b bs) (ps @ p # q # qs)"
    using l linked_append [of "unlink b bs" ps p "q # qs"] by (simp add: nx pv)
  moreover have "NBUF # xs @ ys @ [NBUF] = ps @ p # q # qs"
    using ps qs by (metis append.assoc append_Cons append_Nil)
  ultimately show ?thesis by simp
qed

lemma push_front_linked:
  assumes "linked bs (NBUF # xs @ [NBUF])" and "distinct xs" and "NBUF \<notin> set xs" and "b \<notin> set xs" and "b \<noteq> NBUF"
  shows "linked (push_front b bs) (NBUF # b # xs @ [NBUF])"
proof -
  obtain q qs where qs: "xs @ [NBUF] = q # qs" by (cases "xs @ [NBUF]") auto
  have l: "b_next (bs NBUF) = q" "b_prev (bs q) = NBUF" "linked bs (q # qs)"
    using assms(1) qs by simp_all
  have "distinct (xs @ [NBUF])" "b \<notin> set (xs @ [NBUF])" using assms by auto
  then have sets: "q \<notin> set qs" "q \<noteq> b" "b \<notin> set qs" unfolding qs by auto
  have nx: "b_next (push_front b bs x) = (if x = NBUF then b else if x = b then q else b_next (bs x))"
    and pv: "b_prev (push_front b bs x) = (if x = q then b else if x = b then NBUF else b_prev (bs x))" for x
    using l(1) sets(2) assms(5) by (auto simp: push_front_def Let_def)
  have "linked (push_front b bs) (q # qs) = linked bs (q # qs)"
  proof (rule linked_cong)
    have "butlast (q # qs) = xs" unfolding qs [symmetric] by simp
    then show "x \<in> set (butlast (q # qs)) \<Longrightarrow> b_next (push_front b bs x) = b_next (bs x)" for x
      using assms(3,4) by (auto simp: nx)
  qed (use sets in \<open>auto simp: pv\<close>)
  with l(3) show ?thesis
    using assms(5) sets(2) unfolding append_Cons qs by (simp add: nx pv)
qed

lemma ring_to_front:
  assumes "ring bs xs" and "b < NBUF"
  shows "ring (push_front b (unlink b bs)) (b # remove1 b xs)"
proof -
  have "b \<in> set xs" using assms by (simp add: ring_def)
  then obtain ys zs where xs: "xs = ys @ b # zs" "b \<notin> set ys" by (meson split_list_first)
  have d: "distinct (ys @ b # zs)" "NBUF \<notin> set (ys @ b # zs)"
    using assms(1) by (auto simp: ring_def xs)
  have "linked bs (NBUF # ys @ b # zs @ [NBUF])" using assms(1) by (simp add: ring_def xs)
  from unlink_linked [OF this d] have "linked (unlink b bs) (NBUF # (ys @ zs) @ [NBUF])" by simp
  then have "linked (push_front b (unlink b bs)) (NBUF # b # (ys @ zs) @ [NBUF])"
    by (rule push_front_linked) (use d assms(2) in auto)
  moreover have "remove1 b xs = ys @ zs" using xs by (simp add: remove1_append)
  ultimately show ?thesis
    using assms(1) d unfolding ring_def xs(1) by auto
qed

lemma ring_cong:
  assumes "\<And>x. b_next (bs x) = b_next (bs' x)" and "\<And>x. b_prev (bs x) = b_prev (bs' x)"
  shows "ring bs xs = ring bs' xs"
  using linked_cong [of "NBUF # xs @ [NBUF]" bs bs'] assms by (simp add: ring_def)

text \<open>\<^verbatim>\<open>binit\<close> builds the ring; the buffers come out in descending order.\<close>

lemma binit_buf_links:
  "b_next (bufs (binit_buf b s) x) = b_next (push_front b (bufs s) x)"
  "b_prev (bufs (binit_buf b s) x) = b_prev (push_front b (bufs s) x)"
  by (auto simp: binit_buf_def push_front_def upd_buf_def upd_lock_def initsleeplock_def Let_def)

lemma binit_ring: "ring (bufs (binit s)) (rev [0..<NBUF])"
proof -
  let ?s = "upd_buf NBUF (\<lambda>x. x\<lparr>b_prev := NBUF, b_next := NBUF\<rparr>) s"
  have "k \<le> NBUF \<Longrightarrow> linked (bufs (fold binit_buf [0..<k] ?s)) (NBUF # rev [0..<k] @ [NBUF])" for k
  proof (induction k)
    case 0
    show ?case by (simp add: upd_buf_def)
  next
    case (Suc k)
    let ?t = "fold binit_buf [0..<k] ?s"
    have "linked (push_front k (bufs ?t)) (NBUF # k # rev [0..<k] @ [NBUF])"
      by (rule push_front_linked) (use Suc in auto)
    then have "linked (bufs (binit_buf k ?t)) (NBUF # k # rev [0..<k] @ [NBUF])"
      using linked_cong [of "NBUF # k # rev [0..<k] @ [NBUF]" "bufs (binit_buf k ?t)" "push_front k (bufs ?t)"]
      by (simp only: binit_buf_links)
    then show ?case by simp
  qed
  from this [of NBUF] show ?thesis by (auto simp: ring_def binit_def)
qed

section \<open>Invariant and contents\<close>

definition at :: "uint \<Rightarrow> uint \<Rightarrow> buf \<Rightarrow> bool" where
  "at d n b \<longleftrightarrow> b_dev b = d \<and> b_blockno b = n"

definition is_locked :: "buf \<Rightarrow> bool" where
  "is_locked b \<longleftrightarrow> sl_locked (b_lock b) \<noteq> 0"

definition view :: "'a bio_st_scheme \<Rightarrow> uint \<Rightarrow> uint \<Rightarrow> block" where
  "view s d n =
     (case find (\<lambda>i. at d n (bufs s i) \<and> b_valid (bufs s i)) [0..<NBUF] of
        Some i \<Rightarrow> b_data (bufs s i)
      | None \<Rightarrow> disk s (d AND 1) n)"

definition buf_inv :: "(uint \<Rightarrow> uint \<Rightarrow> block) \<Rightarrow> buf \<Rightarrow> bool" where
  "buf_inv D b \<longleftrightarrow> b_dev b \<le> 1 \<and> refcnt b = (if is_locked b then 1 else 0) \<and>
     (b_dirty b \<longrightarrow> b_valid b) \<and> (at 0 0 b \<longrightarrow> \<not> b_valid b \<and> \<not> is_locked b) \<and>
     (b_valid b \<and> \<not> b_dirty b \<and> \<not> is_locked b \<longrightarrow> b_data b = D (b_dev b) (b_blockno b))"

definition bc_inv :: "'a bio_st_scheme \<Rightarrow> bool" where
  "bc_inv s \<longleftrightarrow> (\<exists>xs. ring (bufs s) xs) \<and> idequeue s = None \<and>
     (\<forall>i < NBUF. buf_inv (disk s) (bufs s i)) \<and>
     (\<forall>i < NBUF. \<forall>j < NBUF. \<forall>d n. at d n (bufs s i) \<longrightarrow> at d n (bufs s j) \<longrightarrow> \<not> (d = 0 \<and> n = 0) \<longrightarrow> i = j)"

lemma bc_inv_unique:
  "bc_inv s \<Longrightarrow> i < NBUF \<Longrightarrow> j < NBUF \<Longrightarrow> at d n (bufs s i) \<Longrightarrow> at d n (bufs s j) \<Longrightarrow>
   \<not> (d = 0 \<and> n = 0) \<Longrightarrow> i = j"
  unfolding bc_inv_def by blast

lemma bc_inv_buf: "bc_inv s \<Longrightarrow> i < NBUF \<Longrightarrow> buf_inv (disk s) (bufs s i)"
  by (simp add: bc_inv_def)

lemma and_1_small [simp]: "(d :: uint) \<le> 1 \<Longrightarrow> d AND 1 = d"
proof -
  assume "d \<le> 1"
  then have "unat d \<le> 1" by (simp add: word_le_nat_alt)
  then have "unat d = 0 \<or> unat d = 1" by linarith
  then have "d = 0 \<or> d = 1" by (metis unsigned_eq_0_iff unsigned_1 word_unat_eq_iff)
  then show ?thesis by auto
qed

lemma view_cached:
  assumes "bc_inv s" and "i < NBUF" and "b_valid (bufs s i)" and "at d n (bufs s i)"
  shows "view s d n = b_data (bufs s i)"
proof -
  have nz: "\<not> (d = 0 \<and> n = 0)" using bc_inv_buf [OF assms(1,2)] assms(3,4) by (auto simp: buf_inv_def)
  have "\<not> at d n (bufs s j)" if "j < i" for j
    using bc_inv_unique [OF assms(1) _ assms(2) _ assms(4) nz, of j] assms(2) that by auto
  then have "find (\<lambda>i. at d n (bufs s i) \<and> b_valid (bufs s i)) [0..<NBUF] = Some i"
    unfolding find_upt_Some using assms(2-4) by simp
  then show ?thesis by (simp add: view_def)
qed

lemma view_uncached:
  "(\<And>i. i < NBUF \<Longrightarrow> at d n (bufs s i) \<Longrightarrow> \<not> b_valid (bufs s i)) \<Longrightarrow> view s d n = disk s (d AND 1) n"
  by (auto simp: view_def find_None_iff split: option.split dest!: find_Some_iff [THEN iffD1])

section \<open>What the operations leave alone\<close>

text \<open>Wakeups make sleeping processes runnable; nothing else of the process table changes.\<close>

definition woken :: "(nat \<Rightarrow> proc) \<Rightarrow> (nat \<Rightarrow> proc) \<Rightarrow> bool" where
  "woken pt pt' \<longleftrightarrow> (\<forall>i. pt' i = pt i \<or> p_state (pt i) = SLEEPING \<and> pt' i = (pt i)\<lparr>p_state := RUNNABLE\<rparr>)"

lemma woken_refl [simp]: "woken pt pt"
  by (simp add: woken_def)

lemma woken_trans [trans]:
  assumes "woken p q" and "woken q r"
  shows "woken p r"
proof -
  have "r i = p i \<or> p_state (p i) = SLEEPING \<and> r i = (p i)\<lparr>p_state := RUNNABLE\<rparr>" for i
    using assms [unfolded woken_def, rule_format, of i] by auto
  then show ?thesis by (simp add: woken_def)
qed

lemma woken_wakeup: "woken (ptable s) (ptable (wakeup c s))"
  by (simp add: woken_def wakeup_def wakeup1_def)

lemma woken_pid:
  assumes "woken p q"
  shows "p_pid (q i) = p_pid (p i)"
  using assms [unfolded woken_def, rule_format, of i] by auto

definition bio_frame :: "'a bio_st_scheme \<Rightarrow> 'a bio_st_scheme \<Rightarrow> bool" where
  "bio_frame s s' \<longleftrightarrow> (\<exists>pt bs dk ws r. woken (ptable s) pt \<and>
     s' = s\<lparr>ptable := pt, bufs := bs, disk := dk, disk_writes := ws, ide_cmd := r\<rparr>)"

lemma bio_frameI:
  "woken (ptable s) pt \<Longrightarrow> bio_frame s (s\<lparr>ptable := pt, bufs := bs, disk := dk, disk_writes := ws, ide_cmd := r\<rparr>)"
  unfolding bio_frame_def by blast

lemma bio_frame_fields:
  assumes "bio_frame s s'"
  shows "mem s' = mem s" "freelist s' = freelist s" "kend s' = kend s" "nextpid s' = nextpid s"
    "initproc s' = initproc s" "cpu_proc s' = cpu_proc s" "this_cpu s' = this_cpu s"
    "idequeue s' = idequeue s" "havedisk1 s' = havedisk1 s" "ide_fails s' = ide_fails s"
    "bio_st.more s' = bio_st.more s" "woken (ptable s) (ptable s')"
  using assms by (auto simp: bio_frame_def)

lemma bio_frame_refl [simp]: "bio_frame s s"
  using bio_frameI [of s "ptable s" "ide_cmd s" "disk_writes s" "disk s" "bufs s"] by simp

lemma bio_frame_trans [trans]:
  assumes "bio_frame s t" and "bio_frame t u"
  shows "bio_frame s u"
proof -
  obtain pt bs dk ws r where t: "woken (ptable s) pt"
      "t = s\<lparr>ptable := pt, bufs := bs, disk := dk, disk_writes := ws, ide_cmd := r\<rparr>"
    using assms(1) by (auto simp: bio_frame_def)
  obtain pt' bs' dk' ws' r' where u: "woken (ptable t) pt'"
      "u = t\<lparr>ptable := pt', bufs := bs', disk := dk', disk_writes := ws', ide_cmd := r'\<rparr>"
    using assms(2) by (auto simp: bio_frame_def)
  have "woken (ptable s) pt'" using t u(1) by (simp add: woken_trans)
  then have "bio_frame s (s\<lparr>ptable := pt', bufs := bs', disk := dk', disk_writes := ws', ide_cmd := r'\<rparr>)"
    by (rule bio_frameI)
  then show ?thesis by (simp add: u(2) t(2))
qed

lemma bio_frame_mypid:
  assumes "bio_frame s s'"
  shows "mypid s' = mypid s"
  using woken_pid [OF bio_frame_fields(12) [OF assms]]
  by (simp add: mypid_def myproc_def bio_frame_fields [OF assms] split: option.split)

lemma bio_frame_wakeup [simp]: "bio_frame s (wakeup c s)"
  using bio_frameI [of s "ptable (wakeup c s)" "ide_cmd s" "disk_writes s" "disk s" "bufs s"] woken_wakeup [of s c]
  by (simp add: wakeup_def wakeup1_def)

lemma bio_frame_upd [simp]:
  "bio_frame s (s\<lparr>bufs := bs\<rparr>)" "bio_frame s (s\<lparr>ide_cmd := r\<rparr>)" "bio_frame s (upd_buf i f s)"
  "bio_frame s (put_disk d n v s)"
  using bio_frameI [of s "ptable s" "ide_cmd s" "disk_writes s" "disk s" bs]
    bio_frameI [of s "ptable s" r "disk_writes s" "disk s" "bufs s"]
    bio_frameI [of s "ptable s" "ide_cmd s" "disk_writes s" "disk s" "(bufs s)(i := f (bufs s i))"]
    bio_frameI [of s "ptable s" "ide_cmd s" "disk_writes s @ [(d, n, v)]" "(disk s)(d := (disk s d)(n := v))" "bufs s"]
  by (simp_all add: upd_buf_def put_disk_def)

lemma bio_frame_after [simp]:
  assumes "bio_frame s t"
  shows "bio_frame s (wakeup c t)" "bio_frame s (t\<lparr>bufs := bs\<rparr>)" "bio_frame s (t\<lparr>ide_cmd := r\<rparr>)"
    "bio_frame s (upd_buf i f t)" "bio_frame s (put_disk d n v t)"
  using assms by (blast intro: bio_frame_trans bio_frame_upd bio_frame_wakeup)+

section \<open>Reading a block\<close>

text \<open>The buffer after its lock has been taken.\<close>

definition grab :: "int \<Rightarrow> buf \<Rightarrow> buf" where
  "grab pid b = b\<lparr>refcnt := 1, b_lock := (b_lock b)\<lparr>sl_locked := 1, sl_pid := pid\<rparr>\<rparr>"

lemma ring_scans:
  assumes "ring (bufs s) xs"
  shows "scan_next (Suc NBUF) P (b_next (bufs s NBUF)) s = Ok (find (\<lambda>i. P (bufs s i)) xs)"
    and "scan_prev (Suc NBUF) P (b_prev (bufs s NBUF)) s = Ok (find (\<lambda>i. P (bufs s i)) (rev xs))"
proof -
  have xs: "length xs < Suc NBUF" "NBUF \<notin> set xs"
    using assms distinct_card [of xs] by (auto simp: ring_def)
  have "b_next (bufs s NBUF) = hd (xs @ [NBUF])" "linked (bufs s) (xs @ [NBUF])"
    using assms by (cases xs; simp add: ring_def)+
  with xs show "scan_next (Suc NBUF) P (b_next (bufs s NBUF)) s = Ok (find (\<lambda>i. P (bufs s i)) xs)"
    using scan_next_linked [of s xs "Suc NBUF" P] by simp
  have "linked (bufs s) ((NBUF # xs) @ [NBUF])" using assms by (simp add: ring_def)
  then have "b_prev (bufs s NBUF) = last (NBUF # xs)" "linked (bufs s) (NBUF # xs)"
    using linked_snoc [of "NBUF # xs" "bufs s" NBUF] by blast+
  with xs show "scan_prev (Suc NBUF) P (b_prev (bufs s NBUF)) s = Ok (find (\<lambda>i. P (bufs s i)) (rev xs))"
    using scan_prev_linked [of s xs "Suc NBUF" P] by simp
qed

lemma bget_hit:
  assumes "bc_inv s" and "\<not> (d = 0 \<and> n = 0)" and "i < NBUF" and "at d n (bufs s i)" and "\<not> is_locked (bufs s i)"
  shows "bget d n s = Ok (i, upd_buf i (grab (mypid s)) s)"
proof -
  obtain xs where ring: "ring (bufs s) xs" using assms(1) by (auto simp: bc_inv_def)
  have "find (\<lambda>i. b_dev (bufs s i) = d \<and> b_blockno (bufs s i) = n) xs = Some i"
    by (rule find_unique) (use assms ring bc_inv_unique [OF assms(1)] in \<open>auto simp: ring_def at_def\<close>)
  moreover have "refcnt (bufs s i) = 0" "sl_locked (b_lock (bufs s i)) = 0"
    using bc_inv_buf [OF assms(1,3)] assms(5) by (auto simp: buf_inv_def is_locked_def)
  ultimately show ?thesis
    unfolding bget_def ring_scans [OF ring]
    by (simp add: lock_buf_def acquiresleep_def upd_buf_def upd_lock_def grab_def)
qed

lemma bget_miss:
  assumes "bc_inv s" and "\<And>i. i < NBUF \<Longrightarrow> \<not> at d n (bufs s i)"
    and "f < NBUF" and "\<not> is_locked (bufs s f)" and "\<not> b_dirty (bufs s f)"
  shows "\<exists>i < NBUF. \<not> is_locked (bufs s i) \<and> \<not> b_dirty (bufs s i) \<and>
    bget d n s = Ok (i, upd_buf i (\<lambda>b. grab (mypid s) (b\<lparr>b_dev := d, b_blockno := n, flags := 0\<rparr>)) s)"
proof -
  let ?P = "\<lambda>i. refcnt (bufs s i) = 0 \<and> flags (bufs s i) AND B_DIRTY = 0"
  obtain xs where ring: "ring (bufs s) xs" using assms(1) by (auto simp: bc_inv_def)
  then have set: "set (rev xs) = {..<NBUF}" by (simp add: ring_def)
  have "\<forall>i \<in> set xs. \<not> (b_dev (bufs s i) = d \<and> b_blockno (bufs s i) = n)"
    using assms(2) set by (auto simp: at_def)
  then have none: "find (\<lambda>i. b_dev (bufs s i) = d \<and> b_blockno (bufs s i) = n) xs = None"
    by (auto simp: find_None_iff)
  have "?P f" using bc_inv_buf [OF assms(1,3)] assms(4,5) by (simp add: buf_inv_def)
  then have "find ?P (rev xs) \<noteq> None" using assms(3) set by (auto simp: find_None_iff)
  then obtain i where i: "find ?P (rev xs) = Some i" by auto
  then have "i \<in> set (rev xs)" and p: "?P i" using find_SomeD by fast+
  then have "i < NBUF" using set by auto
  with p have "\<not> is_locked (bufs s i)"
    using bc_inv_buf [OF assms(1)] by (auto simp: buf_inv_def split: if_splits)
  with none i p \<open>i < NBUF\<close> show ?thesis
    unfolding bget_def ring_scans [OF ring]
    by (intro exI [of _ i]) (simp add: lock_buf_def acquiresleep_def upd_buf_def upd_lock_def grab_def is_locked_def)
qed

lemma fill_buf:
  assumes "idequeue s = None" and "i < NBUF" and "at d n g" and "\<not> b_valid g" and "\<not> b_dirty g"
    and "holdingsleep (b_lock g) s" and "d \<le> 1" and "n < FSSIZE" and "d \<noteq> 0 \<longrightarrow> havedisk1 s" and "\<not> ide_fails s d n"
  shows "\<exists>s'. iderw i (upd_buf i (\<lambda>_. g) s) = Ok s' \<and> disk s' = disk s \<and> disk_writes s' = disk_writes s \<and>
    bio_frame s s' \<and>
    bufs s' = (bufs s)(i := g\<lparr>b_data := disk s d n, flags := (flags g OR B_VALID) AND NOT B_DIRTY, b_qnext := None\<rparr>)"
proof -
  let ?t = "upd_buf i (\<lambda>_. g) s"
  have "ide_ready ?t i"
    using assms by (auto simp: ide_ready_def upd_buf_def at_def pending_def holdingsleep_def)
  from iderw_ready [OF this] have "iderw i ?t = Ok (wakeup (ChanBuf i) (?t\<lparr>ide_cmd := ide_command g,
      bufs := (bufs s)(i := g\<lparr>b_data := disk s d n, flags := (flags g OR B_VALID) AND NOT B_DIRTY, b_qnext := None\<rparr>)\<rparr>))"
    using assms(3,5,7,10) by (auto simp: upd_buf_def served_def at_def Let_def)
  moreover have "bio_frame s (wakeup (ChanBuf i) (?t\<lparr>ide_cmd := r, bufs := bs\<rparr>))" for r bs
    by simp
  ultimately show ?thesis by (simp add: upd_buf_def)
qed

lemma bread_spec:
  assumes inv: "bc_inv s" and nz: "\<not> (d = 0 \<and> n = 0)" and d: "d \<le> 1" and n: "n < FSSIZE"
    and hw: "d \<noteq> 0 \<longrightarrow> havedisk1 s" "\<not> ide_fails s d n"
    and unlocked: "\<And>j. j < NBUF \<Longrightarrow> at d n (bufs s j) \<Longrightarrow> \<not> is_locked (bufs s j)"
    and room: "(\<exists>j < NBUF. at d n (bufs s j)) \<or> (\<exists>j < NBUF. \<not> is_locked (bufs s j) \<and> \<not> b_dirty (bufs s j))"
  shows "\<exists>i b s'. bread d n s = Ok (i, s') \<and> i < NBUF \<and> bufs s' = (bufs s)(i := b) \<and> bio_frame s s' \<and>
    disk s' = disk s \<and> disk_writes s' = disk_writes s \<and> \<not> is_locked (bufs s i) \<and>
    at d n b \<and> b_valid b \<and> holdingsleep (b_lock b) s \<and> refcnt b = 1 \<and> b_data b = view s d n \<and>
    b_next b = b_next (bufs s i) \<and> b_prev b = b_prev (bufs s i) \<and>
    (b_dirty b \<longleftrightarrow> b_dirty (bufs s i)) \<and> (\<forall>j < NBUF. at d n (bufs s j) \<longrightarrow> j = i) \<and>
    (b_dirty b \<longrightarrow> at d n (bufs s i))"
proof -
  have q: "idequeue s = None" using inv by (simp add: bc_inv_def)
  have filled: ?thesis if i: "i < NBUF" and get: "bget d n s = Ok (i, upd_buf i (\<lambda>_. g) s)"
    and g: "at d n g" "\<not> b_valid g" "\<not> b_dirty g" "holdingsleep (b_lock g) s" "refcnt g = 1"
      "b_next g = b_next (bufs s i)" "b_prev g = b_prev (bufs s i)"
    and old: "\<not> is_locked (bufs s i)" "\<not> b_dirty (bufs s i)" "\<forall>j < NBUF. at d n (bufs s j) \<longrightarrow> j = i"
    and v: "view s d n = disk s d n" for i g
  proof -
    obtain s' where s': "iderw i (upd_buf i (\<lambda>_. g) s) = Ok s'" "disk s' = disk s" "disk_writes s' = disk_writes s"
        "bio_frame s s'" "bufs s' = (bufs s)(i := g\<lparr>b_data := disk s d n,
          flags := (flags g OR B_VALID) AND NOT B_DIRTY, b_qnext := None\<rparr>)"
      using fill_buf [OF q i g(1-4) d n hw] by blast
    define b where "b = g\<lparr>b_data := disk s d n, flags := (flags g OR B_VALID) AND NOT B_DIRTY, b_qnext := None\<rparr>"
    have b: "at d n b" "b_valid b" "holdingsleep (b_lock b) s" "refcnt b = 1" "b_data b = view s d n"
        "b_next b = b_next (bufs s i)" "b_prev b = b_prev (bufs s i)" "\<not> b_dirty b"
      using g(1,4-7) by (simp_all add: b_def at_def v)
    have "flags (bufs (upd_buf i (\<lambda>_. g) s) i) AND B_VALID = 0" using g(2) by (simp add: upd_buf_def)
    then have "bread d n s = Ok (i, s')" unfolding bread_def get using s'(1) by simp
    with s'(2-5) i b old show ?thesis unfolding b_def [symmetric] by blast
  qed
  show ?thesis
  proof (cases "\<exists>j < NBUF. at d n (bufs s j)")
    case True
    then obtain i where i: "i < NBUF" "at d n (bufs s i)" by auto
    let ?t = "upd_buf i (grab (mypid s)) s"
    have get: "bget d n s = Ok (i, ?t)" using bget_hit [OF inv nz i unlocked [OF i]] .
    have uniq: "\<forall>j < NBUF. at d n (bufs s j) \<longrightarrow> j = i" using bc_inv_unique [OF inv _ i(1) _ i(2) nz] by auto
    show ?thesis
    proof (cases "b_valid (bufs s i)")
      case True
      define b where "b = grab (mypid s) (bufs s i)"
      have b: "at d n b" "b_valid b" "holdingsleep (b_lock b) s" "refcnt b = 1" "b_data b = view s d n"
          "b_next b = b_next (bufs s i)" "b_prev b = b_prev (bufs s i)" "b_dirty b = b_dirty (bufs s i)"
        using i(2) True view_cached [OF inv i(1) True i(2)]
        by (simp_all add: b_def grab_def at_def holdingsleep_def)
      have "bread d n s = Ok (i, ?t)" using True by (simp add: bread_def get upd_buf_def grab_def)
      moreover have "bufs ?t = (bufs s)(i := b)" "bio_frame s ?t" "disk ?t = disk s" "disk_writes ?t = disk_writes s"
        by (simp_all add: b_def) (simp_all add: upd_buf_def)
      ultimately show ?thesis using i unlocked [OF i] b uniq by blast
    next
      case False
      have clean: "\<not> b_dirty (bufs s i)" using bc_inv_buf [OF inv i(1)] False by (auto simp: buf_inv_def)
      have v: "view s d n = disk s (d AND 1) n"
        by (rule view_uncached) (use uniq False in blast)
      show ?thesis
      proof (rule filled [of i "grab (mypid s) (bufs s i)"])
        show "\<forall>j < NBUF. at d n (bufs s j) \<longrightarrow> j = i" by (rule uniq)
      qed (use i False clean unlocked [OF i] get v d in
          \<open>simp_all add: grab_def at_def holdingsleep_def upd_buf_def\<close>)
    qed
  next
    case False
    then obtain f where "f < NBUF" "\<not> is_locked (bufs s f)" "\<not> b_dirty (bufs s f)" using room by auto
    then obtain i where i: "i < NBUF" "\<not> is_locked (bufs s i)" "\<not> b_dirty (bufs s i)"
      "bget d n s = Ok (i, upd_buf i (\<lambda>b. grab (mypid s) (b\<lparr>b_dev := d, b_blockno := n, flags := 0\<rparr>)) s)"
      using bget_miss [OF inv] False by blast
    have v: "view s d n = disk s (d AND 1) n" by (rule view_uncached) (use False in blast)
    show ?thesis
    proof (rule filled [of i "grab (mypid s) ((bufs s i)\<lparr>b_dev := d, b_blockno := n, flags := 0\<rparr>)"])
      show "\<forall>j < NBUF. at d n (bufs s j) \<longrightarrow> j = i" using False by blast
    qed (use i v d in \<open>simp_all add: grab_def at_def holdingsleep_def upd_buf_def\<close>)
  qed
qed

section \<open>Specifications of the operations\<close>

text \<open>A buffer without its links; the ring operations change nothing else.\<close>

definition core :: "buf \<Rightarrow> buf" where
  "core b = b\<lparr>b_prev := 0, b_next := 0\<rparr>"

lemma core_eqD:
  assumes "core b = core b'"
  shows "flags b = flags b'" "b_dev b = b_dev b'" "b_blockno b = b_blockno b'" "b_lock b = b_lock b'"
    "refcnt b = refcnt b'" "b_data b = b_data b'" "at d n b = at d n b'" "b_valid b = b_valid b'"
    "b_dirty b = b_dirty b'" "is_locked b = is_locked b'" "buf_inv D b = buf_inv D b'"
proof -
  note e = assms [unfolded core_def]
  show 1: "flags b = flags b'" "b_dev b = b_dev b'" "b_blockno b = b_blockno b'" "b_lock b = b_lock b'"
    "refcnt b = refcnt b'" "b_data b = b_data b'"
    using arg_cong [OF e, of flags] arg_cong [OF e, of b_dev] arg_cong [OF e, of b_blockno]
      arg_cong [OF e, of b_lock] arg_cong [OF e, of refcnt] arg_cong [OF e, of b_data] by simp_all
  show "at d n b = at d n b'" "b_valid b = b_valid b'" "b_dirty b = b_dirty b'" "is_locked b = is_locked b'"
    "buf_inv D b = buf_inv D b'"
    by (simp_all add: 1 at_def is_locked_def buf_inv_def)
qed

lemma core_links [simp]: "core (unlink b bs j) = core (bs j)" "core (push_front b bs j) = core (bs j)"
  by (simp_all add: core_def unlink_def push_front_def Let_def)

lemma bc_inv_upd:
  assumes inv: "bc_inv s" and i: "i < NBUF" and bs: "bufs s' = (bufs s)(i := b)"
    and links: "b_next b = b_next (bufs s i)" "b_prev b = b_prev (bufs s i)"
    and q: "idequeue s' = None" and b: "buf_inv (disk s') b"
    and others: "\<And>j. j < NBUF \<Longrightarrow> j \<noteq> i \<Longrightarrow> buf_inv (disk s') (bufs s j)"
    and uniq: "\<And>j. j < NBUF \<Longrightarrow> j \<noteq> i \<Longrightarrow> at (b_dev b) (b_blockno b) (bufs s j) \<Longrightarrow>
      b_dev b = 0 \<and> b_blockno b = 0"
  shows "bc_inv s'"
proof -
  have "ring (bufs s') xs = ring (bufs s) xs" for xs
    by (rule ring_cong) (auto simp: bs links)
  moreover have "j = k" if "j < NBUF" "k < NBUF" "at d n (bufs s' j)" "at d n (bufs s' k)" "\<not> (d = 0 \<and> n = 0)"
    for j k d n
  proof (rule ccontr)
    assume "j \<noteq> k"
    then consider "j = i" "k \<noteq> i" | "k = i" "j \<noteq> i" | "j \<noteq> i" "k \<noteq> i" by auto
    then show False
    proof cases
      case 1
      with that uniq [of k] show False by (auto simp: bs at_def)
    next
      case 2
      with that uniq [of j] show False by (auto simp: bs at_def)
    next
      case 3
      with that bc_inv_unique [OF inv that(1,2), of d n] \<open>j \<noteq> k\<close> show False by (simp add: bs)
    qed
  qed
  moreover have "buf_inv (disk s') (bufs s' j)" if "j < NBUF" for j
    using b others that by (simp add: bs)
  moreover have "\<exists>xs. ring (bufs s) xs" using inv by (simp add: bc_inv_def)
  ultimately show ?thesis using q unfolding bc_inv_def by auto
qed

lemma view_upd:
  assumes inv: "bc_inv s" "bc_inv s'" and i: "i < NBUF" and bs: "bufs s' = (bufs s)(i := b)" and v: "b_valid b"
    and dk: "\<And>d n. \<not> at d n b \<Longrightarrow> disk s' d n = disk s d n"
    and old: "b_valid (bufs s i) \<Longrightarrow> \<not> at (b_dev (bufs s i)) (b_blockno (bufs s i)) b \<Longrightarrow>
      b_data (bufs s i) = disk s (b_dev (bufs s i)) (b_blockno (bufs s i))"
    and d: "d \<le> 1"
  shows "view s' d n = (if at d n b then b_data b else view s d n)"
proof (cases "at d n b")
  case True
  then show ?thesis using view_cached [OF inv(2) i] v by (simp add: bs)
next
  case other: False
  show ?thesis
  proof (cases "\<exists>j < NBUF. j \<noteq> i \<and> at d n (bufs s j) \<and> b_valid (bufs s j)")
    case True
    then obtain j where j: "j < NBUF" "j \<noteq> i" "at d n (bufs s j)" "b_valid (bufs s j)" by auto
    then have "view s d n = b_data (bufs s j)" "view s' d n = b_data (bufs s' j)"
      using view_cached [OF inv(1) j(1)] view_cached [OF inv(2) j(1)] by (simp_all add: bs)
    with j(2) other show ?thesis by (simp add: bs)
  next
    case False
    have "view s' d n = disk s' (d AND 1) n"
      by (rule view_uncached) (use False other in \<open>auto simp: bs split: if_splits\<close>)
    moreover have "view s d n = disk s (d AND 1) n"
    proof (cases "at d n (bufs s i) \<and> b_valid (bufs s i)")
      case True
      then have "view s d n = b_data (bufs s i)" using view_cached [OF inv(1) i] by simp
      with True old other d show ?thesis by (simp add: at_def)
    next
      case no: False
      show ?thesis by (rule view_uncached) (use False no in blast)
    qed
    ultimately show ?thesis using dk [OF other] other d by simp
  qed
qed

text \<open>A buffer the running process holds, with the contents of its block.\<close>

definition held :: "nat \<Rightarrow> 'a bio_st_scheme \<Rightarrow> bool" where
  "held i s \<longleftrightarrow> i < NBUF \<and> b_valid (bufs s i) \<and> holdingsleep (b_lock (bufs s i)) s \<and>
     b_blockno (bufs s i) < FSSIZE \<and> (b_dev (bufs s i) \<noteq> 0 \<longrightarrow> havedisk1 s)"

lemma held_locked: "held i s \<Longrightarrow> is_locked (bufs s i)"
  by (simp add: held_def holdingsleep_def is_locked_def)

lemma held_view: "bc_inv s \<Longrightarrow> held i s \<Longrightarrow> at d n (bufs s i) \<Longrightarrow> view s d n = b_data (bufs s i)"
  by (simp add: held_def view_cached)

lemma bread_ok:
  assumes inv: "bc_inv s" and nz: "\<not> (d = 0 \<and> n = 0)" and d: "d \<le> 1" and n: "n < FSSIZE"
    and hw: "d \<noteq> 0 \<longrightarrow> havedisk1 s" "\<not> ide_fails s d n"
    and unlocked: "\<And>j. j < NBUF \<Longrightarrow> at d n (bufs s j) \<Longrightarrow> \<not> is_locked (bufs s j)"
    and room: "(\<exists>j < NBUF. at d n (bufs s j)) \<or> (\<exists>j < NBUF. \<not> is_locked (bufs s j) \<and> \<not> b_dirty (bufs s j))"
  shows "\<exists>i b s'. bread d n s = Ok (i, s') \<and> bc_inv s' \<and> held i s' \<and> at d n b \<and> bufs s' = (bufs s)(i := b) \<and>
    bio_frame s s' \<and> disk s' = disk s \<and> disk_writes s' = disk_writes s \<and> \<not> is_locked (bufs s i) \<and>
    b_data b = view s d n \<and> (\<forall>e m. e \<le> 1 \<longrightarrow> view s' e m = view s e m) \<and>
    (b_dirty b \<longleftrightarrow> b_dirty (bufs s i)) \<and> (b_dirty b \<longrightarrow> at d n (bufs s i))"
proof -
  obtain i b s' where r: "bread d n s = Ok (i, s')" "i < NBUF" "bufs s' = (bufs s)(i := b)" "bio_frame s s'"
      "disk s' = disk s" "disk_writes s' = disk_writes s" "\<not> is_locked (bufs s i)" "at d n b" "b_valid b"
      "holdingsleep (b_lock b) s" "refcnt b = 1" "b_data b = view s d n"
      "b_next b = b_next (bufs s i)" "b_prev b = b_prev (bufs s i)" "b_dirty b \<longleftrightarrow> b_dirty (bufs s i)"
      "\<forall>j < NBUF. at d n (bufs s j) \<longrightarrow> j = i" "b_dirty b \<longrightarrow> at d n (bufs s i)"
    using bread_spec [OF assms] by blast
  have lk: "is_locked b" using r(10) by (simp add: holdingsleep_def is_locked_def)
  have dn: "b_dev b = d" "b_blockno b = n" using r(8) by (simp_all add: at_def)
  have "buf_inv (disk s') b" using r(9,11) lk d nz dn by (auto simp: buf_inv_def at_def)
  then have inv': "bc_inv s'"
    using inv r(16) bio_frame_fields(8) [OF r(4)]
    by (intro bc_inv_upd [OF inv r(2,3,13,14)]) (auto simp: r(5) bc_inv_buf dn, auto simp: bc_inv_def)
  have h: "held i s'"
    using r(2,9,10) n hw(1) bio_frame_mypid [OF r(4)] bio_frame_fields(9) [OF r(4)]
    by (simp add: held_def r(3) dn holdingsleep_def)
  have "view s' e m = view s e m" if "e \<le> 1" for e m
  proof -
    have "b_data (bufs s i) = disk s (b_dev (bufs s i)) (b_blockno (bufs s i))"
      if "b_valid (bufs s i)" "\<not> at (b_dev (bufs s i)) (b_blockno (bufs s i)) b"
      using bc_inv_buf [OF inv r(2)] that r(7,15,17) dn by (auto simp: buf_inv_def at_def)
    from view_upd [OF inv inv' r(2,3,9) _ this that] show ?thesis
      using r(5,12) dn by (auto simp: at_def)
  qed
  with r inv' h show ?thesis by blast
qed

text \<open>The client's store into \<^verbatim>\<open>b->data\<close>.\<close>

definition set_data :: "nat \<Rightarrow> block \<Rightarrow> 'a bio_st_scheme \<Rightarrow> 'a bio_st_scheme" where
  "set_data i v s = upd_buf i (\<lambda>b. b\<lparr>b_data := v\<rparr>) s"

lemma held_upd:
  assumes "held i s" and "bufs s' = (bufs s)(i := b)" and "b_lock b = b_lock (bufs s i)" and "b_valid b"
    and "b_dev b = b_dev (bufs s i)" and "b_blockno b = b_blockno (bufs s i)"
    and "mypid s' = mypid s" and "havedisk1 s' = havedisk1 s" and "held j s"
  shows "held j s'"
  using assms by (auto simp: held_def holdingsleep_def)

lemma set_data_ok:
  fixes v :: block
  assumes inv: "bc_inv s" and h: "held i s" and a: "at d n (bufs s i)"
  defines "s' \<equiv> set_data i v s"
  shows "bc_inv s'" and "held j s \<Longrightarrow> held j s'" and "bio_frame s s'" and "disk s' = disk s"
    and "disk_writes s' = disk_writes s" and "bufs s' = (bufs s)(i := (bufs s i)\<lparr>b_data := v\<rparr>)"
    and "e \<le> 1 \<Longrightarrow> view s' e m = (if e = d \<and> m = n then v else view s e m)"
proof -
  let ?b = "(bufs s i)\<lparr>b_data := v\<rparr>"
  have i: "i < NBUF" "b_valid (bufs s i)" using h by (simp_all add: held_def)
  show fr: "bio_frame s s'" "disk s' = disk s" "disk_writes s' = disk_writes s"
    and bs: "bufs s' = (bufs s)(i := ?b)"
    by (simp_all add: s'_def set_data_def) (simp_all add: upd_buf_def)
  have b: "buf_inv (disk s') ?b"
    using bc_inv_buf [OF inv i(1)] held_locked [OF h] by (simp add: fr buf_inv_def at_def is_locked_def)
  have q: "idequeue s' = None" using inv bio_frame_fields(8) [OF fr(1)] by (simp add: bc_inv_def)
  show inv': "bc_inv s'"
    using bc_inv_unique [OF inv _ i(1) _ a] a
    by (intro bc_inv_upd [OF inv i(1) bs _ _ q b]) (auto simp: fr(2) bc_inv_buf [OF inv] at_def)
  show "held j s \<Longrightarrow> held j s'"
    by (rule held_upd [OF h bs]) (use i bio_frame_mypid [OF fr(1)] bio_frame_fields(9) [OF fr(1)] in auto)
  show "e \<le> 1 \<Longrightarrow> view s' e m = (if e = d \<and> m = n then v else view s e m)"
    using view_upd [OF inv inv' i(1) bs] i(2) a by (auto simp: fr(2) at_def)
qed

lemma bwrite_ok:
  assumes inv: "bc_inv s" and h: "held i s" and a: "at d n (bufs s i)" and f: "\<not> ide_fails s d n"
  shows "\<exists>s'. bwrite i s = Ok s' \<and> bc_inv s' \<and> held i s' \<and> bio_frame s s' \<and>
    disk s' = (disk s)(d := (disk s d)(n := b_data (bufs s i))) \<and>
    disk_writes s' = disk_writes s @ [(d, n, b_data (bufs s i))] \<and>
    bufs s' = (bufs s)(i := (bufs s i)\<lparr>flags := flags (bufs s' i), b_qnext := None\<rparr>) \<and> \<not> b_dirty (bufs s' i) \<and>
    (\<forall>e m. e \<le> 1 \<longrightarrow> view s' e m = view s e m)"
proof -
  let ?b = "bufs s i" and ?f = "flags (bufs s i) OR B_DIRTY"
  let ?t = "upd_buf i (\<lambda>x. x\<lparr>flags := flags x OR B_DIRTY\<rparr>) s"
  define b where "b = ?b\<lparr>flags := (?f OR B_VALID) AND NOT B_DIRTY, b_qnext := None\<rparr>"
  have i: "i < NBUF" "b_valid ?b" "holdingsleep (b_lock ?b) s" "b_blockno ?b < FSSIZE" "b_dev ?b \<noteq> 0 \<longrightarrow> havedisk1 s"
    using h by (simp_all add: held_def)
  have dn: "b_dev ?b = d" "b_blockno ?b = n" using a by (simp_all add: at_def)
  have bi: "buf_inv (disk s) ?b" by (rule bc_inv_buf [OF inv i(1)])
  then have d: "d \<le> 1" by (simp add: buf_inv_def dn)
  have q: "idequeue s = None" using inv by (simp add: bc_inv_def)
  have "ide_ready ?t i"
    using i q f dn d by (auto simp: ide_ready_def upd_buf_def pending_def holdingsleep_def)
  from iderw_ready [OF this] have w: "bwrite i s = Ok (wakeup (ChanBuf i)
      ((put_disk d n (b_data ?b) ?t)\<lparr>ide_cmd := ide_command (?b\<lparr>flags := ?f\<rparr>), bufs := (bufs s)(i := b)\<rparr>))"
    using i(3) dn d by (simp add: bwrite_def b_def served_def upd_buf_def put_disk_def)
  define s' where "s' = wakeup (ChanBuf i)
      ((put_disk d n (b_data ?b) ?t)\<lparr>ide_cmd := ide_command (?b\<lparr>flags := ?f\<rparr>), bufs := (bufs s)(i := b)\<rparr>)"
  have fr: "bio_frame s s'" by (simp add: s'_def)
  have fl: "bufs s' = (bufs s)(i := b)" "disk s' = (disk s)(d := (disk s d)(n := b_data ?b))"
      "disk_writes s' = disk_writes s @ [(d, n, b_data ?b)]"
    by (simp_all add: s'_def put_disk_def upd_buf_def)
  have b: "b_next b = b_next ?b" "b_prev b = b_prev ?b" "b_valid b" "\<not> b_dirty b" "b_dev b = d" "b_blockno b = n"
      "b_lock b = b_lock ?b" "b_data b = b_data ?b" "refcnt b = refcnt ?b" "is_locked b = is_locked ?b"
    using i(2) by (simp_all add: b_def dn is_locked_def)
  have nz: "\<not> (d = 0 \<and> n = 0)" using bi i(2) a by (auto simp: buf_inv_def)
  have binv: "buf_inv (disk s') b"
    using bi b nz by (simp add: buf_inv_def at_def fl dn)
  have others: "buf_inv (disk s') (bufs s j)" "\<not> at d n (bufs s j)" if "j < NBUF" "j \<noteq> i" for j
  proof -
    show "\<not> at d n (bufs s j)" using bc_inv_unique [OF inv that(1) i(1) _ a nz] that(2) by blast
    then show "buf_inv (disk s') (bufs s j)"
      using bc_inv_buf [OF inv that(1)] by (auto simp: buf_inv_def fl at_def)
  qed
  have q': "idequeue s' = None" using q bio_frame_fields(8) [OF fr] by simp
  have inv': "bc_inv s'"
    by (rule bc_inv_upd [OF inv i(1) fl(1) b(1,2) q' binv]) (use others b(5,6) in auto)
  have "held i s'"
    by (rule held_upd [OF h fl(1) b(7,3)])
      (use b h dn bio_frame_mypid [OF fr] bio_frame_fields(9) [OF fr] in auto)
  moreover have dk: "disk s' e m = disk s e m" if "\<not> at e m b" for e m
    using that b(5,6) by (auto simp: fl(2) at_def)
  have "view s' e m = view s e m" if "e \<le> 1" for e m
    using view_upd [OF inv inv' i(1) fl(1) b(3) dk _ that, of m] held_view [OF inv h] b(5,6,8) dn
    by (auto simp: at_def)
  ultimately show ?thesis
    using w [folded s'_def] inv' fr fl b(4) by (intro exI [of _ s']) (simp add: b_def)
qed

text \<open>
  Releasing a buffer: its lock becomes free and it moves to the front of the ring.  The caller must
  have left it either pinned as dirty or equal to the disk.
\<close>

lemma brelse_bufs:
  assumes "held i s" and "refcnt (bufs s i) = 1"
  shows "\<exists>s'. brelse i s = Ok s' \<and> bio_frame s s' \<and> disk s' = disk s \<and> disk_writes s' = disk_writes s \<and>
    bufs s' = push_front i (unlink i ((bufs s)(i := (bufs s i)\<lparr>
      b_lock := (b_lock (bufs s i))\<lparr>sl_locked := 0, sl_pid := 0\<rparr>, refcnt := 0\<rparr>)))"
proof -
  let ?b = "(bufs s i)\<lparr>b_lock := (b_lock (bufs s i))\<lparr>sl_locked := 0, sl_pid := 0\<rparr>, refcnt := 0\<rparr>"
  let ?t = "releasesleep (ChanBufLock i) (upd_lock i) s"
  define u where "u = upd_buf i (\<lambda>x. x\<lparr>refcnt := refcnt x - 1\<rparr>) ?t"
  have u: "bufs u = (bufs s)(i := ?b)" "disk u = disk s" "disk_writes u = disk_writes s" "bio_frame s u"
    using assms(2) by (simp_all add: u_def releasesleep_def upd_lock_def)
      (simp_all add: upd_buf_def)
  define v where "v = (let s = upd_buf (b_next (bufs u i)) (\<lambda>x. x\<lparr>b_prev := b_prev (bufs u i)\<rparr>) u;
                       s = upd_buf (b_prev (bufs s i)) (\<lambda>x. x\<lparr>b_next := b_next (bufs s i)\<rparr>) s;
                       s = upd_buf i (\<lambda>x. x\<lparr>b_next := b_next (bufs s NBUF)\<rparr>) s;
                       s = upd_buf i (\<lambda>x. x\<lparr>b_prev := NBUF\<rparr>) s;
                       s = upd_buf (b_next (bufs s NBUF)) (\<lambda>x. x\<lparr>b_prev := i\<rparr>) s
                   in upd_buf NBUF (\<lambda>x. x\<lparr>b_next := i\<rparr>) s)"
  have i: "i \<noteq> NBUF" using assms(1) by (simp add: held_def)
  have "brelse i s = Ok v"
    using assms(1) u(1) unfolding brelse_def u_def [symmetric] v_def Let_def by (simp add: held_def)
  moreover have "bufs v = push_front i (unlink i (bufs u))"
    unfolding v_def push_front_def unlink_def Let_def upd_buf_def using i by simp
  moreover have "bio_frame s v" "disk v = disk s" "disk_writes v = disk_writes s"
    using u(2-4) by (simp_all add: v_def Let_def) (simp_all add: upd_buf_def)
  ultimately show ?thesis using u(1) by auto
qed

lemma brelse_ok:
  assumes inv: "bc_inv s" and h: "held i s" and a: "at d n (bufs s i)"
    and clean: "b_dirty (bufs s i) \<or> b_data (bufs s i) = disk s d n"
  shows "\<exists>s'. brelse i s = Ok s' \<and> bc_inv s' \<and> bio_frame s s' \<and> disk s' = disk s \<and> disk_writes s' = disk_writes s \<and>
    core (bufs s' i) = core ((bufs s i)\<lparr>b_lock := (b_lock (bufs s i))\<lparr>sl_locked := 0, sl_pid := 0\<rparr>, refcnt := 0\<rparr>) \<and>
    (\<forall>j. j \<noteq> i \<longrightarrow> core (bufs s' j) = core (bufs s j)) \<and> (\<forall>e m. e \<le> 1 \<longrightarrow> view s' e m = view s e m)"
proof -
  define b where "b = (bufs s i)\<lparr>b_lock := (b_lock (bufs s i))\<lparr>sl_locked := 0, sl_pid := 0\<rparr>, refcnt := 0\<rparr>"
  define t where "t = s\<lparr>bufs := (bufs s)(i := b)\<rparr>"
  have i: "i < NBUF" "b_valid (bufs s i)" using h by (simp_all add: held_def)
  have bi: "buf_inv (disk s) (bufs s i)" by (rule bc_inv_buf [OF inv i(1)])
  have "refcnt (bufs s i) = 1" using bi held_locked [OF h] by (simp add: buf_inv_def)
  then obtain s' where s': "brelse i s = Ok s'" "bio_frame s s'" "disk s' = disk s" "disk_writes s' = disk_writes s"
      "bufs s' = push_front i (unlink i ((bufs s)(i := b)))"
    using brelse_bufs [OF h] unfolding b_def by blast
  have nz: "\<not> (d = 0 \<and> n = 0)" using bi i(2) a by (auto simp: buf_inv_def)
  have t: "bufs t = (bufs s)(i := b)" "disk t = disk s" "idequeue t = idequeue s" by (simp_all add: t_def)
  have dn: "b_dev b = d" "b_blockno b = n" using a by (simp_all add: b_def at_def)
  have binv: "buf_inv (disk t) b"
    using bi clean i(2) a nz by (auto simp: b_def t buf_inv_def is_locked_def at_def)
  have others: "\<not> at d n (bufs s j)" if "j < NBUF" "j \<noteq> i" for j
    using bc_inv_unique [OF inv that(1) i(1) _ a nz] that(2) by blast
  have ti: "bc_inv t"
  proof (rule bc_inv_upd [OF inv i(1) t(1) _ _ _ binv])
    show "idequeue t = None" using inv by (simp add: bc_inv_def t)
  qed (use others dn in \<open>auto simp: b_def t(2) bc_inv_buf [OF inv]\<close>)
  have core: "core (bufs s' j) = core (bufs t j)" for j by (simp add: s'(5) t_def)
  obtain xs where "ring (bufs t) xs" using ti by (auto simp: bc_inv_def)
  then have "ring (bufs s') (i # remove1 i xs)" using ring_to_front i(1) by (simp add: s'(5) t_def)
  moreover have "idequeue s' = None" using ti bio_frame_fields(8) [OF s'(2)] by (simp add: bc_inv_def t_def)
  ultimately have inv': "bc_inv s'"
    using ti core_eqD(7,11) [OF core] unfolding bc_inv_def by (auto simp: s'(3) t_def)
  have "view s' e m = view t e m" for e m
    using core_eqD(6,7,8) [OF core] unfolding view_def s'(3) by (simp add: t_def cong: option.case_cong)
  moreover have "view t e m = view s e m" if "e \<le> 1" for e m
    using view_upd [OF inv ti i(1) _ _ _ _ that, of b m] i(2) held_view [OF inv h]
    by (auto simp: t_def b_def at_def)
  moreover have "core (bufs s' i) = core b" "j \<noteq> i \<Longrightarrow> core (bufs s' j) = core (bufs s j)" for j
    using core by (simp_all add: t_def)
  ultimately show ?thesis using s' inv' unfolding b_def by auto
qed

section \<open>Whole transactions on one block\<close>

text \<open>Reading and writing a block through the cache, as \<^verbatim>\<open>swapread\<close> and \<^verbatim>\<open>swapwrite\<close> do for each block.\<close>

definition read_block :: "uint \<Rightarrow> uint \<Rightarrow> 'a bio_st_scheme \<Rightarrow> (block \<times> 'a bio_st_scheme) result" where
  "read_block d n s =
     rbind (bread d n s) (\<lambda>(b, s). let v = b_data (bufs s b) in rbind (brelse b s) (\<lambda>s. Ok (v, s)))"

definition write_block :: "uint \<Rightarrow> uint \<Rightarrow> block \<Rightarrow> 'a bio_st_scheme \<Rightarrow> 'a bio_st_scheme result" where
  "write_block d n v s =
     rbind (bread d n s) (\<lambda>(b, s). rbind (bwrite b (set_data b v s)) (brelse b))"

text \<open>
  The blocks the cache can be asked for, and the states in which nobody holds a buffer and none is
  pinned.
\<close>

definition usable :: "'a bio_st_scheme \<Rightarrow> uint \<Rightarrow> uint \<Rightarrow> bool" where
  "usable s d n \<longleftrightarrow> \<not> (d = 0 \<and> n = 0) \<and> d \<le> 1 \<and> n < FSSIZE \<and> (d \<noteq> 0 \<longrightarrow> havedisk1 s) \<and> \<not> ide_fails s d n"

definition idle :: "'a bio_st_scheme \<Rightarrow> bool" where
  "idle s \<longleftrightarrow> bc_inv s \<and> (\<forall>i < NBUF. \<not> is_locked (bufs s i) \<and> \<not> b_dirty (bufs s i))"

lemma usable_frame: "bio_frame s s' \<Longrightarrow> usable s' d n = usable s d n"
  by (simp add: usable_def bio_frame_fields)

lemma idle_view:
  assumes "idle s" and "d \<le> 1"
  shows "view s d n = disk s d n"
proof (cases "\<exists>i < NBUF. at d n (bufs s i) \<and> b_valid (bufs s i)")
  case True
  then obtain i where i: "i < NBUF" "at d n (bufs s i)" "b_valid (bufs s i)" by auto
  have "bc_inv s" "\<not> is_locked (bufs s i)" "\<not> b_dirty (bufs s i)" using assms(1) i(1) by (auto simp: idle_def)
  with i bc_inv_buf [of s i] view_cached [of s i d n] show ?thesis by (simp add: buf_inv_def at_def)
next
  case False
  then have "view s d n = disk s (d AND 1) n" by (intro view_uncached) blast
  with assms(2) show ?thesis by simp
qed

lemma idle_bread:
  assumes "idle s" and "usable s d n"
  shows "\<exists>i b s'. bread d n s = Ok (i, s') \<and> bc_inv s' \<and> held i s' \<and> at d n b \<and> bufs s' = (bufs s)(i := b) \<and>
    bio_frame s s' \<and> disk s' = disk s \<and> disk_writes s' = disk_writes s \<and> b_data b = view s d n \<and>
    (\<forall>e m. e \<le> 1 \<longrightarrow> view s' e m = view s e m) \<and> \<not> b_dirty b"
proof -
  have "\<exists>j < NBUF. \<not> is_locked (bufs s j) \<and> \<not> b_dirty (bufs s j)"
    using assms(1) by (intro exI [of _ 0]) (simp add: idle_def NBUF_def)
  moreover have "\<not> b_dirty b" if "b_dirty b \<longleftrightarrow> b_dirty (bufs s i)" "b_dirty b \<longrightarrow> at d n (bufs s i)"
      "i < NBUF" for b i
    using assms(1) that by (simp add: idle_def)
  moreover have "i < NBUF" if "held i s'" for i and s' :: "'a bio_st_scheme" using that by (simp add: held_def)
  ultimately show ?thesis
    using bread_ok [of s d n] assms unfolding idle_def usable_def by blast
qed

lemma read_block_ok:
  assumes idle: "idle s" and us: "usable s d n"
  shows "\<exists>s'. read_block d n s = Ok (view s d n, s') \<and> idle s' \<and> bio_frame s s' \<and> disk s' = disk s"
proof -
  obtain i b t where t: "bread d n s = Ok (i, t)" "bc_inv t" "held i t" "at d n b" "bufs t = (bufs s)(i := b)"
      "bio_frame s t" "disk t = disk s" "b_data b = view s d n" "\<not> b_dirty b"
    using idle_bread [OF idle us] by blast
  have bi: "bufs t i = b" by (simp add: t(5))
  have "b_data b = disk t d n" using t(7,8) idle_view [OF idle] us by (simp add: usable_def)
  then obtain u where u: "brelse i t = Ok u" "bc_inv u" "bio_frame t u" "disk u = disk t"
      "core (bufs u i) = core (b\<lparr>b_lock := (b_lock b)\<lparr>sl_locked := 0, sl_pid := 0\<rparr>, refcnt := 0\<rparr>)"
      "\<forall>j. j \<noteq> i \<longrightarrow> core (bufs u j) = core (bufs t j)"
    using brelse_ok [OF t(2,3), of d n] t(4) by (auto simp: bi)
  have "\<not> is_locked (bufs u j) \<and> \<not> b_dirty (bufs u j)" if "j < NBUF" for j
    using core_eqD(9,10) [OF u(5)] core_eqD(9,10) [OF u(6) [rule_format]] idle that t(9)
    by (cases "j = i") (auto simp: idle_def t(5) is_locked_def)
  with u(2) have "idle u" by (simp add: idle_def)
  moreover have "read_block d n s = Ok (view s d n, u)" by (simp add: read_block_def t(1) u(1) bi t(8))
  ultimately show ?thesis using bio_frame_trans [OF t(6) u(3)] t(7) u(4) by auto
qed

lemma write_block_ok:
  assumes idle: "idle s" and us: "usable s d n"
  shows "\<exists>s'. write_block d n v s = Ok s' \<and> idle s' \<and> bio_frame s s' \<and>
    disk s' = (disk s)(d := (disk s d)(n := v)) \<and> disk_writes s' = disk_writes s @ [(d, n, v)]"
proof -
  obtain i b t where t: "bread d n s = Ok (i, t)" "bc_inv t" "held i t" "at d n b" "bufs t = (bufs s)(i := b)"
      "bio_frame s t" "disk t = disk s" "disk_writes t = disk_writes s" "\<not> b_dirty b"
    using idle_bread [OF idle us] by blast
  have bi: "at d n (bufs t i)" using t(4) by (simp add: t(5))
  define w where "w = set_data i v t"
  note w = set_data_ok [OF t(2,3) bi, where v = v, folded w_def]
  have hw: "held i w" by (rule w(2) [OF t(3)])
  have aw: "at d n (bufs w i)" using bi by (simp add: w(6) at_def)
  have "\<not> ide_fails w d n"
    using us bio_frame_fields(10) [OF w(3)] bio_frame_fields(10) [OF t(6)] by (simp add: usable_def)
  then obtain x where x: "bwrite i w = Ok x" "bc_inv x" "held i x" "bio_frame w x"
      "disk x = (disk w)(d := (disk w d)(n := v))" "disk_writes x = disk_writes w @ [(d, n, v)]"
      "bufs x = (bufs w)(i := (bufs w i)\<lparr>flags := flags (bufs x i), b_qnext := None\<rparr>)" "\<not> b_dirty (bufs x i)"
    using bwrite_ok [OF w(1) hw aw] by (auto simp: w(6))
  have "b_data (bufs x i) = v" by (subst x(7)) (simp add: w(6))
  then have synced: "b_dirty (bufs x i) \<or> b_data (bufs x i) = disk x d n" by (simp add: x(5))
  have ax: "at d n (bufs x i)" using aw by (subst x(7)) (simp add: at_def)
  obtain u where u: "brelse i x = Ok u" "bc_inv u" "bio_frame x u" "disk u = disk x" "disk_writes u = disk_writes x"
      "core (bufs u i) = core ((bufs x i)\<lparr>b_lock := (b_lock (bufs x i))\<lparr>sl_locked := 0, sl_pid := 0\<rparr>, refcnt := 0\<rparr>)"
      "\<forall>j. j \<noteq> i \<longrightarrow> core (bufs u j) = core (bufs x j)"
    using brelse_ok [OF x(2,3) ax synced] by blast
  have others: "bufs x j = bufs s j" if "j \<noteq> i" for j using that by (subst x(7)) (simp add: w(6) t(5))
  have "\<not> is_locked (bufs u j) \<and> \<not> b_dirty (bufs u j)" if "j < NBUF" for j
    using core_eqD(9,10) [OF u(6)] core_eqD(9,10) [OF u(7) [rule_format]] idle that x(8) others
    by (cases "j = i") (auto simp: idle_def is_locked_def)
  with u(2) have "idle u" by (simp add: idle_def)
  moreover have "write_block d n v s = Ok u" by (simp add: write_block_def t(1) x(1) u(1) w_def [symmetric])
  moreover have "bio_frame s u" by (rule bio_frame_trans [OF t(6) bio_frame_trans [OF w(3) bio_frame_trans [OF x(4) u(3)]]])
  ultimately show ?thesis using t(7,8) w(4,5) x(5,6) u(4,5) by auto
qed

text \<open>At boot: all buffers zero, then \<^verbatim>\<open>binit\<close>.\<close>

lemma binit_core:
  assumes "\<And>i. i < NBUF \<Longrightarrow> bufs s i = zero_buf"
  shows "i < NBUF \<Longrightarrow> core (bufs (binit s) i) = core zero_buf" and "bio_frame s (binit s)"
    and "disk (binit s) = disk s"
proof -
  let ?s = "upd_buf NBUF (\<lambda>x. x\<lparr>b_prev := NBUF, b_next := NBUF\<rparr>) s"
  have step: "bio_frame t (binit_buf k t)" "disk (binit_buf k t) = disk t" for k and t :: "'a bio_st_scheme"
    by (simp_all add: binit_buf_def upd_lock_def Let_def) (simp add: upd_buf_def)
  have core_step: "core (bufs (binit_buf k t) i) = core zero_buf"
    if "core (bufs t i) = core zero_buf" for k i and t :: "'a bio_st_scheme"
  proof -
    have "core (bufs (binit_buf k t) i) = (if i = k
        then (core (bufs t i))\<lparr>b_lock := initsleeplock ''buffer'' (b_lock (bufs t i))\<rparr> else core (bufs t i))"
      by (auto simp: binit_buf_def upd_lock_def upd_buf_def core_def Let_def)
    moreover have "(core zero_buf)\<lparr>b_lock := initsleeplock ''buffer'' (b_lock zero_buf)\<rparr> = core zero_buf"
      by (simp add: initsleeplock_def core_def zero_buf_def)
    ultimately show ?thesis by (simp only: that core_eqD(4) [OF that] if_cancel)
  qed
  have "(\<forall>i < NBUF. core (bufs (fold binit_buf ks ?s) i) = core zero_buf) \<and> bio_frame s (fold binit_buf ks ?s) \<and>
    disk (fold binit_buf ks ?s) = disk s" for ks
  proof (induction ks rule: rev_induct)
    case Nil
    show ?case using assms by (auto simp: core_def) (auto simp: upd_buf_def)
  next
    case (snoc k ks)
    let ?t = "fold binit_buf ks ?s"
    have "bio_frame s (binit_buf k ?t)" using bio_frame_trans [OF _ step(1)] snoc by blast
    then show ?case using snoc core_step [of ?t] step(2) [of k ?t] by simp
  qed
  then show "i < NBUF \<Longrightarrow> core (bufs (binit s) i) = core zero_buf" "bio_frame s (binit s)" "disk (binit s) = disk s"
    unfolding binit_def by blast+
qed

lemma binit_idle:
  assumes "\<And>i. i < NBUF \<Longrightarrow> bufs s i = zero_buf" and "idequeue s = None"
  shows "idle (binit s)"
proof -
  have z: "at d n (bufs (binit s) i) \<longleftrightarrow> d = 0 \<and> n = 0" "buf_inv D (bufs (binit s) i)"
      "\<not> is_locked (bufs (binit s) i)" "\<not> b_dirty (bufs (binit s) i)" if "i < NBUF" for i d n D
    using core_eqD [OF binit_core(1) [of s i]] assms(1) that
    by (auto simp: zero_buf_def at_def buf_inv_def is_locked_def)
  moreover have "idequeue (binit s) = None"
    using bio_frame_fields(8) [OF binit_core(2) [of s]] assms by simp
  ultimately show ?thesis
    using binit_ring [of s] unfolding idle_def bc_inv_def by blast
qed

section \<open>Properties\<close>

text \<open>
  A client's requests to the cache, run one after the other, and the reference: a map from blocks to
  contents.
\<close>

datatype blk_req = ReadBlk uint uint | WriteBlk uint uint block

primrec cache_run :: "blk_req list \<Rightarrow> 'a bio_st_scheme \<Rightarrow> (block list \<times> 'a bio_st_scheme) result" where
  "cache_run [] s = Ok ([], s)"
| "cache_run (r # rs) s =
     (case r of
        ReadBlk d n \<Rightarrow> rbind (read_block d n s) (\<lambda>(v, s). rbind (cache_run rs s) (\<lambda>(vs, s). Ok (v # vs, s)))
      | WriteBlk d n v \<Rightarrow> rbind (write_block d n v s) (cache_run rs))"

primrec map_run :: "blk_req list \<Rightarrow> (uint \<Rightarrow> uint \<Rightarrow> block) \<Rightarrow> block list \<times> (uint \<Rightarrow> uint \<Rightarrow> block)" where
  "map_run [] D = ([], D)"
| "map_run (r # rs) D =
     (case r of
        ReadBlk d n \<Rightarrow> (case map_run rs D of (vs, E) \<Rightarrow> (D d n # vs, E))
      | WriteBlk d n v \<Rightarrow> map_run rs (D(d := (D d)(n := v))))"

primrec req_usable :: "'a bio_st_scheme \<Rightarrow> blk_req \<Rightarrow> bool" where
  "req_usable s (ReadBlk d n) = usable s d n"
| "req_usable s (WriteBlk d n v) = usable s d n"

lemma req_usable_frame: "bio_frame s s' \<Longrightarrow> req_usable s' r = req_usable s r"
  by (cases r) (simp_all add: usable_frame)

lemma cache_run_refines:
  assumes "idle s" and "\<forall>r \<in> set rs. req_usable s r"
  shows "\<exists>s'. cache_run rs s = Ok (fst (map_run rs (disk s)), s') \<and> idle s' \<and> disk s' = snd (map_run rs (disk s))"
  using assms
proof (induction rs arbitrary: s)
  case Nil
  then show ?case by simp
next
  case (Cons r rs)
  show ?case
  proof (cases r)
    case (ReadBlk d n)
    with Cons.prems obtain t where t: "read_block d n s = Ok (disk s d n, t)" "idle t" "bio_frame s t" "disk t = disk s"
      using read_block_ok [of s d n] idle_view [of s d n] by (auto simp: usable_def)
    from Cons.IH [OF t(2)] Cons.prems(2) t(3) obtain s' where
      "cache_run rs t = Ok (fst (map_run rs (disk t)), s')" "idle s'" "disk s' = snd (map_run rs (disk t))"
      by (auto simp: req_usable_frame)
    with ReadBlk t show ?thesis by (auto split: prod.split)
  next
    case (WriteBlk d n v)
    with Cons.prems obtain t where t: "write_block d n v s = Ok t" "idle t" "bio_frame s t"
        "disk t = (disk s)(d := (disk s d)(n := v))"
      using write_block_ok [of s d n v] by auto
    from Cons.IH [OF t(2)] Cons.prems(2) t(3) obtain s' where
      "cache_run rs t = Ok (fst (map_run rs (disk t)), s')" "idle s'" "disk s' = snd (map_run rs (disk t))"
      by (auto simp: req_usable_frame)
    with WriteBlk t show ?thesis by auto
  qed
qed

text \<open>
  (C2) The buffer cache is transparent: starting from the state \<^verbatim>\<open>binit\<close> leaves, any sequence of reads
  and synchronous writes of usable blocks, in any order and touching any number of different blocks,
  completes without panic; each read returns what a plain map from blocks to contents would return,
  and at the end the disk equals that map.
\<close>

theorem cache_transparent:
  assumes "\<forall>i < NBUF. bufs s i = zero_buf" and "idequeue s = None" and "\<forall>r \<in> set rs. req_usable s r"
  shows "\<exists>s'. cache_run rs (binit s) = Ok (fst (map_run rs (disk s)), s') \<and>
    disk s' = snd (map_run rs (disk s)) \<and> bc_inv s'"
proof -
  have b: "bio_frame s (binit s)" "disk (binit s) = disk s" "idle (binit s)"
    using binit_core(2,3) [of s] binit_idle [of s] assms(1,2) by simp_all
  then obtain s' where "cache_run rs (binit s) = Ok (fst (map_run rs (disk s)), s')" "idle s'"
      "disk s' = snd (map_run rs (disk s))"
    using cache_run_refines [of "binit s" rs] assms(3) by (auto simp: req_usable_frame)
  then show ?thesis by (auto simp: idle_def)
qed

theorem cache_transparent_witness:
  "\<exists>s' vs. cache_run [WriteBlk 1 5 (\<lambda>_. 7), ReadBlk 0 5, ReadBlk 1 5] (binit bio0) = Ok (vs, s') \<and>
     vs = [\<lambda>_. 0, \<lambda>_. 7] \<and> disk s' 1 5 = (\<lambda>_. 7)"
proof -
  have "\<exists>s'. cache_run [WriteBlk 1 5 (\<lambda>_. 7), ReadBlk 0 5, ReadBlk 1 5] (binit bio0) =
        Ok (fst (map_run [WriteBlk 1 5 (\<lambda>_. 7), ReadBlk 0 5, ReadBlk 1 5] (disk bio0)), s') \<and>
      disk s' = snd (map_run [WriteBlk 1 5 (\<lambda>_. 7), ReadBlk 0 5, ReadBlk 1 5] (disk bio0)) \<and> bc_inv s'"
    by (rule cache_transparent) (simp_all add: bio0_def usable_def FSSIZE_def)
  then show ?thesis by (auto simp: bio0_def simp del: cache_run.simps)
qed

end
