(* ===== verification/Bcache_Spec.thy ===== *)
theory Bcache_Spec
  imports Bio
begin

text \<open>
  The contract of the buffer cache as the log and the file system use it.  A state of the cache is
  summarised by

  \<^item> \<open>view\<close>: the contents of every block;
  \<^item> \<open>dirties\<close>: the blocks pinned in the cache because the log has modified them;
  \<^item> \<open>lockset\<close>: the buffers some process holds.

  Each operation of \<^verbatim>\<open>Bio\<close> is specified by its effect on these three and on the disk.
\<close>

definition dirties :: "'a bio_st_scheme \<Rightarrow> (uint \<times> uint) set" where
  "dirties s = {(d, n). \<exists>i < NBUF. at d n (bufs s i) \<and> b_dirty (bufs s i)}"

definition lockset :: "'a bio_st_scheme \<Rightarrow> nat set" where
  "lockset s = {i. i < NBUF \<and> is_locked (bufs s i)}"

definition busy_block :: "'a bio_st_scheme \<Rightarrow> uint \<Rightarrow> uint \<Rightarrow> bool" where
  "busy_block s d n \<longleftrightarrow> (\<exists>i \<in> lockset s. at d n (bufs s i))"

lemma finite_lockset [simp]: "finite (lockset s)"
  by (simp add: lockset_def)

lemma finite_dirties [simp]: "finite (dirties s)"
proof -
  have "dirties s \<subseteq> (\<lambda>i. (b_dev (bufs s i), b_blockno (bufs s i))) ` {..<NBUF}"
    by (auto simp: dirties_def at_def)
  then show ?thesis by (rule finite_subset) simp
qed

lemma dirty_nonzero: "bc_inv s \<Longrightarrow> i < NBUF \<Longrightarrow> b_dirty (bufs s i) \<Longrightarrow> \<not> at 0 0 (bufs s i)"
  using bc_inv_buf [of s i] by (auto simp: buf_inv_def)

text \<open>There is a buffer to recycle as long as pinned and held buffers do not fill the cache.\<close>

lemma exists_clean:
  assumes "bc_inv s" and "card (dirties s) + card (lockset s) < NBUF"
  shows "\<exists>i < NBUF. \<not> is_locked (bufs s i) \<and> \<not> b_dirty (bufs s i)"
proof (rule ccontr)
  let ?D = "{i. i < NBUF \<and> b_dirty (bufs s i)}" and ?f = "\<lambda>i. (b_dev (bufs s i), b_blockno (bufs s i))"
  assume "\<not> ?thesis"
  then have "{..<NBUF} \<subseteq> ?D \<union> lockset s" by (auto simp: lockset_def)
  then have "NBUF \<le> card (?D \<union> lockset s)" using card_mono [of "?D \<union> lockset s" "{..<NBUF}"] by simp
  also have "\<dots> \<le> card ?D + card (lockset s)" by (rule card_Un_le)
  also have "card ?D \<le> card (dirties s)"
  proof (rule card_inj_on_le [of ?f])
    show "inj_on ?f ?D"
    proof (rule inj_onI)
      fix i j
      assume i: "i \<in> ?D" and j: "j \<in> ?D" and e: "?f i = ?f j"
      have "\<not> (b_dev (bufs s i) = 0 \<and> b_blockno (bufs s i) = 0)"
        using dirty_nonzero [OF assms(1), of i] i by (simp add: at_def)
      then show "i = j"
        using bc_inv_unique [OF assms(1), of i j "b_dev (bufs s i)" "b_blockno (bufs s i)"] i j e by (simp add: at_def)
    qed
    show "?f ` ?D \<subseteq> dirties s" by (auto simp: dirties_def at_def)
  qed simp
  finally show False using assms(2) by simp
qed

lemma lockset_upd:
  "i < NBUF \<Longrightarrow> bufs s' = (bufs s)(i := b) \<Longrightarrow>
   lockset s' = (if is_locked b then insert i (lockset s) else lockset s - {i})"
  by (auto simp: lockset_def split: if_splits)

lemma held_lockset: "held i s \<Longrightarrow> i \<in> lockset s"
  using held_locked [of i s] by (simp add: lockset_def held_def)

lemma bread_tx:
  assumes inv: "bc_inv s" and us: "usable s d n" and free: "\<not> busy_block s d n"
    and room: "card (dirties s) + card (lockset s) < NBUF \<or> (d, n) \<in> dirties s"
  shows "\<exists>i s'. bread d n s = Ok (i, s') \<and> bc_inv s' \<and> held i s' \<and> at d n (bufs s' i) \<and>
    b_data (bufs s' i) = view s d n \<and> (b_dirty (bufs s' i) \<longleftrightarrow> (d, n) \<in> dirties s) \<and>
    (\<forall>j. j \<noteq> i \<longrightarrow> bufs s' j = bufs s j) \<and> i \<notin> lockset s \<and> lockset s' = insert i (lockset s) \<and>
    dirties s' = dirties s \<and> (\<forall>e m. e \<le> 1 \<longrightarrow> view s' e m = view s e m) \<and>
    disk s' = disk s \<and> disk_writes s' = disk_writes s \<and> bio_frame s s'"
proof -
  have "(\<exists>j < NBUF. at d n (bufs s j)) \<or> (\<exists>j < NBUF. \<not> is_locked (bufs s j) \<and> \<not> b_dirty (bufs s j))"
    using room exists_clean [OF inv] by (auto simp: dirties_def)
  moreover have "\<not> is_locked (bufs s j)" if "j < NBUF" "at d n (bufs s j)" for j
    using free that by (auto simp: busy_block_def lockset_def)
  ultimately obtain i b s' where r: "bread d n s = Ok (i, s')" "bc_inv s'" "held i s'" "at d n b" "bufs s' = (bufs s)(i := b)"
      "bio_frame s s'" "disk s' = disk s" "disk_writes s' = disk_writes s" "\<not> is_locked (bufs s i)"
      "b_data b = view s d n" "\<forall>e m. e \<le> 1 \<longrightarrow> view s' e m = view s e m"
      "b_dirty b \<longleftrightarrow> b_dirty (bufs s i)" "b_dirty b \<longrightarrow> at d n (bufs s i)"
    using bread_ok [OF inv] us unfolding usable_def by blast
  have i: "i < NBUF" using r(3) by (simp add: held_def)
  have bi: "bufs s' i = b" by (simp add: r(5))
  have same: "at e m (bufs s' j) \<and> b_dirty (bufs s' j) \<longleftrightarrow> at e m (bufs s j) \<and> b_dirty (bufs s j)" for e m j
    using r(4,12,13) by (auto simp: r(5) at_def)
  then have dirt: "dirties s' = dirties s" by (simp add: dirties_def)
  have "b_dirty b \<longleftrightarrow> (d, n) \<in> dirties s"
  proof
    show "b_dirty b \<Longrightarrow> (d, n) \<in> dirties s" using r(12,13) i by (auto simp: dirties_def)
    assume "(d, n) \<in> dirties s"
    then obtain j where j: "j < NBUF" "at d n (bufs s' j)" "b_dirty (bufs s' j)"
      using same by (auto simp: dirties_def dirt [symmetric])
    have "j = i" using bc_inv_unique [OF r(2) j(1) i j(2)] r(4) us by (auto simp: bi usable_def)
    with j show "b_dirty b" by (simp add: bi)
  qed
  moreover have "is_locked b" using held_locked [OF r(3)] by (simp add: bi)
  then have "lockset s' = insert i (lockset s)" using lockset_upd [OF i r(5)] by simp
  moreover have "i \<notin> lockset s" using r(9) by (simp add: lockset_def)
  ultimately show ?thesis using r dirt bi by (intro exI [of _ i] exI [of _ s']) auto
qed

lemma set_data_tx:
  fixes v :: block
  assumes inv: "bc_inv s" and h: "held i s" and a: "at d n (bufs s i)"
  defines "s' \<equiv> set_data i v s"
  shows "bc_inv s'" "held j s \<Longrightarrow> held j s'" "at d n (bufs s' i)" "b_data (bufs s' i) = v"
    "b_dirty (bufs s' i) = b_dirty (bufs s i)" "j \<noteq> i \<Longrightarrow> bufs s' j = bufs s j" "lockset s' = lockset s"
    "dirties s' = dirties s" "e \<le> 1 \<Longrightarrow> view s' e m = (if e = d \<and> m = n then v else view s e m)"
    "disk s' = disk s" "disk_writes s' = disk_writes s" "bio_frame s s'"
proof -
  note r = set_data_ok [OF inv h a, where v = v, folded s'_def]
  have i: "i < NBUF" using h by (simp add: held_def)
  show "bc_inv s'" "held j s \<Longrightarrow> held j s'" "disk s' = disk s" "disk_writes s' = disk_writes s" "bio_frame s s'"
    "e \<le> 1 \<Longrightarrow> view s' e m = (if e = d \<and> m = n then v else view s e m)"
    using r(1-5,7) by simp_all
  show "at d n (bufs s' i)" "b_data (bufs s' i) = v" "b_dirty (bufs s' i) = b_dirty (bufs s i)"
    "j \<noteq> i \<Longrightarrow> bufs s' j = bufs s j"
    using a by (simp_all add: r(6) at_def)
  show "lockset s' = lockset s"
    using lockset_upd [OF i r(6)] held_locked [OF h] held_lockset [OF h] by (auto simp: is_locked_def)
  show "dirties s' = dirties s" by (auto simp: dirties_def r(6) at_def split: if_splits)
qed

lemma held_other:
  "held j s \<Longrightarrow> bio_frame s s' \<Longrightarrow> core (bufs s' j) = core (bufs s j) \<Longrightarrow> held j s'"
  using bio_frame_mypid [of s s'] bio_frame_fields(9) [of s s'] core_eqD [of "bufs s' j" "bufs s j"]
  by (simp add: held_def holdingsleep_def)

lemma bwrite_tx:
  assumes inv: "bc_inv s" and h: "held i s" and a: "at d n (bufs s i)" and f: "\<not> ide_fails s d n"
  shows "\<exists>s'. bwrite i s = Ok s' \<and> bc_inv s' \<and> held i s' \<and> at d n (bufs s' i) \<and> b_data (bufs s' i) = b_data (bufs s i) \<and>
    \<not> b_dirty (bufs s' i) \<and> (\<forall>j. j \<noteq> i \<longrightarrow> bufs s' j = bufs s j) \<and> lockset s' = lockset s \<and>
    dirties s' = dirties s - {(d, n)} \<and> (\<forall>e m. e \<le> 1 \<longrightarrow> view s' e m = view s e m) \<and>
    disk s' = (disk s)(d := (disk s d)(n := b_data (bufs s i))) \<and>
    disk_writes s' = disk_writes s @ [(d, n, b_data (bufs s i))] \<and> bio_frame s s'"
proof -
  obtain s' where r: "bwrite i s = Ok s'" "bc_inv s'" "held i s'" "bio_frame s s'"
      "disk s' = (disk s)(d := (disk s d)(n := b_data (bufs s i)))"
      "disk_writes s' = disk_writes s @ [(d, n, b_data (bufs s i))]"
      "bufs s' = (bufs s)(i := (bufs s i)\<lparr>flags := flags (bufs s' i), b_qnext := None\<rparr>)" "\<not> b_dirty (bufs s' i)"
      "\<forall>e m. e \<le> 1 \<longrightarrow> view s' e m = view s e m"
    using bwrite_ok [OF assms] by blast
  define b where "b = bufs s' i"
  have i: "i < NBUF" "b_valid (bufs s i)" using h by (simp_all add: held_def)
  have others: "bufs s' j = bufs s j" if "j \<noteq> i" for j using that by (subst r(7)) simp
  have bs: "bufs s' = (bufs s)(i := b)" using others by (auto simp: b_def)
  have e: "b = (bufs s i)\<lparr>flags := flags b, b_qnext := None\<rparr>" using fun_cong [OF r(7), of i] by (simp add: b_def)
  have b: "at d n b" "b_data b = b_data (bufs s i)" "is_locked b"
    using a arg_cong [OF e, of b_dev] arg_cong [OF e, of b_blockno] arg_cong [OF e, of b_data] held_locked [OF r(3)]
    by (simp_all add: at_def b_def)
  have nz: "\<not> (d = 0 \<and> n = 0)" using bc_inv_buf [OF inv i(1)] i(2) a by (auto simp: buf_inv_def)
  have "\<not> at d n (bufs s j)" if "j < NBUF" "j \<noteq> i" for j
    using bc_inv_unique [OF inv that(1) i(1) _ a nz] that(2) by blast
  then have "dirties s' = dirties s - {(d, n)}"
    using r(8) i(1) a unfolding dirties_def bs by (fastforce simp: b_def [symmetric] at_def split: if_splits)
  moreover have "lockset s' = lockset s"
    using lockset_upd [OF i(1) bs] b(3) held_lockset [OF h] by auto
  ultimately show ?thesis using r b others by (intro exI [of _ s']) (auto simp: b_def)
qed

lemma brelse_tx:
  assumes inv: "bc_inv s" and h: "held i s" and a: "at d n (bufs s i)"
    and clean: "b_dirty (bufs s i) \<or> b_data (bufs s i) = disk s d n"
  shows "\<exists>s'. brelse i s = Ok s' \<and> bc_inv s' \<and> (\<forall>j. j \<noteq> i \<longrightarrow> core (bufs s' j) = core (bufs s j)) \<and>
    lockset s' = lockset s - {i} \<and> dirties s' = dirties s \<and> (\<forall>e m. e \<le> 1 \<longrightarrow> view s' e m = view s e m) \<and>
    disk s' = disk s \<and> disk_writes s' = disk_writes s \<and> bio_frame s s'"
proof -
  obtain s' where r: "brelse i s = Ok s'" "bc_inv s'" "bio_frame s s'" "disk s' = disk s" "disk_writes s' = disk_writes s"
      "core (bufs s' i) = core ((bufs s i)\<lparr>b_lock := (b_lock (bufs s i))\<lparr>sl_locked := 0, sl_pid := 0\<rparr>, refcnt := 0\<rparr>)"
      "\<forall>j. j \<noteq> i \<longrightarrow> core (bufs s' j) = core (bufs s j)" "\<forall>e m. e \<le> 1 \<longrightarrow> view s' e m = view s e m"
    using brelse_ok [OF assms] by blast
  have i: "at e m (bufs s' i) = at e m (bufs s i)" "b_dirty (bufs s' i) = b_dirty (bufs s i)" "\<not> is_locked (bufs s' i)" for e m
    using core_eqD [OF r(6)] by (simp_all add: at_def is_locked_def)
  have j: "at e m (bufs s' j) = at e m (bufs s j)" "b_dirty (bufs s' j) = b_dirty (bufs s j)"
      "is_locked (bufs s' j) = is_locked (bufs s j)" if "j \<noteq> i" for e m j
    using core_eqD(7,9,10) [of "bufs s' j" "bufs s j"] r(7) that by simp_all
  have "at e m (bufs s' j) \<and> b_dirty (bufs s' j) \<longleftrightarrow> at e m (bufs s j) \<and> b_dirty (bufs s j)" for e m j
    using i j by (cases "j = i") auto
  then have "dirties s' = dirties s" unfolding dirties_def by simp
  moreover have "is_locked (bufs s' x) \<longleftrightarrow> x \<noteq> i \<and> is_locked (bufs s x)" for x using i(3) j(3) by (cases "x = i") simp_all
  then have "lockset s' = lockset s - {i}" unfolding lockset_def by auto
  ultimately show ?thesis using r by blast
qed


section \<open>Sequences of block writes\<close>

text \<open>
  A cache is quiet when no buffer is held.  \<open>writes_to d ws s s'\<close> says that a terminated operation
  led from one quiet state to another and sent exactly the writes \<open>ws\<close> to device \<open>d\<close>, in that order.
\<close>

definition wr :: "(uint \<times> block) list \<Rightarrow> (uint \<Rightarrow> block) \<Rightarrow> (uint \<Rightarrow> block)" where
  "wr ws D = fold (\<lambda>(n, v) D. D(n := v)) ws D"

lemma wr_simps [simp]: "wr [] D = D" "wr ((n, v) # ws) D = wr ws (D(n := v))" "wr (ws @ ws') D = wr ws' (wr ws D)"
  by (simp_all add: wr_def)

lemma wr_other: "n \<notin> fst ` set ws \<Longrightarrow> wr ws D n = D n"
  by (induction ws arbitrary: D) auto

lemma wr_cong: "D n = D' n \<Longrightarrow> wr ws D n = wr ws D' n"
proof (induction ws arbitrary: D D')
  case (Cons w ws)
  obtain m v where w: "w = (m, v)" by (cases w)
  have "(D(m := v)) n = (D'(m := v)) n" using Cons.prems by simp
  then show ?case unfolding w wr_simps by (rule Cons.IH)
qed simp

lemma wr_map:
  "inj_on f (set ks) \<Longrightarrow> distinct ks \<Longrightarrow> k \<in> set ks \<Longrightarrow> wr (map (\<lambda>k. (f k, g k)) ks) D (f k) = g k"
proof (induction ks arbitrary: D)
  case (Cons a ks)
  show ?case
  proof (cases "k = a")
    case True
    with Cons.prems have "f k \<notin> fst ` set (map (\<lambda>k. (f k, g k)) ks)" by (auto simp: inj_on_def)
    with True show ?thesis by (simp add: wr_other)
  next
    case False
    then show ?thesis using Cons by (simp add: inj_on_insert)
  qed
qed simp

lemma apply_writes_dev: "apply_writes (map (Pair d) ws) D = D(d := wr ws (D d))"
  by (induction ws arbitrary: D) (auto simp: apply_writes_def apply_write_def fun_upd_def)

definition quiet :: "'a bio_st_scheme \<Rightarrow> bool" where
  "quiet s \<longleftrightarrow> bc_inv s \<and> lockset s = {}"

definition writes_to :: "uint \<Rightarrow> (uint \<times> block) list \<Rightarrow> 'a bio_st_scheme \<Rightarrow> 'a bio_st_scheme \<Rightarrow> bool" where
  "writes_to d ws s s' \<longleftrightarrow> quiet s' \<and> bio_frame s s' \<and> disk s' = (disk s)(d := wr ws (disk s d)) \<and>
     disk_writes s' = disk_writes s @ map (Pair d) ws \<and> view s' d = wr ws (view s d) \<and>
     (\<forall>e m. e \<le> 1 \<longrightarrow> e \<noteq> d \<longrightarrow> view s' e m = view s e m)"

lemma writes_to_refl [simp]: "quiet s \<Longrightarrow> writes_to d [] s s"
  by (simp add: writes_to_def)

lemma writes_to_trans:
  "writes_to d ws s t \<Longrightarrow> writes_to d ws' t u \<Longrightarrow> writes_to d (ws @ ws') s u"
  unfolding writes_to_def using bio_frame_trans by auto

lemma view_clean:
  assumes "bc_inv s" and "\<not> busy_block s d n" and "(d, n) \<notin> dirties s" and "d \<le> 1" "\<not> (d = 0 \<and> n = 0)"
  shows "view s d n = disk s d n"
proof (cases "find (\<lambda>i. at d n (bufs s i) \<and> b_valid (bufs s i)) [0..<NBUF]")
  case None
  then show ?thesis by (simp add: view_def and_1_small assms(4))
next
  case (Some i)
  then have i: "i < NBUF" "at d n (bufs s i)" "b_valid (bufs s i)" by (auto simp: find_upt_Some)
  have "\<not> is_locked (bufs s i)" using assms(2) i by (auto simp: busy_block_def lockset_def)
  moreover have "\<not> b_dirty (bufs s i)" using assms(3) i by (auto simp: dirties_def)
  ultimately have "b_data (bufs s i) = disk s d n"
    using bc_inv_buf [OF assms(1) i(1)] i(2,3) by (auto simp: buf_inv_def at_def)
  then show ?thesis unfolding view_def Some by simp
qed

lemma two_breads:
  assumes q: "quiet s" and us: "usable s d a" "usable s d b" and ab: "a \<noteq> b"
    and room: "card (dirties s) < NBUF" "(d, b) \<in> dirties s \<or> card (dirties s) + 1 < NBUF"
  shows "\<exists>i j t u. bread d a s = Ok (i, t) \<and> bread d b t = Ok (j, u) \<and> bc_inv u \<and> i \<noteq> j \<and> held i u \<and> held j u \<and>
    at d a (bufs u i) \<and> at d b (bufs u j) \<and> b_data (bufs u i) = view s d a \<and> b_data (bufs u j) = view s d b \<and>
    (b_dirty (bufs u i) \<longleftrightarrow> (d, a) \<in> dirties s) \<and> (b_dirty (bufs u j) \<longleftrightarrow> (d, b) \<in> dirties s) \<and>
    lockset u = {i, j} \<and> dirties u = dirties s \<and> (\<forall>e m. e \<le> 1 \<longrightarrow> view u e m = view s e m) \<and>
    disk u = disk s \<and> disk_writes u = disk_writes s \<and> bio_frame s t \<and> bio_frame s u"
proof -
  have inv: "bc_inv s" and ls: "lockset s = {}" using q by (simp_all add: quiet_def)
  have nb: "\<not> busy_block s d a" by (simp add: busy_block_def ls)
  obtain i t where t: "bread d a s = Ok (i, t)" "bc_inv t" "held i t" "at d a (bufs t i)"
      "b_data (bufs t i) = view s d a" "b_dirty (bufs t i) \<longleftrightarrow> (d, a) \<in> dirties s"
      "lockset t = insert i (lockset s)" "dirties t = dirties s" "\<forall>e m. e \<le> 1 \<longrightarrow> view t e m = view s e m"
      "disk t = disk s" "disk_writes t = disk_writes s" "bio_frame s t"
    using bread_tx [OF inv us(1) nb] room(1) by (auto simp: ls)
  have nb2: "\<not> busy_block t d b" using t(4) ab by (auto simp: busy_block_def t(7) ls at_def)
  have us2: "usable t d b" using us(2) by (simp add: usable_frame [OF t(12)])
  have "card (dirties t) + card (lockset t) < NBUF \<or> (d, b) \<in> dirties t"
    using room(2) by (auto simp: t(7,8) ls)
  then obtain j u where u: "bread d b t = Ok (j, u)" "bc_inv u" "held j u" "at d b (bufs u j)"
      "b_data (bufs u j) = view t d b" "b_dirty (bufs u j) \<longleftrightarrow> (d, b) \<in> dirties t"
      "\<forall>k. k \<noteq> j \<longrightarrow> bufs u k = bufs t k" "j \<notin> lockset t"
      "lockset u = insert j (lockset t)" "dirties u = dirties t" "\<forall>e m. e \<le> 1 \<longrightarrow> view u e m = view t e m"
      "disk u = disk t" "disk_writes u = disk_writes t" "bio_frame t u"
    using bread_tx [OF t(2) us2 nb2] by blast
  have ij: "i \<noteq> j" using u(8) by (auto simp: t(7))
  then have bi: "bufs u i = bufs t i" using u(7) by simp
  have d1: "d \<le> 1" using us(1) by (simp add: usable_def)
  have "held i u" by (rule held_other [OF t(3) u(14)]) (simp add: bi)
  moreover have "lockset u = {i, j}" using u(9) t(7) ls by auto
  moreover have "view u e m = view s e m" if "e \<le> 1" for e m using t(9) u(11) that by simp
  moreover have "b_data (bufs u j) = view s d b" using u(5) t(9) d1 by simp
  moreover have "bio_frame s u" by (rule bio_frame_trans [OF t(12) u(14)])
  ultimately show ?thesis using t(1,4,5,6,8,10,11,12) u(1-4,6,10,12,13) ij bi
    by (intro exI [of _ i] exI [of _ j] exI [of _ t] exI [of _ u]) simp
qed

text \<open>Writing one held buffer from another and releasing both, the source first.\<close>

lemma copy_finish:
  assumes inv: "bc_inv u" and h: "held x u" "held y u" and xy: "x \<noteq> y" and a: "at d n (bufs u x)" "at d m (bufs u y)"
    and nm: "n \<noteq> m" and ls: "lockset u = {x, y}" and f: "\<not> ide_fails u d n" and d1: "d \<le> 1"
    and src: "b_dirty (bufs u y) \<or> b_data (bufs u y) = disk u d m"
  shows "\<exists>p q s'. bwrite x (set_data x (b_data (bufs u y)) u) = Ok p \<and> brelse y p = Ok q \<and> brelse x q = Ok s' \<and>
     bc_inv s' \<and> lockset s' = {} \<and> bio_frame u s' \<and> dirties s' = dirties u - {(d, n)} \<and>
     disk s' = (disk u)(d := (disk u d)(n := b_data (bufs u y))) \<and> disk_writes s' = disk_writes u @ [(d, n, b_data (bufs u y))] \<and>
     (\<forall>e k. e \<le> 1 \<longrightarrow> view s' e k = (if e = d \<and> k = n then b_data (bufs u y) else view u e k))"
proof -
  let ?v = "b_data (bufs u y)"
  define w where "w = set_data x ?v u"
  note w = set_data_tx [OF inv h(1) a(1), where v = ?v, folded w_def]
  have hx: "held x w" and hy: "held y w" using w(2) h by simp_all
  have fw: "\<not> ide_fails w d n" using f bio_frame_fields(10) [OF w(12)] by simp
  obtain p where p: "bwrite x w = Ok p" "bc_inv p" "held x p" "at d n (bufs p x)" "b_data (bufs p x) = ?v"
      "\<not> b_dirty (bufs p x)" "\<forall>j. j \<noteq> x \<longrightarrow> bufs p j = bufs w j" "lockset p = lockset w"
      "dirties p = dirties w - {(d, n)}" "\<forall>e k. e \<le> 1 \<longrightarrow> view p e k = view w e k"
      "disk p = (disk w)(d := (disk w d)(n := ?v))" "disk_writes p = disk_writes w @ [(d, n, ?v)]" "bio_frame w p"
    using bwrite_tx [OF w(1) hx w(3) fw] by (auto simp: w(4))
  have py: "bufs p y = bufs u y" using p(7) w(6) xy by simp
  have hyp: "held y p" by (rule held_other [OF hy p(13)]) (use p(7) xy in simp)
  have dp: "disk p d m = disk u d m" using nm by (simp add: p(11) w(10))
  obtain q where q: "brelse y p = Ok q" "bc_inv q" "\<forall>j. j \<noteq> y \<longrightarrow> core (bufs q j) = core (bufs p j)"
      "lockset q = lockset p - {y}" "dirties q = dirties p" "\<forall>e k. e \<le> 1 \<longrightarrow> view q e k = view p e k"
      "disk q = disk p" "disk_writes q = disk_writes p" "bio_frame p q"
    using brelse_tx [OF p(2) hyp, of d m] a(2) src by (auto simp: py dp)
  have cx: "core (bufs q x) = core (bufs p x)" using q(3) xy by simp
  have hxq: "held x q" by (rule held_other [OF p(3) q(9) cx])
  have "at d n (bufs q x)" "b_data (bufs q x) = disk q d n"
    using p(4,5) core_eqD(6,7) [OF cx] by (simp_all add: q(7) p(11))
  then obtain s' where s': "brelse x q = Ok s'" "bc_inv s'" "lockset s' = lockset q - {x}" "dirties s' = dirties q"
      "\<forall>e k. e \<le> 1 \<longrightarrow> view s' e k = view q e k" "disk s' = disk q" "disk_writes s' = disk_writes q" "bio_frame q s'"
    using brelse_tx [OF q(2) hxq] by blast
  have "bio_frame u s'" using w(12) p(13) q(9) s'(8) by (blast intro: bio_frame_trans)
  moreover have "lockset s' = {}" using s'(3) q(4) p(8) w(7) ls by auto
  moreover have "view s' e k = (if e = d \<and> k = n then ?v else view u e k)" if "e \<le> 1" for e k
    using s'(5) q(6) p(10) w(9) that by simp
  ultimately show ?thesis using p(1,9,11,12) q(1,5,7,8) s'(1,2,4,6,7) w(8,10,11)
    by (intro exI [of _ p] exI [of _ q] exI [of _ s']) (simp add: w_def)
qed

text \<open>Copying the contents of one block to another: first buffer to second, and second to first.\<close>

lemma quiet_src:
  assumes "quiet s" "usable s d n"
  shows "(d, n) \<in> dirties s \<or> view s d n = disk s d n"
  using view_clean [of s d n] assms by (auto simp: quiet_def busy_block_def usable_def)

lemma copy_second:
  assumes q: "quiet s" and us: "usable s d a" "usable s d b" and ab: "a \<noteq> b"
    and room: "card (dirties s) < NBUF" "(d, b) \<in> dirties s \<or> card (dirties s) + 1 < NBUF"
  shows "\<exists>i j t u p r s'. bread d a s = Ok (i, t) \<and> bread d b t = Ok (j, u) \<and> bio_frame s t \<and> bio_frame s u \<and>
     bwrite j (set_data j (b_data (bufs u i)) u) = Ok p \<and> brelse i p = Ok r \<and> brelse j r = Ok s' \<and>
     writes_to d [(b, view s d a)] s s' \<and> dirties s' = dirties s - {(d, b)}"
proof -
  obtain i j t u where u: "bread d a s = Ok (i, t)" "bread d b t = Ok (j, u)" "bc_inv u" "i \<noteq> j" "held i u" "held j u"
    "at d a (bufs u i)" "at d b (bufs u j)" "b_data (bufs u i) = view s d a" "b_data (bufs u j) = view s d b"
    "b_dirty (bufs u i) \<longleftrightarrow> (d, a) \<in> dirties s" "b_dirty (bufs u j) \<longleftrightarrow> (d, b) \<in> dirties s"
    "lockset u = {i, j}" "dirties u = dirties s" "\<forall>e m. e \<le> 1 \<longrightarrow> view u e m = view s e m"
    "disk u = disk s" "disk_writes u = disk_writes s" "bio_frame s t" "bio_frame s u"
    using two_breads [OF assms] by blast
  have d1: "d \<le> 1" and f: "\<not> ide_fails u d b" using us bio_frame_fields(10) [OF u(19)] by (simp_all add: usable_def)
  have src: "b_dirty (bufs u i) \<or> b_data (bufs u i) = disk u d a"
    using quiet_src [OF q us(1)] u(11) unfolding u(9,16) by blast
  have ls: "lockset u = {j, i}" using u(13) by auto
  obtain p r s' where s': "bwrite j (set_data j (b_data (bufs u i)) u) = Ok p" "brelse i p = Ok r" "brelse j r = Ok s'"
     "bc_inv s'" "lockset s' = {}" "bio_frame u s'" "dirties s' = dirties u - {(d, b)}"
     "disk s' = (disk u)(d := (disk u d)(b := b_data (bufs u i)))" "disk_writes s' = disk_writes u @ [(d, b, b_data (bufs u i))]"
     "\<forall>e k. e \<le> 1 \<longrightarrow> view s' e k = (if e = d \<and> k = b then b_data (bufs u i) else view u e k)"
    using copy_finish [OF u(3,6,5) u(4) [symmetric] u(8,7) ab [symmetric] ls f d1 src] by blast
  have "view s' d = (view s d)(b := view s d a)" using s'(10) d1 u(9,15) by auto
  then have "writes_to d [(b, view s d a)] s s'"
    using s'(4-9,10) u(9,15-17) bio_frame_trans [OF u(19) s'(6)] by (simp add: writes_to_def quiet_def)
  then show ?thesis using u(1,2,14,18,19) s'(1,2,3,7) by fastforce
qed

lemma copy_first:
  assumes q: "quiet s" and us: "usable s d a" "usable s d b" and ab: "a \<noteq> b"
    and room: "card (dirties s) < NBUF" "(d, b) \<in> dirties s \<or> card (dirties s) + 1 < NBUF"
  shows "\<exists>i j t u p r s'. bread d a s = Ok (i, t) \<and> bread d b t = Ok (j, u) \<and> bio_frame s t \<and> bio_frame s u \<and>
     bwrite i (set_data i (b_data (bufs u j)) u) = Ok p \<and> brelse j p = Ok r \<and> brelse i r = Ok s' \<and>
     writes_to d [(a, view s d b)] s s' \<and> dirties s' = dirties s - {(d, a)}"
proof -
  obtain i j t u where u: "bread d a s = Ok (i, t)" "bread d b t = Ok (j, u)" "bc_inv u" "i \<noteq> j" "held i u" "held j u"
    "at d a (bufs u i)" "at d b (bufs u j)" "b_data (bufs u i) = view s d a" "b_data (bufs u j) = view s d b"
    "b_dirty (bufs u i) \<longleftrightarrow> (d, a) \<in> dirties s" "b_dirty (bufs u j) \<longleftrightarrow> (d, b) \<in> dirties s"
    "lockset u = {i, j}" "dirties u = dirties s" "\<forall>e m. e \<le> 1 \<longrightarrow> view u e m = view s e m"
    "disk u = disk s" "disk_writes u = disk_writes s" "bio_frame s t" "bio_frame s u"
    using two_breads [OF assms] by blast
  have d1: "d \<le> 1" and f: "\<not> ide_fails u d a" using us bio_frame_fields(10) [OF u(19)] by (simp_all add: usable_def)
  have src: "b_dirty (bufs u j) \<or> b_data (bufs u j) = disk u d b"
    using quiet_src [OF q us(2)] u(12) unfolding u(10,16) by blast
  obtain p r s' where s': "bwrite i (set_data i (b_data (bufs u j)) u) = Ok p" "brelse j p = Ok r" "brelse i r = Ok s'"
     "bc_inv s'" "lockset s' = {}" "bio_frame u s'" "dirties s' = dirties u - {(d, a)}"
     "disk s' = (disk u)(d := (disk u d)(a := b_data (bufs u j)))" "disk_writes s' = disk_writes u @ [(d, a, b_data (bufs u j))]"
     "\<forall>e k. e \<le> 1 \<longrightarrow> view s' e k = (if e = d \<and> k = a then b_data (bufs u j) else view u e k)"
    using copy_finish [OF u(3,5,6,4,7,8) ab u(13) f d1 src] by blast
  have "view s' d = (view s d)(a := view s d b)" using s'(10) d1 u(10,15) by auto
  then have "writes_to d [(a, view s d b)] s s'"
    using s'(4-9,10) u(10,15-17) bio_frame_trans [OF u(19) s'(6)] by (simp add: writes_to_def quiet_def)
  then show ?thesis using u(1,2,14,18,19) s'(1,2,3,7) by fastforce
qed

text \<open>Changing the contents of one block in place.\<close>

lemma modify_block:
  assumes q: "quiet s" and us: "usable s d n" and room: "card (dirties s) < NBUF"
  shows "\<exists>i t p s'. bread d n s = Ok (i, t) \<and> bio_frame s t \<and> b_data (bufs t i) = view s d n \<and>
     bwrite i (set_data i (f (view s d n)) t) = Ok p \<and> brelse i p = Ok s' \<and>
     writes_to d [(n, f (view s d n))] s s' \<and> dirties s' = dirties s - {(d, n)}"
proof -
  let ?v = "f (view s d n)"
  have inv: "bc_inv s" and ls: "lockset s = {}" using q by (simp_all add: quiet_def)
  have nb: "\<not> busy_block s d n" by (simp add: busy_block_def ls)
  have d1: "d \<le> 1" and fl: "\<not> ide_fails s d n" using us by (simp_all add: usable_def)
  obtain i t where t: "bread d n s = Ok (i, t)" "bc_inv t" "held i t" "at d n (bufs t i)"
      "b_data (bufs t i) = view s d n" "lockset t = insert i (lockset s)" "dirties t = dirties s"
      "\<forall>e m. e \<le> 1 \<longrightarrow> view t e m = view s e m" "disk t = disk s" "disk_writes t = disk_writes s" "bio_frame s t"
    using bread_tx [OF inv us nb] room by (auto simp: ls)
  define w where "w = set_data i ?v t"
  note w = set_data_tx [OF t(2,3,4), where v = ?v, folded w_def]
  have fw: "\<not> ide_fails w d n" using fl bio_frame_fields(10) [OF w(12)] bio_frame_fields(10) [OF t(11)] by simp
  obtain p where p: "bwrite i w = Ok p" "bc_inv p" "held i p" "at d n (bufs p i)" "b_data (bufs p i) = ?v"
      "lockset p = lockset w" "dirties p = dirties w - {(d, n)}" "\<forall>e k. e \<le> 1 \<longrightarrow> view p e k = view w e k"
      "disk p = (disk w)(d := (disk w d)(n := ?v))" "disk_writes p = disk_writes w @ [(d, n, ?v)]" "bio_frame w p"
    using bwrite_tx [OF w(1) w(2) [OF t(3)] w(3) fw] by (auto simp: w(4))
  have "b_data (bufs p i) = disk p d n" by (simp add: p(5,9))
  then obtain s' where s': "brelse i p = Ok s'" "bc_inv s'" "lockset s' = lockset p - {i}" "dirties s' = dirties p"
      "\<forall>e k. e \<le> 1 \<longrightarrow> view s' e k = view p e k" "disk s' = disk p" "disk_writes s' = disk_writes p" "bio_frame p s'"
    using brelse_tx [OF p(2,3,4)] by blast
  have v: "view s' e k = (if e = d \<and> k = n then ?v else view s e k)" if "e \<le> 1" for e k
    using s'(5) p(8) w(9) t(8) that by simp
  then have "view s' d = (view s d)(n := ?v)" using d1 by auto
  moreover have "bio_frame s s'" using t(11) w(12) p(11) s'(8) by (blast intro: bio_frame_trans)
  moreover have "lockset s' = {}" using s'(3) p(6) w(7) t(6) ls by auto
  ultimately have "writes_to d [(n, ?v)] s s'"
    using v s'(2,6,7) p(9,10) w(10,11) t(9,10) by (simp add: writes_to_def quiet_def)
  then show ?thesis using t(1,5,7,11) p(1,7) s'(1,4) w(8) by (auto simp: w_def)
qed

lemma read_block_tx:
  assumes inv: "bc_inv s" and us: "usable s d n" and nb: "\<not> busy_block s d n"
    and room: "card (dirties s) + card (lockset s) < NBUF \<or> (d, n) \<in> dirties s"
  shows "\<exists>i t s'. bread d n s = Ok (i, t) \<and> bio_frame s t \<and> b_data (bufs t i) = view s d n \<and> brelse i t = Ok s' \<and>
     bc_inv s' \<and> lockset s' = lockset s \<and> dirties s' = dirties s \<and> bio_frame s s' \<and> disk s' = disk s \<and>
     disk_writes s' = disk_writes s \<and> (\<forall>e m. e \<le> 1 \<longrightarrow> view s' e m = view s e m) \<and>
     (\<forall>j \<in> lockset s. core (bufs s' j) = core (bufs s j)) \<and>
     i < NBUF \<and> i \<notin> lockset s"
proof -
  obtain i t where t: "bread d n s = Ok (i, t)" "bc_inv t" "held i t" "at d n (bufs t i)"
      "b_data (bufs t i) = view s d n" "b_dirty (bufs t i) \<longleftrightarrow> (d, n) \<in> dirties s" "\<forall>j. j \<noteq> i \<longrightarrow> bufs t j = bufs s j"
      "i \<notin> lockset s" "lockset t = insert i (lockset s)" "dirties t = dirties s"
      "\<forall>e m. e \<le> 1 \<longrightarrow> view t e m = view s e m" "disk t = disk s" "disk_writes t = disk_writes s" "bio_frame s t"
    using bread_tx [OF assms] by blast
  have "b_dirty (bufs t i) \<or> b_data (bufs t i) = disk t d n"
    using view_clean [OF inv nb] us t(6) unfolding t(5,12) usable_def by blast
  then obtain s' where s': "brelse i t = Ok s'" "bc_inv s'" "\<forall>j. j \<noteq> i \<longrightarrow> core (bufs s' j) = core (bufs t j)"
      "lockset s' = lockset t - {i}" "dirties s' = dirties t" "\<forall>e m. e \<le> 1 \<longrightarrow> view s' e m = view t e m"
      "disk s' = disk t" "disk_writes s' = disk_writes t" "bio_frame t s'"
    using brelse_tx [OF t(2,3,4)] by blast
  have "core (bufs s' j) = core (bufs s j)" if "j \<in> lockset s" for j
    using s'(3) t(7,8) that by (metis (no_types))
  moreover have "lockset s' = lockset s" using s'(4) t(8,9) by auto
  moreover have "i < NBUF" using t(3) by (simp add: held_def)
  moreover have "bio_frame s s'" by (rule bio_frame_trans [OF t(14) s'(9)])
  ultimately show ?thesis using t s' by (intro exI [of _ i] exI [of _ t] exI [of _ s']) simp
qed

end
