(* ===== verification/Log_Crash.thy ===== *)
theory Log_Crash
  imports Log
begin

text \<open>
  Crash safety of the log.  A crash keeps a prefix of the disk writes an operation issued; the
  machine then restarts with empty caches and \<^verbatim>\<open>initlog\<close> recovers.  The development follows the
  phases of a commit (copies, header, installation, cleared header) on the level of disk images, and
  then connects the images with the operations of \<^verbatim>\<open>Log\<close>.
\<close>

section \<open>The header on disk\<close>

lemma ld32_header:
  "ld32 (fold (\<lambda>i v. st32 v (4 + 4 * i) (b i)) [0..<m] v) (4 * a) =
     (if 1 \<le> a \<and> a \<le> m then b (a - 1) else ld32 v (4 * a :: nat))"
proof (induction m)
  case (Suc m)
  show ?case
  proof (cases "a = Suc m")
    case True
    then have "4 * a = 4 + 4 * m" by simp
    then show ?thesis using True by simp
  next
    case False
    then have "4 + 4 * m + 4 \<le> 4 * a \<or> 4 * a + 4 \<le> 4 + 4 * m" by auto
    then have "ld32 (st32 w (4 + 4 * m) (b m)) (4 * a) = ld32 w (4 * a)" for w :: block by (rule ld32_st32_disj_nat)
    then show ?thesis using Suc.IH False by auto
  qed
qed auto

lemma sint_word_of_int: "0 \<le> n \<Longrightarrow> n < 1000 \<Longrightarrow> sint (word_of_int n :: uint) = n"
  by (simp add: signed_of_int signed_take_bit_int_eq_self)

lemma header_round_trip:
  assumes "0 \<le> lh_n h" "lh_n h < 1000"
  shows "lh_n (header_of old (put_header h v)) = lh_n h"
    "k < nat (lh_n h) \<Longrightarrow> lh_block (header_of old (put_header h v)) k = lh_block h k"
proof -
  have "ld32 (put_header h v) 0 = word_of_int (lh_n h)"
    using ld32_header [of "lh_block h" "nat (lh_n h)" "st32 v 0 (word_of_int (lh_n h))" 0] by (simp add: put_header_def)
  then show n: "lh_n (header_of old (put_header h v)) = lh_n h"
    using assms by (simp add: header_of_def Let_def sint_word_of_int)
  assume k: "k < nat (lh_n h)"
  then have "ld32 (put_header h v) (4 + 4 * k) = lh_block h k"
    using ld32_header [of "lh_block h" "nat (lh_n h)" "st32 v 0 (word_of_int (lh_n h))" "Suc k"] by (simp add: put_header_def)
  with n k show "lh_block (header_of old (put_header h v)) k = lh_block h k"
    by (simp add: header_of_def Let_def)
qed

lemma header_of_cleared: "ld32 v 0 = 0 \<Longrightarrow> lh_n (header_of old v) = 0"
  by (simp add: header_of_def Let_def)

lemma put_header_0: "put_header (h\<lparr>lh_n := 0\<rparr>) v = st32 v 0 0"
  by (simp add: put_header_def)

lemma sane_hdr_cong:
  "lh_n h' = lh_n h \<Longrightarrow> (\<And>k. k < nat (lh_n h) \<Longrightarrow> lh_block h' k = lh_block h k) \<Longrightarrow> sane_hdr l h' = sane_hdr l h"
  unfolding sane_hdr_def inj_on_def by simp

section \<open>Disk images\<close>

definition hdr :: "loginfo \<Rightarrow> (uint \<Rightarrow> block) \<Rightarrow> logheader" where
  "hdr l D = header_of (lh l) (D (log_start l))"

definition sb_ok :: "loginfo \<Rightarrow> (uint \<Rightarrow> block) \<Rightarrow> bool" where
  "sb_ok l D \<longleftrightarrow> sb_logstart (superblock_of (D 1)) = log_start l \<and> sint (sb_nlog (superblock_of (D 1))) = log_size l"

definition log_disk :: "loginfo \<Rightarrow> (uint \<Rightarrow> block) \<Rightarrow> bool" where
  "log_disk l D \<longleftrightarrow> log_geom l \<and> sb_ok l D \<and> sane_hdr l (hdr l D)"

text \<open>The blocks a recovery from image \<open>D\<close> ends with, and the writes it makes.\<close>

definition recovered :: "loginfo \<Rightarrow> (uint \<Rightarrow> block) \<Rightarrow> (uint \<Rightarrow> block)" where
  "recovered l D = wr (install_writes l (hdr l D) (nat (lh_n (hdr l D))) D) D"

definition recovery_writes :: "loginfo \<Rightarrow> (uint \<Rightarrow> block) \<Rightarrow> (uint \<times> block) list" where
  "recovery_writes l D =
     install_writes l (hdr l D) (nat (lh_n (hdr l D))) D @ [(log_start l, st32 (D (log_start l)) 0 0)]"

definition commit_writes :: "loginfo \<Rightarrow> (uint \<Rightarrow> block) \<Rightarrow> (uint \<times> block) list" where
  "commit_writes l V =
     log_writes l (nlogged l) V @ (log_start l, put_header (lh l) (V (log_start l))) #
     map (\<lambda>k. (lh_block (lh l) k, V (lh_block (lh l) k))) [0..<nlogged l] @
     [(log_start l, st32 (put_header (lh l) (V (log_start l))) 0 0)]"

lemma install_writes_fst: "fst ` set (install_writes l h m V) = lh_block h ` {..<m}"
  by (force simp: install_writes_def)

lemma recovered_other: "n \<notin> lh_block (hdr l D) ` {..<nat (lh_n (hdr l D))} \<Longrightarrow> recovered l D n = D n"
  by (simp add: recovered_def wr_other install_writes_fst)

lemma recovered_at:
  "sane_hdr l (hdr l D) \<Longrightarrow> k < nat (lh_n (hdr l D)) \<Longrightarrow> recovered l D (lh_block (hdr l D) k) = D (copy_at l k)"
  unfolding recovered_def install_writes_def by (rule wr_map) (auto simp: sane_hdr_def atLeast0LessThan)

lemma recovered_cleared: "lh_n (hdr l D) = 0 \<Longrightarrow> recovered l D = D"
  by (simp add: recovered_def install_writes_def)

text \<open>
  Recovery depends only on the super block, the header, the copies and the blocks not in the log:
  an image that differs from \<open>D\<close> in blocks about to be overwritten recovers to the same contents.
\<close>

lemma recovered_stable:
  assumes D: "log_disk l D" and same: "D' 1 = D 1" "D' (log_start l) = D (log_start l)"
    and copies: "\<And>k. k < nat (lh_n (hdr l D)) \<Longrightarrow> D' (copy_at l k) = D (copy_at l k)"
    and rest: "\<And>n. home l n \<Longrightarrow> n \<notin> lh_block (hdr l D) ` {..<nat (lh_n (hdr l D))} \<Longrightarrow> D' n = D n"
  shows "log_disk l D'" "home l n \<Longrightarrow> recovered l D' n = recovered l D n"
proof -
  have h: "hdr l D' = hdr l D" by (simp add: hdr_def same)
  show "log_disk l D'" using D by (simp add: log_disk_def sb_ok_def h same)
  have s: "sane_hdr l (hdr l D)" using D by (simp add: log_disk_def)
  assume n: "home l n"
  show "recovered l D' n = recovered l D n"
  proof (cases "n \<in> lh_block (hdr l D) ` {..<nat (lh_n (hdr l D))}")
    case True
    then obtain k where k: "k < nat (lh_n (hdr l D))" "n = lh_block (hdr l D) k" by auto
    then show ?thesis using recovered_at [OF s k(1)] recovered_at [of l D' k] s copies by (simp add: h)
  next
    case False
    then show ?thesis using recovered_other [of n l D] recovered_other [of n l D'] rest [OF n] by (simp add: h)
  qed
qed

lemma hdr_bound: "sane_hdr l h \<Longrightarrow> k < nat (lh_n h) \<Longrightarrow> Suc k < nat (log_size l)"
  by (auto simp: sane_hdr_def)

lemma hdr_home: "sane_hdr l h \<Longrightarrow> k < nat (lh_n h) \<Longrightarrow> home l (lh_block h k)"
  by (auto simp: sane_hdr_def)

text \<open>Writes to logged home blocks keep an image recoverable.\<close>

lemma recovered_install:
  assumes D: "log_disk l D" and ws: "fst ` set ws \<subseteq> lh_block (hdr l D) ` {..<nat (lh_n (hdr l D))}"
  shows "log_disk l (wr ws D)" "hdr l (wr ws D) = hdr l D" "home l n \<Longrightarrow> recovered l (wr ws D) n = recovered l D n"
proof -
  have g: "log_geom l" "sane_hdr l (hdr l D)" using D by (simp_all add: log_disk_def)
  have same: "wr ws D m = D m" if "\<And>k. k < nat (lh_n (hdr l D)) \<Longrightarrow> lh_block (hdr l D) k \<noteq> m" for m
    using ws that by (intro wr_other) fastforce
  have 1: "wr ws D 1 = D 1" by (rule same) (use home_not_1 hdr_home [OF g(2)] in blast)
  have 2: "wr ws D (log_start l) = D (log_start l)" by (rule same) (use home_start [OF g(1)] hdr_home [OF g(2)] in blast)
  have 3: "wr ws D (copy_at l k) = D (copy_at l k)" if "k < nat (lh_n (hdr l D))" for k
    by (rule same) (use home_copy_at [OF g(1)] hdr_home [OF g(2)] hdr_bound [OF g(2) that] in blast)
  have 4: "wr ws D m = D m" if "m \<notin> lh_block (hdr l D) ` {..<nat (lh_n (hdr l D))}" for m
    using that by (intro same) auto
  show "hdr l (wr ws D) = hdr l D" by (simp add: hdr_def 2)
  show "log_disk l (wr ws D)" "home l n \<Longrightarrow> recovered l (wr ws D) n = recovered l D n"
    using recovered_stable [OF D, of "wr ws D"] 1 2 3 4 by blast+
qed

lemma fst_take: "fst ` set (take j ws) \<subseteq> fst ` set ws"
  by (rule image_mono) (rule set_take_subset)

text \<open>Clearing the header once the home blocks are in place.\<close>

lemma recovered_clear:
  fixes v :: block
  assumes D: "log_disk l D" and fin: "\<And>n. home l n \<Longrightarrow> D n = recovered l D n"
  defines "D' \<equiv> D(log_start l := st32 v 0 0)"
  shows "log_disk l D'" "lh_n (hdr l D') = 0" "home l n \<Longrightarrow> recovered l D' n = recovered l D n"
proof -
  have g: "log_geom l" using D by (simp add: log_disk_def)
  show z: "lh_n (hdr l D') = 0" by (simp add: hdr_def D'_def header_of_cleared)
  have "(1 :: uint) \<noteq> log_start l" using g by (auto simp: log_geom_def)
  then have "D' 1 = D 1" by (simp add: D'_def)
  then show "log_disk l D'" using D g z by (simp add: log_disk_def sb_ok_def sane_hdr_def log_geom_def)
  assume n: "home l n"
  have "recovered l D' n = D n" unfolding recovered_cleared [OF z] using home_start [OF g n] by (simp add: D'_def)
  then show "recovered l D' n = recovered l D n" using fin [OF n] by simp
qed

text \<open>A crash during recovery is harmless.\<close>

lemma recovery_prefix:
  assumes D: "log_disk l D"
  shows "log_disk l (wr (take j (recovery_writes l D)) D)"
    "home l n \<Longrightarrow> recovered l (wr (take j (recovery_writes l D)) D) n = recovered l D n"
proof -
  let ?I = "install_writes l (hdr l D) (nat (lh_n (hdr l D))) D"
  have g: "log_geom l" "sane_hdr l (hdr l D)" using D by (simp_all add: log_disk_def)
  show "log_disk l (wr (take j (recovery_writes l D)) D)"
    "home l n \<Longrightarrow> recovered l (wr (take j (recovery_writes l D)) D) n = recovered l D n"
  proof (atomize (full), cases "j \<le> length ?I")
    case True
    then have "take j (recovery_writes l D) = take j ?I" by (simp add: recovery_writes_def)
    then show "log_disk l (wr (take j (recovery_writes l D)) D) \<and>
      (home l n \<longrightarrow> recovered l (wr (take j (recovery_writes l D)) D) n = recovered l D n)"
      using recovered_install [OF D, of "take j ?I"] fst_take [of j ?I] by (simp add: install_writes_fst)
  next
    case False
    then have t: "wr (take j (recovery_writes l D)) D = (wr ?I D)(log_start l := st32 (D (log_start l)) 0 0)"
      by (simp add: recovery_writes_def)
    have I: "fst ` set ?I \<subseteq> lh_block (hdr l D) ` {..<nat (lh_n (hdr l D))}" by (simp add: install_writes_fst)
    note i = recovered_install [OF D I]
    have "wr ?I D n = recovered l (wr ?I D) n" if "home l n" for n
      using i(3) [OF that] by (simp add: recovered_def)
    from recovered_clear [OF i(1) this, where v = "D (log_start l)"] show "log_disk l (wr (take j (recovery_writes l D)) D) \<and>
      (home l n \<longrightarrow> recovered l (wr (take j (recovery_writes l D)) D) n = recovered l D n)"
      using i(3) by (simp add: t)
  qed
qed


text \<open>
  The phases of a commit.  \<open>V\<close> is the new contents: it differs from the image only in the logged
  blocks.  Up to the header write a crash loses the transaction, from then on it is kept.
\<close>

lemma commit_prefix:
  assumes D: "log_disk l D" "lh_n (hdr l D) = 0" and h: "sane_hdr l (lh l)"
    and V: "\<And>n. home l n \<Longrightarrow> n \<notin> lh_block (lh l) ` {..<nlogged l} \<Longrightarrow> V n = D n"
  defines "C \<equiv> \<lambda>j. wr (take j (commit_writes l V)) D"
  shows "log_disk l (C j)"
    "home l n \<Longrightarrow> recovered l (C j) n = (if j \<le> nlogged l then D n else V n)"
proof -
  have g: "log_geom l" using D by (simp add: log_disk_def)
  let ?L = "log_writes l (nlogged l) V" and ?H = "put_header (lh l) (V (log_start l))"
  let ?I = "map (\<lambda>k. (lh_block (lh l) k, V (lh_block (lh l) k))) [0..<nlogged l]"
  have bnd: "Suc k < nat (log_size l)" if "k < nlogged l" for k using hdr_bound [OF h] that by (simp add: nlogged_def)
  have lenL: "length ?L = nlogged l" by (simp add: log_writes_def)
  have sub: "fst ` set (take i ?L) \<subseteq> copy_at l ` {..<nlogged l}" for i
    using fst_take [of i ?L] by (force simp: log_writes_def)
  have L: "wr (take i ?L) D m = D m" if "\<And>k. k < nlogged l \<Longrightarrow> m \<noteq> copy_at l k" for i m
    using that sub [of i] by (intro wr_other) blast
  have L1: "wr (take i ?L) D 1 = D 1" for i by (rule L) (use copy_at_not_1 [OF g] bnd in force)
  have Ls: "wr (take i ?L) D (log_start l) = D (log_start l)" for i by (rule L) (use copy_at_start [OF g] bnd in force)
  have Lh: "wr (take i ?L) D n = D n" if "home l n" for i n by (rule L) (use home_copy_at [OF g that] bnd in force)
  have Lc: "wr ?L D (copy_at l k) = V (lh_block (lh l) k)" if "k < nlogged l" for k
    unfolding log_writes_def using copy_at_inj [OF g bnd bnd] that by (intro wr_map) (auto intro!: inj_onI)
  define E where "E = (wr ?L D)(log_start l := ?H)"
  have n0: "0 \<le> lh_n (lh l)" "lh_n (lh l) < 1000"
    using h g by (auto simp: sane_hdr_def log_geom_def LOGSIZE_def MAXOPBLOCKS_def)
  note rt = header_round_trip [OF n0, where old = "lh l" and v = "V (log_start l)"]
  have hE: "lh_n (hdr l E) = lh_n (lh l)" "\<And>k. k < nat (lh_n (lh l)) \<Longrightarrow> lh_block (hdr l E) k = lh_block (lh l) k"
    using rt by (simp_all add: hdr_def E_def)
  have img: "lh_block (hdr l E) ` {..<nat (lh_n (hdr l E))} = lh_block (lh l) ` {..<nlogged l}"
    using hE by (auto simp: nlogged_def)
  have sE: "sane_hdr l (hdr l E)" using sane_hdr_cong [OF hE] h by simp
  have ne: "(1 :: uint) \<noteq> log_start l" using g by (auto simp: log_geom_def)
  have E: "log_disk l E" using D(1) sE g L1 [of "nlogged l"] ne lenL by (simp add: log_disk_def sb_ok_def E_def)
  have rE: "recovered l E n = V n" if n: "home l n" for n
  proof (cases "n \<in> lh_block (lh l) ` {..<nlogged l}")
    case True
    then obtain k where k: "k < nlogged l" "n = lh_block (lh l) k" by auto
    have "copy_at l k \<noteq> log_start l" by (rule copy_at_start [OF g bnd [OF k(1)]])
    then show ?thesis using recovered_at [OF sE, of k] k hE Lc [OF k(1)] by (simp add: nlogged_def E_def)
  next
    case False
    then have "recovered l E n = E n" using recovered_other [of n l E] by (simp add: img)
    also have "\<dots> = V n" using V [OF n False] Lh [OF n, of "nlogged l"] home_start [OF g n] lenL by (simp add: E_def)
    finally show ?thesis .
  qed
  have I: "fst ` set (take i ?I) \<subseteq> lh_block (hdr l E) ` {..<nat (lh_n (hdr l E))}" for i
    unfolding img using fst_take [of i ?I] by auto
  note i = recovered_install [OF E I]
  have full: "wr ?I E n = recovered l (wr ?I E) n" if n: "home l n" for n
  proof (cases "n \<in> lh_block (lh l) ` {..<nlogged l}")
    case True
    then obtain k where k: "k < nlogged l" "n = lh_block (lh l) k" by auto
    have "wr ?I E n = V n" unfolding k(2) using h k(1) by (intro wr_map) (auto simp: sane_hdr_def nlogged_def atLeast0LessThan)
    then show ?thesis using i(3) [OF n, of "nlogged l"] rE [OF n] by simp
  next
    case False
    then have "wr ?I E n = E n" by (intro wr_other) auto
    then show ?thesis using i(3) [OF n, of "nlogged l"] rE [OF n] recovered_other [of n l E] False by (simp add: img)
  qed
  have "\<exists>i. j = Suc (nlogged l) + i \<and> i \<le> nlogged l" if "\<not> j \<le> nlogged l" "\<not> 2 * nlogged l + 2 \<le> j"
    using that by (intro exI [of _ "j - Suc (nlogged l)"]) simp
  then consider (1) "j \<le> nlogged l" | (2) i where "j = Suc (nlogged l) + i" "i \<le> nlogged l" | (3) "2 * nlogged l + 2 \<le> j"
    by blast
  then show "log_disk l (C j)" "home l n \<Longrightarrow> recovered l (C j) n = (if j \<le> nlogged l then D n else V n)"
  proof (atomize (full), cases)
    case 1
    then have C: "C j = wr (take j ?L) D" by (simp add: C_def commit_writes_def lenL)
    have "hdr l (C j) = hdr l D" by (simp add: C hdr_def Ls)
    then show "log_disk l (C j) \<and> (home l n \<longrightarrow> recovered l (C j) n = (if j \<le> nlogged l then D n else V n))"
      using D 1 L1 Lh by (simp add: log_disk_def sb_ok_def recovered_cleared C)
  next
    case 2
    then have "C j = wr (take i ?I) E" by (simp add: C_def commit_writes_def lenL E_def)
    then show "log_disk l (C j) \<and> (home l n \<longrightarrow> recovered l (C j) n = (if j \<le> nlogged l then D n else V n))"
      using i(1,3) rE 2 by simp
  next
    case 3
    then have C: "C j = (wr ?I E)(log_start l := st32 ?H 0 0)" by (simp add: C_def commit_writes_def lenL E_def)
    have f: "wr (take (nlogged l) ?I) E m = recovered l (wr (take (nlogged l) ?I) E) m" if "home l m" for m
      using full [OF that] by simp
    show "log_disk l (C j) \<and> (home l n \<longrightarrow> recovered l (C j) n = (if j \<le> nlogged l then D n else V n))"
      using recovered_clear [OF i(1) f, where v = ?H] i(3) [of n "nlogged l"] rE [of n] 3 by (simp add: C)
  qed
qed


section \<open>The operations make these writes\<close>

lemma log_frame_dev: "writes_to d ws s t \<Longrightarrow> log t = log s"
  by (simp add: writes_to_def log_frame)

lemma commit_ok:
  assumes r: "log_ready s" and d: "dirties s = logged (log s)" and n: "0 < lh_n (lh (log s))"
  defines "l \<equiv> log s"
  shows "\<exists>s'. commit s = Ok s' \<and> dirties s' = {} \<and>
    writes_to (log_dev l) (commit_writes l (view s (log_dev l))) (upd_log (set_n 0) s) s'"
proof -
  let ?d = "log_dev l" and ?V = "view s (log_dev l)"
  have g: "log_geom l" "sane_hdr l (lh l)" using r by (simp_all add: log_ready_def l_def)
  have sb: "home l (lh_block (lh l) k)" if "k < nlogged l" for k using hdr_home [OF g(2)] that by (simp add: nlogged_def)
  obtain t where t: "write_log s = Ok t" "dirties t = dirties s" "writes_to ?d (log_writes l (nlogged l) ?V) s t"
    using write_log_ok [OF r d order_refl] by (auto simp: write_log_def nlogged_def l_def)
  have lt: "log t = l" using log_frame_dev [OF t(3)] by (simp add: l_def)
  have rt: "log_ready t" by (rule log_ready_step [OF r t(3)])
  have room: "card (dirties t) < NBUF" using card_logged [OF g] by (simp add: t(2) d l_def)
  have vt: "view t ?d m = ?V m" if "\<And>k. k < nlogged l \<Longrightarrow> copy_at l k \<noteq> m" for m
  proof -
    have "m \<notin> fst ` set (log_writes l (nlogged l) ?V)" using that by (force simp: log_writes_def)
    then show ?thesis using t(3) by (simp add: writes_to_def wr_other)
  qed
  have vs: "view t ?d (log_start l) = ?V (log_start l)" by (rule vt) (rule copy_at_start [OF g(1) sane_bound [OF g(2)]])
  obtain u where u: "write_head t = Ok u" "dirties u = dirties t - {(?d, log_start l)}"
      "writes_to ?d [(log_start l, put_header (lh l) (?V (log_start l)))] t u"
    using write_head_ok [of t] rt room by (auto simp: log_ready_def lt vs)
  have lu: "log u = l" using log_frame_dev [OF u(3)] lt by simp
  have ru: "log_ready u" by (rule log_ready_step [OF rt u(3)])
  have "lh_block (lh l) k \<noteq> log_start l" if "k < nlogged l" for k by (rule home_start [OF g(1) sb [OF that]])
  then have "(?d, log_start l) \<notin> logged l" by (force simp: logged_def)
  then have du: "dirties u = logged (log u)" using u(2) t(2) d by (simp add: lu l_def)
  obtain v where v: "install_trans u = Ok v" "dirties v = dirties u - (\<lambda>k. (?d, lh_block (lh l) k)) ` {..<nlogged l}"
      "writes_to ?d (install_writes l (lh l) (nlogged l) (view u ?d)) u v"
    using install_ok [OF ru _ order_refl] du by (auto simp: install_trans_def nlogged_def lu)
  have lv: "log v = l" using log_frame_dev [OF v(3)] lu by simp
  have dv: "dirties v = {}" using v(2) du by (auto simp: lu logged_def)
  have rv: "quiet v" "hw_ok ?d v" using log_ready_step [OF ru v(3)] by (simp_all add: log_ready_def lv)
  have "view u ?d (copy_at l k) = ?V (lh_block (lh l) k)" if k: "k < nlogged l" for k
  proof -
    have "view u ?d (copy_at l k) = view t ?d (copy_at l k)"
      using u(3) copy_at_start [OF g(1) sane_bound [OF g(2) k]] by (simp add: writes_to_def)
    also have "\<dots> = wr (log_writes l (nlogged l) ?V) ?V (copy_at l k)" using t(3) by (simp add: writes_to_def)
    also have "\<dots> = ?V (lh_block (lh l) k)"
      unfolding log_writes_def using copy_at_inj [OF g(1) sane_bound [OF g(2)] sane_bound [OF g(2)]] k
      by (intro wr_map) (auto intro!: inj_onI)
    finally show ?thesis .
  qed
  then have iw: "install_writes l (lh l) (nlogged l) (view u ?d) =
      map (\<lambda>k. (lh_block (lh l) k, ?V (lh_block (lh l) k))) [0..<nlogged l]"
    by (simp add: install_writes_def)
  define v' where "v' = upd_log (set_n 0) v"
  have "log_start l \<notin> fst ` set (install_writes l (lh l) (nlogged l) (view u ?d))"
    unfolding install_writes_fst using sb home_start [OF g(1)] by fastforce
  then have vh: "view v' ?d (log_start l) = put_header (lh l) (?V (log_start l))"
    using v(3) u(3) by (simp add: v'_def writes_to_def wr_other)
  obtain s' where s': "write_head v' = Ok s'" "dirties s' = dirties v - {(?d, log_start l)}"
      "writes_to ?d [(log_start l, st32 (put_header (lh l) (?V (log_start l))) 0 0)] v' s'"
    using write_head_ok [of v'] rv g(1) dv vh put_header_0 [of "lh l"]
    by (auto simp: v'_def set_n_def lv NBUF_def log_geom_def)
  have "commit s = Ok s'" using n t(1) u(1) v(1) s'(1) by (simp add: commit_def v'_def)
  moreover have "writes_to ?d (commit_writes l ?V) (upd_log (set_n 0) s) s'"
    using writes_to_trans [OF writes_to_upd_log [OF writes_to_trans [OF t(3) writes_to_trans [OF u(3) v(3)]], of "set_n 0"]
        s'(3) [unfolded v'_def]] by (simp add: commit_writes_def iw)
  moreover have "dirties s' = {}" using s'(2) dv by simp
  ultimately show ?thesis by blast
qed

text \<open>The log while operations are in progress, and the log at rest.\<close>

definition log_ok :: "'a log_st_scheme \<Rightarrow> bool" where
  "log_ok s \<longleftrightarrow> bc_inv s \<and> log_geom (log s) \<and> hw_ok (log_dev (log s)) s \<and> \<not> committing (log s) \<and>
     sane_hdr (log s) (lh (log s)) \<and> dirties s = logged (log s) \<and>
     sb_ok (log s) (disk s (log_dev (log s))) \<and> ld32 (disk s (log_dev (log s)) (log_start (log s))) 0 = 0"

definition log_idle :: "'a log_st_scheme \<Rightarrow> bool" where
  "log_idle s \<longleftrightarrow> log_ok s \<and> lockset s = {} \<and> outstanding (log s) = 0 \<and> lh_n (lh (log s)) = 0"

lemma log_ok_disk: "log_ok s \<Longrightarrow> log_disk (log s) (disk s (log_dev (log s)))"
    "log_ok s \<Longrightarrow> lh_n (hdr (log s) (disk s (log_dev (log s)))) = 0"
  by (auto simp: log_ok_def log_disk_def hdr_def header_of_cleared sane_hdr_def log_geom_def)

lemma log_ok_view:
  assumes "log_ok s" "lockset s = {}" "home (log s) n" "n \<notin> lh_block (lh (log s)) ` {..<nlogged (log s)}"
  shows "view s (log_dev (log s)) n = disk s (log_dev (log s)) n"
proof (rule view_clean)
  show "bc_inv s" "log_dev (log s) \<le> 1" using assms(1) by (simp_all add: log_ok_def log_geom_def)
  show "\<not> busy_block s (log_dev (log s)) n" by (simp add: busy_block_def assms(2))
  show "(log_dev (log s), n) \<notin> dirties s" using assms(1,4) by (auto simp: log_ok_def logged_def)
  show "\<not> (log_dev (log s) = 0 \<and> n = 0)" using assms(3) by (auto simp: home_def)
qed

text \<open>
  The last \<^verbatim>\<open>end_op\<close> of a transaction: the cache contents do not change, the log is empty again, and
  every prefix of the writes is a recoverable image.
\<close>

definition new_writes :: "'a bio_st_scheme \<Rightarrow> 'a bio_st_scheme \<Rightarrow> (uint \<times> uint \<times> block) list" where
  "new_writes s s' = drop (length (disk_writes s)) (disk_writes s')"

definition crash_disk :: "nat \<Rightarrow> 'a bio_st_scheme \<Rightarrow> 'a bio_st_scheme \<Rightarrow> (uint \<Rightarrow> uint \<Rightarrow> block)" where
  "crash_disk j s s' = apply_writes (take j (new_writes s s')) (disk s)"

lemma crash_disk_writes:
  "disk_writes s' = disk_writes s @ map (Pair d) ws \<Longrightarrow>
   crash_disk j s s' = (disk s)(d := wr (take j ws) (disk s d))"
  by (simp add: crash_disk_def new_writes_def take_map apply_writes_dev)

lemma mypid_upd_log [simp]: "mypid (upd_log f s) = mypid s"
  by (simp add: upd_log_def mypid_def myproc_def cong: option.case_cong)

lemma commit_writes_simps [simp]:
  "commit_writes (outstanding_update f l) V = commit_writes l V" "commit_writes (committing_update g l) V = commit_writes l V"
  "sb_ok (outstanding_update f l) D = sb_ok l D" "sb_ok (committing_update g l) D = sb_ok l D" "sb_ok (lh_update k l) D = sb_ok l D"
  "sb_ok (set_n n l) D = sb_ok l D"
  by (simp_all add: commit_writes_def log_writes_def sb_ok_def)

lemma commit_final:
  assumes D: "log_disk l D" "lh_n (hdr l D) = 0" and h: "sane_hdr l (lh l)"
    and V: "\<forall>n. home l n \<longrightarrow> n \<notin> lh_block (lh l) ` {..<nlogged l} \<longrightarrow> V n = D n"
  shows "sb_ok l (wr (commit_writes l V) D)" "ld32 (wr (commit_writes l V) D (log_start l)) 0 = 0"
    "home l n \<Longrightarrow> wr (commit_writes l V) W n = (if n \<in> lh_block (lh l) ` {..<nlogged l} then V n else W n)"
proof -
  have g: "log_geom l" using D by (simp add: log_disk_def)
  show "sb_ok l (wr (commit_writes l V) D)"
    using commit_prefix(1) [OF D h V [rule_format], of "length (commit_writes l V)"] by (simp add: log_disk_def)
  show "ld32 (wr (commit_writes l V) D (log_start l)) 0 = 0" by (simp add: commit_writes_def)
  let ?I = "map (\<lambda>k. (lh_block (lh l) k, V (lh_block (lh l) k))) [0..<nlogged l]"
  assume n: "home l n"
  have L: "n \<notin> fst ` set (log_writes l (nlogged l) V)"
    using home_copy_at [OF g n] sane_bound [OF h] by (force simp: log_writes_def)
  have s: "n \<noteq> log_start l" by (rule home_start [OF g n])
  have "wr (commit_writes l V) W n = wr ?I ((wr (log_writes l (nlogged l) V) W)(log_start l := put_header (lh l) (V (log_start l)))) n"
    using s by (simp add: commit_writes_def)
  also have "\<dots> = wr ?I W n" by (rule wr_cong) (use s wr_other [OF L, of W] in simp)
  also have "\<dots> = (if n \<in> lh_block (lh l) ` {..<nlogged l} then V n else W n)"
  proof (cases "n \<in> lh_block (lh l) ` {..<nlogged l}")
    case True
    then obtain k where k: "k < nlogged l" "n = lh_block (lh l) k" by auto
    have "wr ?I W n = V n" unfolding k(2) using h k(1) by (intro wr_map) (auto simp: sane_hdr_def nlogged_def atLeast0LessThan)
    with True show ?thesis by simp
  next
    case False
    then have "wr ?I W n = W n" by (intro wr_other) auto
    with False show ?thesis by simp
  qed
  finally show "wr (commit_writes l V) W n = (if n \<in> lh_block (lh l) ` {..<nlogged l} then V n else W n)" .
qed

lemma end_op_ok:
  assumes ok: "log_ok s" and ls: "lockset s = {}" and o1: "outstanding (log s) = 1"
  defines "l \<equiv> log s"
  shows "\<exists>s'. end_op s = Ok s' \<and> log_idle s' \<and> log s' = set_n 0 (l\<lparr>outstanding := 0\<rparr>) \<and>
     (\<forall>n. home l n \<longrightarrow> view s' (log_dev l) n = view s (log_dev l) n) \<and>
     disk_writes s' = disk_writes s @
       map (Pair (log_dev l)) (if lh_n (lh l) = 0 then [] else commit_writes l (view s (log_dev l)))"
proof -
  let ?d = "log_dev l"
  define t where "t = upd_log (\<lambda>l. l\<lparr>outstanding := 0, committing := True\<rparr>) s"
  have ok': "bc_inv s" "log_geom l" "hw_ok ?d s" "\<not> committing l" "sane_hdr l (lh l)" "dirties s = logged l"
      "sb_ok l (disk s ?d)" "ld32 (disk s ?d (log_start l)) 0 = 0"
    using ok by (simp_all add: log_ok_def l_def)
  have lt: "log t = l\<lparr>outstanding := 0, committing := True\<rparr>" by (simp add: t_def l_def)
  have rt: "log_ready t" using ok' ls by (simp add: log_ready_def lt quiet_def) (simp add: t_def)
  have dt: "dirties t = logged (log t)" using ok'(6) by (simp add: lt) (simp add: t_def)
  have e: "end_op s = rbind (commit t) (\<lambda>s. Ok (wakeup ChanLog (upd_log (\<lambda>l. l\<lparr>committing := False\<rparr>) s)))"
    using ok'(4) o1 by (simp add: end_op_def Let_def l_def t_def upd_log_def)
  have fin: "log_idle s' \<and> log s' = set_n 0 (l\<lparr>outstanding := 0\<rparr>)"
    if s': "s' = wakeup ChanLog (upd_log (\<lambda>l. l\<lparr>committing := False\<rparr>) u)" and u: "bc_inv u" "lockset u = {}"
      "dirties u = {}" "log u = set_n 0 (log t)" "hw_ok ?d u" "sb_ok l (disk u ?d)" "ld32 (disk u ?d (log_start l)) 0 = 0" for s' u
    using u ok' by (simp add: s' log_idle_def log_ok_def lt log_geom_def set_n_def logged_def nlogged_def)
  show ?thesis
  proof (cases "lh_n (lh l) = 0")
    case True
    then have l0: "set_n 0 (log t) = log t" "logged l = {}" by (simp_all add: set_n_def lt logged_def nlogged_def)
    have "commit t = Ok t" using True by (simp add: commit_def lt)
    then have "end_op s = Ok (wakeup ChanLog (upd_log (\<lambda>l. l\<lparr>committing := False\<rparr>) t))" by (simp add: e)
    moreover have t: "bc_inv t" "lockset t = {}" "dirties t = {}" "hw_ok ?d t" "sb_ok l (disk t ?d)" "ld32 (disk t ?d (log_start l)) 0 = 0"
      using ok' ls l0(2) by (simp_all add: t_def)
    moreover have "view t = view s" "disk_writes t = disk_writes s" by (simp_all add: t_def)
    ultimately show ?thesis using fin [OF refl t(1-3) l0(1) [symmetric] t(4-6)] True by simp
  next
    case False
    then have "0 < lh_n (lh (log t))" using ok'(5) by (simp add: lt sane_hdr_def)
    from commit_ok [OF rt dt this] obtain u where u: "commit t = Ok u" "dirties u = {}"
      "writes_to ?d (commit_writes l (view s ?d)) (upd_log (set_n 0) t) u" by (auto simp: lt t_def l_def)
    have D: "log_disk l (disk s ?d)" "lh_n (hdr l (disk s ?d)) = 0" using log_ok_disk [OF ok] by (simp_all add: l_def)
    have V: "\<forall>n. home l n \<longrightarrow> n \<notin> lh_block (lh l) ` {..<nlogged l} \<longrightarrow> view s ?d n = disk s ?d n"
      using log_ok_view [OF ok ls] by (simp add: l_def)
    note cf = commit_final [OF D ok'(5) V]
    have u': "bc_inv u" "lockset u = {}" "disk u ?d = wr (commit_writes l (view s ?d)) (disk s ?d)"
      "view u ?d = wr (commit_writes l (view s ?d)) (view s ?d)"
      "disk_writes u = disk_writes s @ map (Pair ?d) (commit_writes l (view s ?d))" "log u = set_n 0 (log t)" "hw_ok ?d u"
      using u(3) log_frame_dev [OF u(3)] hw_ok_frame [of "upd_log (set_n 0) t" u ?d] ok'(3)
      by (simp_all add: writes_to_def quiet_def t_def)
    have "view u ?d n = view s ?d n" if "home l n" for n using cf(3) [OF that, of "view s ?d"] by (simp add: u'(4))
    then show ?thesis using fin [OF refl u'(1,2) u(2) u'(6,7)] cf(1,2) u'(3,5) False u(1)
      by (auto simp: e)
  qed
qed


section \<open>Recording a modified block\<close>

text \<open>
  \<open>tx_frame\<close>: what an operation inside a transaction leaves alone.  Only the header of the in-memory
  log, the buffers and sleeping processes change.
\<close>

definition tx_frame :: "'a log_st_scheme \<Rightarrow> 'a log_st_scheme \<Rightarrow> bool" where
  "tx_frame s s' \<longleftrightarrow> bio_frame (upd_log (\<lambda>_. log s') s) s' \<and> log s' = (log s)\<lparr>lh := lh (log s')\<rparr>"

lemma tx_frame_bio: "bio_frame s s' \<Longrightarrow> tx_frame s s'"
  using log_frame [of s s'] by (simp add: tx_frame_def upd_log_def)

lemma tx_frame_trans [trans]:
  assumes a: "tx_frame s t" and b: "tx_frame t u"
  shows "tx_frame s u"
proof -
  have ls: "log t = (log s)\<lparr>lh := lh (log t)\<rparr>" "log u = (log t)\<lparr>lh := lh (log u)\<rparr>"
    and f: "bio_frame (upd_log (\<lambda>_. log t) s) t" "bio_frame (upd_log (\<lambda>_. log u) t) u"
    using a b by (simp_all add: tx_frame_def)
  have "bio_frame (upd_log (\<lambda>_. log u) s) (upd_log (\<lambda>_. log u) t)"
    using bio_frame_upd_log [OF f(1), of "\<lambda>_. log u"] by (simp add: upd_log_def)
  moreover have "log u = (log s)\<lparr>lh := lh (log u)\<rparr>" by (subst ls(2), subst ls(1)) simp
  ultimately show ?thesis using f(2) bio_frame_trans by (auto simp: tx_frame_def)
qed

lemma tx_frame_log:
  assumes "tx_frame s s'"
  shows "log_dev (log s') = log_dev (log s)" "log_start (log s') = log_start (log s)" "log_size (log s') = log_size (log s)"
    "outstanding (log s') = outstanding (log s)" "committing (log s') = committing (log s)"
    "home (log s') = home (log s)" "log_geom (log s') = log_geom (log s)" "sane_hdr (log s') = sane_hdr (log s)"
    "sb_ok (log s') = sb_ok (log s)" "hw_ok d s' = hw_ok d s" "mypid s' = mypid s"
proof -
  have l: "log s' = (log s)\<lparr>lh := lh (log s')\<rparr>" and f: "bio_frame (upd_log (\<lambda>_. log s') s) s'"
    using assms by (simp_all add: tx_frame_def)
  show "log_dev (log s') = log_dev (log s)" "log_start (log s') = log_start (log s)" "log_size (log s') = log_size (log s)"
    "outstanding (log s') = outstanding (log s)" "committing (log s') = committing (log s)"
    "home (log s') = home (log s)" "log_geom (log s') = log_geom (log s)" "sane_hdr (log s') = sane_hdr (log s)"
    "sb_ok (log s') = sb_ok (log s)"
    by (subst l, simp add: sb_ok_def [abs_def])+
  show "hw_ok d s' = hw_ok d s" using hw_ok_frame [OF f] by simp
  show "mypid s' = mypid s" using bio_frame_mypid [OF f] by simp
qed

lemma log_write_ok:
  assumes ok: "log_ok s" and h: "held i s" and a: "at (log_dev (log s)) n (bufs s i)" and n: "home (log s) n"
    and o1: "1 \<le> outstanding (log s)" and room: "lh_n (lh (log s)) < log_size (log s) - 1"
  shows "\<exists>s'. log_write i s = Ok s' \<and> log_ok s' \<and> tx_frame s s' \<and> held i s' \<and> at (log_dev (log s)) n (bufs s' i) \<and>
    b_data (bufs s' i) = b_data (bufs s i) \<and> b_dirty (bufs s' i) \<and> (\<forall>j. j \<noteq> i \<longrightarrow> bufs s' j = bufs s j) \<and>
    lockset s' = lockset s \<and> logged (log s') = insert (log_dev (log s), n) (logged (log s)) \<and>
    lh_n (lh (log s')) \<le> lh_n (lh (log s)) + 1 \<and>
    disk s' = disk s \<and> disk_writes s' = disk_writes s \<and> (\<forall>e m. e \<le> 1 \<longrightarrow> view s' e m = view s e m)"
proof -
  define l where "l = log s"
  have ok': "bc_inv s" "log_geom l" "hw_ok (log_dev l) s" "\<not> committing l" "sane_hdr l (lh l)" "dirties s = logged l"
    using ok by (simp_all add: log_ok_def l_def)
  have nn: "0 \<le> lh_n (lh l)" "lh_n (lh l) < LOGSIZE"
    using ok'(2,5) by (auto simp: sane_hdr_def log_geom_def)
  define k where "k = (case find (\<lambda>i. lh_block (lh l) i = n) [0..<nat (lh_n (lh l))] of Some i \<Rightarrow> i | None \<Rightarrow> nat (lh_n (lh l)))"
  define H where "H = (lh l)\<lparr>lh_block := (lh_block (lh l))(k := n), lh_n := (if int k = lh_n (lh l) then lh_n (lh l) + 1 else lh_n (lh l))\<rparr>"
  define b where "b = (bufs s i)\<lparr>flags := flags (bufs s i) OR B_DIRTY\<rparr>"
  define s' where "s' = upd_buf i (\<lambda>x. x\<lparr>flags := flags x OR B_DIRTY\<rparr>) (upd_log (\<lambda>l. l\<lparr>lh := H\<rparr>) s)"
  have blk: "b_blockno (bufs s i) = n" using a by (simp add: at_def)
  have e: "log_write i s = Ok s'"
    using nn(2) room o1 unfolding log_write_def Let_def blk s'_def H_def k_def l_def by simp
  have H: "sane_hdr l H \<and> logged (l\<lparr>lh := H\<rparr>) = insert (log_dev l, n) (logged l) \<and> lh_n H \<le> lh_n (lh l) + 1"
  proof (cases "find (\<lambda>i. lh_block (lh l) i = n) [0..<nat (lh_n (lh l))]")
    case None
    then have new: "lh_block (lh l) j \<noteq> n" if "j < nat (lh_n (lh l))" for j
      using that by (auto simp: find_upt_None)
    have kk: "k = nat (lh_n (lh l))" using None by (simp add: k_def)
    have Hn: "nat (lh_n H) = Suc k" "lh_n H = lh_n (lh l) + 1" "lh_block H = (lh_block (lh l))(k := n)"
      using nn(1) by (simp_all add: H_def kk nat_add_distrib)
    have old: "lh_block (lh l) j \<noteq> n" "home l (lh_block (lh l) j)" if "j < k" for j
      using new ok'(5) that by (simp_all add: kk sane_hdr_def)
    have "inj_on (lh_block (lh l)) {..<k}" using ok'(5) by (simp add: kk sane_hdr_def)
    then have "inj_on (lh_block H) {..<Suc k}" using old(1) by (auto simp: Hn(3) lessThan_Suc inj_on_def)
    moreover have "home l (lh_block H j)" if "j < Suc k" for j
      using old(2) [of j] n that by (cases "j = k") (auto simp: Hn(3) l_def)
    moreover have "0 \<le> lh_n H" "lh_n H \<le> log_size l - 1" using nn(1) room by (simp_all add: Hn(2) l_def)
    ultimately have "sane_hdr l H" unfolding sane_hdr_def Hn(1) by blast
    moreover have "logged (l\<lparr>lh := H\<rparr>) = insert (log_dev l, n) (logged l)"
      using kk by (auto simp: logged_def nlogged_def Hn(1,3) lessThan_Suc)
    ultimately show ?thesis by (simp add: Hn(2))
  next
    case (Some j)
    then have "k = j" by (simp add: k_def)
    moreover have j: "j < nat (lh_n (lh l))" "lh_block (lh l) j = n" using Some by (auto simp: find_upt_Some)
    ultimately have "H = lh l" by (auto simp: H_def)
    moreover have "(log_dev l, n) \<in> logged l" using j by (force simp: logged_def nlogged_def)
    ultimately show ?thesis using ok'(5) by (simp add: insert_absorb)
  qed
  have bs: "bufs s' = (bufs s)(i := b)" by (simp add: s'_def b_def upd_buf_def)
  have other: "log s' = l\<lparr>lh := H\<rparr>" "disk s' = disk s" "disk_writes s' = disk_writes s" "havedisk1 s' = havedisk1 s"
      "idequeue s' = idequeue s"
    by (simp_all add: s'_def l_def upd_buf_def) (simp add: upd_log_def)
  note ls' = other(1)
  have i: "i < NBUF" "b_valid (bufs s i)" using h by (simp_all add: held_def)
  have bv: "b_valid b" "b_dirty b" "at (log_dev l) n b" "is_locked b" "b_data b = b_data (bufs s i)"
    "b_dev b = b_dev (bufs s i)" "b_blockno b = b_blockno (bufs s i)" "b_lock b = b_lock (bufs s i)"
    using i(2) a held_locked [OF h] by (simp_all add: b_def at_def l_def is_locked_def bit_flags)
  have inv': "bc_inv s'"
  proof (rule bc_inv_upd [OF ok'(1) i(1) bs])
    show "b_next b = b_next (bufs s i)" "b_prev b = b_prev (bufs s i)" by (simp_all add: b_def)
    show "idequeue s' = None" using ok'(1) by (simp add: bc_inv_def other)
    show "buf_inv (disk s') b"
      using bc_inv_buf [OF ok'(1) i(1)] bv i(2) by (simp add: buf_inv_def is_locked_def at_def b_def)
    show "buf_inv (disk s') (bufs s j)" if "j < NBUF" for j
      using bc_inv_buf [OF ok'(1) that] by (simp add: other)
    show "b_dev b = 0 \<and> b_blockno b = 0" if "j < NBUF" "j \<noteq> i" "at (b_dev b) (b_blockno b) (bufs s j)" for j
      using bc_inv_unique [OF ok'(1) that(1) i(1) that(3)] that(2) bv(6,7) by (auto simp: at_def)
  qed
  have fr: "tx_frame s s'"
  proof -
    have "upd_log (\<lambda>_. log s') s = upd_log (\<lambda>l. l\<lparr>lh := H\<rparr>) s" by (simp add: upd_log_def ls' l_def)
    then have "bio_frame (upd_log (\<lambda>_. log s') s) s'" unfolding s'_def by (simp only: bio_frame_upd)
    then show ?thesis by (simp add: tx_frame_def ls' l_def)
  qed
  have "at e m (bufs s' j) \<and> b_dirty (bufs s' j) \<longleftrightarrow>
      (j = i \<and> e = log_dev l \<and> m = n) \<or> (at e m (bufs s j) \<and> b_dirty (bufs s j))" for e m j
    using bv(2,3) a by (cases "j = i") (auto simp: bs at_def l_def)
  then have dirt: "dirties s' = insert (log_dev l, n) (dirties s)"
    unfolding dirties_def using i(1) by blast
  have view: "view s' e m = view s e m" if "e \<le> 1" for e m
  proof -
    have "view s' e m = (if at e m b then b_data b else view s e m)"
      using that bv(1,6,7) by (intro view_upd [OF ok'(1) inv' i(1) bs]) (simp_all add: other at_def)
    moreover have "view s e m = b_data (bufs s i)" if "at e m b"
      using held_view [OF ok'(1) h] that bv(6,7) by (simp add: at_def)
    ultimately show ?thesis using bv(5) by simp
  qed
  have "held i s'"
    by (rule held_upd [OF h bs bv(8,1,6,7) _ _ h]) (simp_all add: other tx_frame_log(11) [OF fr])
  moreover have "lockset s' = lockset s" using lockset_upd [OF i(1) bs] bv(4) held_lockset [OF h] by auto
  moreover have "log_ok s'"
    using ok inv' H dirt tx_frame_log [OF fr] ok'(6) by (simp add: log_ok_def other l_def [symmetric])
  ultimately show ?thesis using e fr bv(2,3,5) H view by (auto simp: bs other l_def [symmetric])
qed

text \<open>Reading a block, changing it and recording the change: the pattern of every update of the file system.\<close>

lemma update_tx:
  assumes ok: "log_ok s" and n: "home (log s) n" and nb: "\<not> busy_block s (log_dev (log s)) n"
    and o1: "1 \<le> outstanding (log s)" and room: "lh_n (lh (log s)) < log_size (log s) - 1"
    and bufs: "nlogged (log s) + card (lockset s) < NBUF"
  defines "d \<equiv> log_dev (log s)"
  shows "\<exists>i t u s'. bread d n s = Ok (i, t) \<and> bio_frame s t \<and> b_data (bufs t i) = view s d n \<and>
    log_write i (set_data i v t) = Ok u \<and> brelse i u = Ok s' \<and> log_ok s' \<and> tx_frame s s' \<and> lockset s' = lockset s \<and>
    (\<forall>j \<in> lockset s. core (bufs s' j) = core (bufs s j)) \<and>
    logged (log s') = insert (d, n) (logged (log s)) \<and> lh_n (lh (log s')) \<le> lh_n (lh (log s)) + 1 \<and>
    disk s' = disk s \<and> disk_writes s' = disk_writes s \<and>
    (\<forall>e m. e \<le> 1 \<longrightarrow> view s' e m = (if e = d \<and> m = n then v else view s e m))"
proof -
  have ok': "bc_inv s" "log_geom (log s)" "hw_ok d s" "dirties s = logged (log s)" using ok by (simp_all add: log_ok_def d_def)
  have us: "usable s d n" using n unfolding d_def by (intro usable_geom [OF ok'(2) ok'(3) [unfolded d_def]]) (simp_all add: home_def)
  have "card (logged (log s)) \<le> nlogged (log s)" unfolding logged_def by (rule order_trans [OF card_image_le]) auto
  then have "card (dirties s) + card (lockset s) < NBUF \<or> (d, n) \<in> dirties s" using bufs by (simp add: ok'(4))
  then obtain i t where t: "bread d n s = Ok (i, t)" "bc_inv t" "held i t" "at d n (bufs t i)"
      "b_data (bufs t i) = view s d n" "\<forall>j. j \<noteq> i \<longrightarrow> bufs t j = bufs s j"
      "i \<notin> lockset s" "lockset t = insert i (lockset s)" "dirties t = dirties s"
      "\<forall>e m. e \<le> 1 \<longrightarrow> view t e m = view s e m" "disk t = disk s" "disk_writes t = disk_writes s" "bio_frame s t"
    using bread_tx [OF ok'(1) us] nb unfolding d_def by blast
  define w where "w = set_data i v t"
  note w = set_data_tx [OF t(2,3,4), where v = v, folded w_def]
  have fw: "bio_frame s w" by (rule bio_frame_trans [OF t(13) w(12)])
  have lw: "log w = log s" by (rule log_frame [OF fw])
  have okw: "log_ok w" using ok w(1,8,10) t(9,11) hw_ok_frame [OF fw] by (simp add: log_ok_def lw)
  obtain u where u: "log_write i w = Ok u" "log_ok u" "tx_frame w u" "held i u" "at d n (bufs u i)"
      "b_data (bufs u i) = b_data (bufs w i)" "b_dirty (bufs u i)" "\<forall>j. j \<noteq> i \<longrightarrow> bufs u j = bufs w j" "lockset u = lockset w"
      "logged (log u) = insert (d, n) (logged (log s))" "lh_n (lh (log u)) \<le> lh_n (lh (log s)) + 1"
      "disk u = disk w" "disk_writes u = disk_writes w" "\<forall>e m. e \<le> 1 \<longrightarrow> view u e m = view w e m"
    using log_write_ok [OF okw w(2) [OF t(3)], unfolded lw, folded d_def, OF w(3) n o1 room] by blast
  obtain s' where s': "brelse i u = Ok s'" "bc_inv s'" "\<forall>j. j \<noteq> i \<longrightarrow> core (bufs s' j) = core (bufs u j)"
    "lockset s' = lockset u - {i}" "dirties s' = dirties u" "\<forall>e m. e \<le> 1 \<longrightarrow> view s' e m = view u e m"
    "disk s' = disk u" "disk_writes s' = disk_writes u" "bio_frame u s'"
    using brelse_tx [OF _ u(4,5)] u(2,7) by (auto simp: log_ok_def)
  have ls': "log s' = log u" by (rule log_frame [OF s'(9)])
  have "log_ok s'" using u(2) s'(2,5,7) hw_ok_frame [OF s'(9)] by (simp add: log_ok_def ls')
  moreover have "tx_frame s s'" using tx_frame_bio [OF fw] u(3) tx_frame_bio [OF s'(9)] by (blast intro: tx_frame_trans)
  moreover have "core (bufs s' j) = core (bufs s j)" if "j \<in> lockset s" for j
  proof -
    have "j \<noteq> i" using that t(7) by auto
    then show ?thesis using s'(3) u(8) w(6) t(6) by simp
  qed
  moreover have "lockset s' = lockset s" using s'(4) u(9) w(7) t(7,8) by auto
  moreover have "view s' e m = (if e = d \<and> m = n then v else view s e m)" if "e \<le> 1" for e m
    using s'(6) u(14) w(9) t(10) that by simp
  moreover have "logged (log s') = insert (d, n) (logged (log s))" "lh_n (lh (log s')) \<le> lh_n (lh (log s)) + 1"
    using u(10,11) by (simp_all add: ls')
  moreover have "disk s' = disk s" "disk_writes s' = disk_writes s" using s'(7,8) u(12,13) w(10,11) t(11,12) by simp_all
  ultimately show ?thesis using t(1,5,13) u(1) [unfolded w_def] s'(1) by blast
qed


section \<open>Recovery at boot\<close>

lemma read_head_ok:
  assumes "quiet s" and "dirties s = {}" and g: "log_geom (log s)" "hw_ok (log_dev (log s)) s"
  defines "l \<equiv> log s"
  defines "h \<equiv> hdr l (disk s (log_dev l))"
  shows "\<exists>s'. read_head s = Ok s' \<and> dirties s' = {} \<and> writes_to (log_dev l) [] (upd_log (\<lambda>l. l\<lparr>lh := h\<rparr>) s) s'"
proof -
  let ?d = "log_dev l"
  have us: "usable s ?d (log_start l)"
    using g(1) unfolding l_def by (intro usable_geom [OF g]) (auto simp: log_geom_def)
  have q: "bc_inv s" "lockset s = {}" using assms(1) by (simp_all add: quiet_def)
  have nb: "\<not> busy_block s ?d (log_start l)" by (simp add: busy_block_def q(2))
  have room: "card (dirties s) + card (lockset s) < NBUF" by (simp add: q(2) assms(2) NBUF_def)
  obtain i t where t: "bread ?d (log_start l) s = Ok (i, t)" "bc_inv t" "held i t" "at ?d (log_start l) (bufs t i)"
      "b_data (bufs t i) = view s ?d (log_start l)" "lockset t = insert i (lockset s)" "dirties t = dirties s"
      "\<forall>e m. e \<le> 1 \<longrightarrow> view t e m = view s e m" "disk t = disk s" "disk_writes t = disk_writes s" "bio_frame s t"
    using bread_tx [OF q(1) us nb disjI1 [OF room]] by blast
  have v: "view s ?d (log_start l) = disk s ?d (log_start l)"
    using quiet_src [OF assms(1) us] by (simp add: assms(2))
  define u where "u = upd_log (\<lambda>l. l\<lparr>lh := h\<rparr>) t"
  have "b_data (bufs u i) = disk u ?d (log_start l)" using t(5,9) v by (simp add: u_def)
  then obtain s' where s': "brelse i u = Ok s'" "bc_inv s'" "lockset s' = lockset u - {i}" "dirties s' = dirties u"
      "\<forall>e m. e \<le> 1 \<longrightarrow> view s' e m = view u e m" "disk s' = disk u" "disk_writes s' = disk_writes u" "bio_frame u s'"
    using brelse_tx [of u i ?d "log_start l"] t(2,3,4) by (auto simp: u_def)
  have "log t = l" using log_frame [OF t(11)] by (simp add: l_def)
  then have "read_head s = Ok s'" using t(1,5) s'(1) v by (simp add: read_head_def u_def h_def hdr_def l_def upd_log_def)
  moreover have "bio_frame (upd_log (\<lambda>l. l\<lparr>lh := h\<rparr>) s) s'"
    using bio_frame_trans [OF bio_frame_upd_log [OF t(11)] s'(8) [unfolded u_def]] .
  moreover have "view s' ?d = view s ?d" using s'(5) t(8) us by (auto simp: u_def usable_def)
  ultimately have "writes_to ?d [] (upd_log (\<lambda>l. l\<lparr>lh := h\<rparr>) s) s'"
    using s' t q by (auto simp: writes_to_def quiet_def u_def)
  then show ?thesis using \<open>read_head s = Ok s'\<close> s'(4) t(7) assms(2) by (auto simp: u_def)
qed

lemma home_usable: "log_geom l \<Longrightarrow> hw_ok (log_dev l) s \<Longrightarrow> home l n \<Longrightarrow> usable s (log_dev l) n"
  by (rule usable_geom) (simp_all add: home_def)

lemma recover_ok:
  assumes q: "quiet s" "dirties s = {}" and hw: "hw_ok (log_dev (log s)) s"
  defines "l \<equiv> log s"
  defines "D \<equiv> disk s (log_dev l)"
  assumes D: "log_disk l D"
  shows "\<exists>s'. recover_from_log s = Ok s' \<and> dirties s' = {} \<and>
    writes_to (log_dev l) (recovery_writes l D) (upd_log (\<lambda>x. x\<lparr>lh := (hdr l D)\<lparr>lh_n := 0\<rparr>\<rparr>) s) s'"
proof -
  let ?d = "log_dev l"
  define h where "h = hdr l D"
  let ?f = "\<lambda>l. l\<lparr>lh := h\<rparr>"
  have g: "log_geom l" "sane_hdr l h" using D by (simp_all add: log_disk_def h_def)
  have vD: "view s ?d n = D n" if "usable s ?d n" for n
    using quiet_src [OF q(1) that] by (simp add: q(2) D_def)
  obtain t where t: "read_head s = Ok t" "dirties t = {}" "writes_to ?d [] (upd_log ?f s) t"
    using read_head_ok [OF q g(1) [unfolded l_def] hw] unfolding l_def D_def h_def by blast
  have lt: "log t = l\<lparr>lh := h\<rparr>" using log_frame_dev [OF t(3)] by (simp add: l_def)
  have hwt: "hw_ok ?d t" using t(3) hw_ok_frame [of "upd_log ?f s" t ?d] hw by (simp add: writes_to_def l_def)
  have rt: "log_ready t" using t(3) g hwt by (simp add: log_ready_def writes_to_def lt)
  have vt: "view t ?d = view s ?d" using t(3) by (simp add: writes_to_def)
  have n: "nlogged (l\<lparr>lh := h\<rparr>) = nat (lh_n h)" by (simp add: nlogged_def)
  obtain u where u: "install_trans t = Ok u" "dirties u = {}"
      "writes_to ?d (install_writes l h (nat (lh_n h)) (view s ?d)) t u"
    using install_ok [OF rt disjI2 [OF t(2)] order_refl] unfolding lt n install_trans_def
    by (auto simp: t(2) vt install_writes_def)
  have iw: "install_writes l h (nat (lh_n h)) (view s ?d) = install_writes l h (nat (lh_n h)) D"
  proof -
    have "view s ?d (copy_at l k) = D (copy_at l k)" if "k < nat (lh_n h)" for k
      using copy_at_unat [OF g(1) hdr_bound [OF g(2) that]] hdr_bound [OF g(2) that] g(1)
      by (intro vD usable_geom [OF g(1) hw [folded l_def]]) (simp_all add: log_geom_def)
    then show ?thesis by (simp add: install_writes_def)
  qed
  define u' where "u' = upd_log (set_n 0) u"
  have lu: "log u = l\<lparr>lh := h\<rparr>" using log_frame_dev [OF u(3)] lt by simp
  have qu: "quiet u'" "hw_ok ?d u'" using log_ready_step [OF rt u(3)] by (simp_all add: log_ready_def u'_def lu)
  have "log_start l \<notin> fst ` set (install_writes l h (nat (lh_n h)) (view s ?d))"
    unfolding install_writes_fst using hdr_home [OF g(2)] home_start [OF g(1)] by fastforce
  moreover have "view s ?d (log_start l) = D (log_start l)"
    using g(1) by (intro vD usable_geom [OF g(1) hw [folded l_def]]) (auto simp: log_geom_def)
  ultimately have vh: "view u' ?d (log_start l) = D (log_start l)"
    using u(3) vt by (simp add: u'_def writes_to_def wr_other)
  obtain s' where s': "write_head u' = Ok s'" "dirties s' = {}" "writes_to ?d [(log_start l, st32 (D (log_start l)) 0 0)] u' s'"
    using write_head_ok [of u'] qu g(1) u(2) vh put_header_0 [of h]
    by (auto simp: u'_def set_n_def lu NBUF_def log_geom_def)
  have "recover_from_log s = Ok s'" using t(1) u(1) s'(1) by (simp add: recover_from_log_def u'_def)
  moreover have "upd_log (set_n 0) (upd_log ?f s) = upd_log (\<lambda>l. l\<lparr>lh := h\<lparr>lh_n := 0\<rparr>\<rparr>) s"
    by (simp add: upd_log_def set_n_def)
  then have "writes_to ?d (recovery_writes l D) (upd_log (\<lambda>l. l\<lparr>lh := h\<lparr>lh_n := 0\<rparr>\<rparr>) s) s'"
    using writes_to_trans [OF writes_to_upd_log [OF writes_to_trans [OF t(3) u(3)], of "set_n 0"] s'(3) [unfolded u'_def]]
    by (simp add: recovery_writes_def iw [unfolded h_def] h_def)
  ultimately show ?thesis using s'(2) by (auto simp: h_def l_def)
qed

text \<open>A machine that has just started: nothing is cached, no operation has begun.\<close>

definition booted :: "uint \<Rightarrow> 'a log_st_scheme \<Rightarrow> bool" where
  "booted d s \<longleftrightarrow> quiet s \<and> dirties s = {} \<and> hw_ok d s \<and> outstanding (log s) = 0 \<and> \<not> committing (log s)"

lemma log_disk_cong:
  assumes "log_start l' = log_start l" "log_size l' = log_size l" "log_dev l' = log_dev l"
  shows "log_disk l' D = log_disk l D" "recovery_writes l' D = recovery_writes l D" "recovered l' D = recovered l D"
    "home l' = home l" "log_geom l' = log_geom l"
proof -
  have h: "lh_n (hdr l' D) = lh_n (hdr l D)" "\<And>k. k < nat (lh_n (hdr l D)) \<Longrightarrow> lh_block (hdr l' D) k = lh_block (hdr l D) k"
    by (simp_all add: hdr_def header_of_def Let_def assms)
  have w: "install_writes l' (hdr l' D) (nat (lh_n (hdr l D))) D = install_writes l (hdr l D) (nat (lh_n (hdr l D))) D"
    using h(2) by (simp add: install_writes_def copy_at_def assms)
  show "home l' = home l" "log_geom l' = log_geom l" by (simp_all add: home_def [abs_def] log_geom_def assms)
  then have "sane_hdr l' h = sane_hdr l h" for h by (simp add: sane_hdr_def assms)
  then show "log_disk l' D = log_disk l D"
    using \<open>log_geom l' = log_geom l\<close> sane_hdr_cong [OF h, of l] by (simp add: log_disk_def sb_ok_def assms)
  show "recovery_writes l' D = recovery_writes l D" "recovered l' D = recovered l D"
    by (simp_all add: recovery_writes_def recovered_def h(1) w assms)
qed

lemma initlog_ok:
  assumes b: "booted (log_dev l) s" and D: "log_disk l (disk s (log_dev l))"
  defines "d \<equiv> log_dev l"
  defines "D \<equiv> disk s d"
  shows "\<exists>s'. initlog d s = Ok s' \<and> log_idle s' \<and> log_start (log s') = log_start l \<and> log_size (log s') = log_size l \<and>
    log_dev (log s') = d \<and> (\<forall>n. home l n \<longrightarrow> view s' d n = recovered l D n) \<and>
    disk_writes s' = disk_writes s @ map (Pair d) (recovery_writes l D)"
proof -
  have q: "quiet s" "dirties s = {}" "hw_ok d s" "outstanding (log s) = 0" "\<not> committing (log s)"
    using b by (simp_all add: booted_def d_def)
  have g: "log_geom l" "sb_ok l D" "log_disk l D" using D by (simp_all add: log_disk_def D_def d_def)
  have us: "usable s d 1" using usable_geom [OF g(1) q(3) [unfolded d_def], of 1] by (simp add: d_def)
  have q': "bc_inv s" "lockset s = {}" using q(1) by (simp_all add: quiet_def)
  have nb: "\<not> busy_block s d 1" by (simp add: busy_block_def q'(2))
  have room: "card (dirties s) + card (lockset s) < NBUF" by (simp add: q(2) q'(2) NBUF_def)
  obtain i t u where t: "bread d 1 s = Ok (i, t)" "b_data (bufs t i) = view s d 1" "brelse i t = Ok u"
     "bc_inv u" "lockset u = lockset s" "dirties u = dirties s" "bio_frame s u" "disk u = disk s"
     "disk_writes u = disk_writes s" "\<forall>e m. e \<le> 1 \<longrightarrow> view u e m = view s e m"
    using read_block_tx [OF q'(1) us nb disjI1 [OF room]] by blast
  have vD: "view s d n = D n" if "usable s d n" for n using quiet_src [OF q(1) that] by (simp add: q(2) D_def)
  let ?f = "\<lambda>x. x\<lparr>log_start := log_start l, log_size := log_size l, log_dev := d\<rparr>"
  define w where "w = upd_log ?f u"
  have lu: "log u = log s" by (rule log_frame [OF t(7)])
  have i: "initlog d s = recover_from_log w"
    using t(1-3) vD [OF us] g(2)
    by (simp add: initlog_def readsb_def Let_def LOGSIZE_def MAXOPBLOCKS_def BSIZE_def w_def sb_ok_def)
  have w: "log w = ?f (log s)" "quiet w" "dirties w = {}" "hw_ok d w" "disk w = disk s"
    using t(4-6,8) q q' hw_ok_frame [OF t(7)] lu by (simp_all add: w_def quiet_def)
  have c: "log_start (log w) = log_start l" "log_size (log w) = log_size l" "log_dev (log w) = log_dev l"
    by (simp_all add: w(1) d_def)
  note lc = log_disk_cong [OF c]
  have "hw_ok (log_dev (log w)) w" "log_disk (log w) (disk w (log_dev (log w)))"
    using w(4) g(3) lc(1) by (simp_all add: c d_def w(5) D_def)
  from recover_ok [OF w(2,3) this] obtain s' where s': "recover_from_log w = Ok s'" "dirties s' = {}"
     "writes_to d (recovery_writes l D) (upd_log (\<lambda>x. x\<lparr>lh := (hdr (log w) D)\<lparr>lh_n := 0\<rparr>\<rparr>) w) s'"
    unfolding c lc w(5) d_def D_def by blast
  have ls': "log s' = (log w)\<lparr>lh := (hdr (log w) D)\<lparr>lh_n := 0\<rparr>\<rparr>" using log_frame_dev [OF s'(3)] by simp
  have vw: "view w d = view s d" "disk_writes w = disk_writes s" using t(9,10) us by (auto simp: w_def usable_def)
  have sd: "disk s' d = wr (recovery_writes l D) D" "view s' d = wr (recovery_writes l D) (view s d)" "hw_ok d s'"
      "disk_writes s' = disk_writes s @ map (Pair d) (recovery_writes l D)" "bc_inv s'" "lockset s' = {}"
    using s'(3) w(2,4,5) vw hw_ok_frame [of "upd_log (\<lambda>x. x\<lparr>lh := (hdr (log w) D)\<lparr>lh_n := 0\<rparr>\<rparr>) w" s' d]
    by (simp_all add: writes_to_def D_def quiet_def)
  note p = recovery_prefix [OF g(3), where j = "length (recovery_writes l D)", unfolded take_all [OF order_refl]]
  have "sb_ok l (wr (recovery_writes l D) D)" using p(1) by (simp add: log_disk_def)
  moreover have "ld32 (wr (recovery_writes l D) D (log_start l)) 0 = 0" by (simp add: recovery_writes_def)
  moreover have "log_geom (log w)" using g(1) lc(5) by simp
  ultimately have "log_idle s'"
    using sd s'(2) q(4,5) by (simp add: log_idle_def log_ok_def ls' c w(1) d_def sb_ok_def logged_def nlogged_def log_geom_def)
  moreover have "view s' d n = recovered l D n" if n: "home l n" for n
  proof -
    have "n \<noteq> log_start l" by (rule home_start [OF g(1) n])
    moreover have "view s d n = D n" by (rule vD) (use home_usable [OF g(1) q(3) [unfolded d_def] n] in \<open>simp add: d_def\<close>)
    ultimately show ?thesis
      using wr_cong [of "view s d" n D "install_writes l (hdr l D) (nat (lh_n (hdr l D))) D"]
      by (simp add: sd(2) recovery_writes_def recovered_def)
  qed
  ultimately show ?thesis using i s'(1) sd(4) by (simp add: ls' c d_def)
qed


section \<open>Transactions\<close>

text \<open>The protocol of a system call that modifies blocks: the contents of each block are replaced in turn.\<close>

definition update_block :: "uint \<times> block \<Rightarrow> 'a log_st_scheme \<Rightarrow> 'a log_st_scheme result" where
  "update_block w s =
     rbind (bread (log_dev (log s)) (fst w) s) (\<lambda>(b, s). rbind (log_write b (set_data b (snd w) s)) (brelse b))"

definition transaction :: "(uint \<times> block) list \<Rightarrow> 'a log_st_scheme \<Rightarrow> 'a log_st_scheme result" where
  "transaction us s = rbind (begin_op s) (\<lambda>s. rbind (for_each update_block us s) end_op)"

lemma card_logged_eq: "sane_hdr l (lh l) \<Longrightarrow> card (logged l) = nlogged l \<and> int (nlogged l) = lh_n (lh l)"
proof -
  assume h: "sane_hdr l (lh l)"
  have "inj_on (\<lambda>k. (log_dev l, lh_block (lh l) k)) {..<nlogged l}"
    using h by (auto simp: inj_on_def sane_hdr_def nlogged_def)
  then have "card (logged l) = nlogged l" unfolding logged_def by (subst card_image) simp_all
  then show ?thesis using h by (simp add: nlogged_def sane_hdr_def)
qed

lemma updates_ok:
  assumes "log_ok s" and "lockset s = {}" and "1 \<le> outstanding (log s)" and "\<forall>w \<in> set us. home (log s) (fst w)"
    and "int (card (logged (log s) \<union> (\<lambda>w. (log_dev (log s), fst w)) ` set us)) < log_size (log s) - 1"
  defines "d \<equiv> log_dev (log s)"
  shows "\<exists>s'. for_each update_block us s = Ok s' \<and> log_ok s' \<and> lockset s' = {} \<and> tx_frame s s' \<and>
    logged (log s') = logged (log s) \<union> (\<lambda>w. (d, fst w)) ` set us \<and> disk s' = disk s \<and> disk_writes s' = disk_writes s \<and>
    view s' d = wr us (view s d)"
  using assms(1-5) unfolding d_def
proof (induction us arbitrary: s)
  case Nil
  then show ?case using tx_frame_bio [of s s] by simp
next
  case (Cons w us)
  obtain n v where w: "w = (n, v)" by (cases w)
  let ?d = "log_dev (log s)"
  have g: "sane_hdr (log s) (lh (log s))" "log_geom (log s)" using Cons.prems(1) by (simp_all add: log_ok_def)
  have fin: "finite (logged (log s))" by (simp add: logged_def)
  have "card (logged (log s)) \<le> card (logged (log s) \<union> (\<lambda>w. (?d, fst w)) ` set (w # us))"
    by (rule card_mono) (use fin in auto)
  then have room: "lh_n (lh (log s)) < log_size (log s) - 1" using card_logged_eq [OF g(1)] Cons.prems(5) by linarith
  have nb: "\<not> busy_block s ?d n" by (simp add: busy_block_def Cons.prems(2))
  have bufs: "nlogged (log s) + card (lockset s) < NBUF"
    using card_logged [OF g(2,1)] card_logged_eq [OF g(1)] by (simp add: Cons.prems(2))
  have hn: "home (log s) n" using Cons.prems(4) by (simp add: w)
  obtain i t p u where u: "bread ?d n s = Ok (i, t)" "log_write i (set_data i v t) = Ok p" "brelse i p = Ok u" "log_ok u" "tx_frame s u"
      "lockset u = lockset s" "logged (log u) = insert (?d, n) (logged (log s))" "disk u = disk s" "disk_writes u = disk_writes s"
      "\<forall>e m. e \<le> 1 \<longrightarrow> view u e m = (if e = ?d \<and> m = n then v else view s e m)"
    using update_tx [OF Cons.prems(1) hn nb Cons.prems(3) room bufs, of v] by blast
  note f = tx_frame_log [OF u(5)]
  have un: "logged (log u) \<union> (\<lambda>w. (?d, fst w)) ` set us = logged (log s) \<union> (\<lambda>w. (?d, fst w)) ` set (w # us)"
    by (auto simp: u(7) w)
  have "lockset u = {}" "1 \<le> outstanding (log u)" "\<forall>w \<in> set us. home (log u) (fst w)"
      "int (card (logged (log u) \<union> (\<lambda>w. (log_dev (log u), fst w)) ` set us)) < log_size (log u) - 1"
    using Cons.prems(2-5) by (simp_all add: u(6) f un del: set_simps) (simp add: w)
  from Cons.IH [OF u(4) this] obtain s' where s': "for_each update_block us u = Ok s'" "log_ok s'" "lockset s' = {}" "tx_frame u s'"
      "logged (log s') = logged (log u) \<union> (\<lambda>w. (?d, fst w)) ` set us" "disk s' = disk u" "disk_writes s' = disk_writes u"
      "view s' ?d = wr us (view u ?d)"
    unfolding f by blast
  have "?d \<le> 1" using g(2) by (simp add: log_geom_def)
  then have "view u ?d = (view s ?d)(n := v)" using u(10) by auto
  moreover have "update_block w s = Ok u" using u(1-3) by (simp add: update_block_def w)
  ultimately show ?case using s' u(8,9) un tx_frame_trans [OF u(5) s'(4)] by (simp add: w)
qed

text \<open>
  \<open>interrupted d D E\<close>: starting from disk \<open>D\<close>, some number of boots were cut short during
  \<^verbatim>\<open>initlog\<close>, each after an arbitrary prefix of its writes, and left the disk \<open>E\<close>.
\<close>

inductive interrupted :: "uint \<Rightarrow> (uint \<Rightarrow> uint \<Rightarrow> block) \<Rightarrow> (uint \<Rightarrow> uint \<Rightarrow> block) \<Rightarrow> bool" for d D where
  none: "interrupted d D D"
| again: "interrupted d D E \<Longrightarrow> booted d r \<Longrightarrow> disk r = E \<Longrightarrow> initlog d r = Ok (r' :: log_st) \<Longrightarrow>
    interrupted d D (crash_disk j r r')"

lemma interrupted_recovers:
  assumes "interrupted d D E" and "log_disk l (D d)" and "log_dev l = d"
  shows "log_disk l (E d) \<and> (\<forall>n. home l n \<longrightarrow> recovered l (E d) n = recovered l (D d) n)"
  using assms
proof (induction rule: interrupted.induct)
  case (again E r r' j)
  then have E: "log_disk l (disk r (log_dev l))" "booted (log_dev l) r" by auto
  obtain r'' where "initlog (log_dev l) r = Ok r''"
      "disk_writes r'' = disk_writes r @ map (Pair (log_dev l)) (recovery_writes l (disk r (log_dev l)))"
    using initlog_ok [OF E(2,1)] by blast
  then have "crash_disk j r r' d = wr (take j (recovery_writes l (E d))) (E d)"
    using again crash_disk_writes [of r' r d "recovery_writes l (E d)" j] by simp
  then show ?case using recovery_prefix [where l = l and D = "E d" and j = j] again E by simp
qed simp

lemma transaction_ok:
  assumes idle: "log_idle s" and us: "\<forall>w \<in> set us. home (log s) (fst w)"
    and fits: "int (card (fst ` set us)) < log_size (log s) - 1"
  defines "d \<equiv> log_dev (log s)"
  shows "\<exists>s' l. transaction us s = Ok s' \<and> log_idle s' \<and> home l = home (log s) \<and> log_dev l = d \<and>
    (\<forall>n. home (log s) n \<longrightarrow> view s' d n = wr us (view s d) n) \<and> log_disk l (disk s d) \<and>
    (\<exists>ws m. disk_writes s' = disk_writes s @ map (Pair d) ws \<and> m \<le> length ws \<and>
      (\<forall>j. log_disk l (wr (take j ws) (disk s d)) \<and>
        (\<forall>n. home (log s) n \<longrightarrow> recovered l (wr (take j ws) (disk s d)) n = (if j < m then view s d n else wr us (view s d) n))))"
proof -
  have ok: "log_ok s" "lockset s = {}" "outstanding (log s) = 0" "lh_n (lh (log s)) = 0" "\<not> committing (log s)"
    using idle by (simp_all add: log_idle_def log_ok_def)
  define t where "t = upd_log (\<lambda>l. l\<lparr>outstanding := 1\<rparr>) s"
  have b: "begin_op s = Ok t"
    using ok(3-5) by (simp add: begin_op_def t_def MAXOPBLOCKS_def LOGSIZE_def upd_log_def)
  have l0: "logged (log s) = {}" using ok(4) by (simp add: logged_def nlogged_def)
  have t: "log_ok t" "lockset t = {}" "log_dev (log t) = d" "home (log t) = home (log s)" "log_size (log t) = log_size (log s)"
      "outstanding (log t) = 1" "logged (log t) = {}"
    using ok l0 by (simp_all add: t_def log_ok_def d_def)
  have "card ((\<lambda>w. (d, fst w)) ` set us) = card (fst ` set us)"
    by (rule bij_betw_same_card [of snd]) (force simp: bij_betw_def inj_on_def image_image)
  then obtain u where u: "for_each update_block us t = Ok u" "log_ok u" "lockset u = {}" "tx_frame t u"
      "disk u = disk t" "disk_writes u = disk_writes t" "view u d = wr us (view t d)"
    using updates_ok [of t us] t us fits by auto
  let ?l = "log u"
  have fu: "log_dev ?l = d" "home ?l = home (log s)" "outstanding ?l = 1" using tx_frame_log [OF u(4)] t by simp_all
  obtain s' where s': "end_op u = Ok s'" "log_idle s'" "\<forall>n. home (log s) n \<longrightarrow> view s' d n = view u d n"
      "disk_writes s' = disk_writes u @ map (Pair d) (if lh_n (lh ?l) = 0 then [] else commit_writes ?l (view u d))"
    using end_op_ok [OF u(2,3) fu(3)] unfolding fu by blast
  have same: "view t = view s" "disk u = disk s" "disk_writes u = disk_writes s" using u(5,6) by (simp_all add: t_def)
  have D: "log_disk ?l (disk s d)" "lh_n (hdr ?l (disk s d)) = 0" using log_ok_disk [OF u(2)] by (simp_all add: fu same)
  have vs: "view s d n = disk s d n" if "home (log s) n" for n
    using log_ok_view [OF ok(1,2) that] ok(4) by (simp add: d_def nlogged_def)
  have vu: "view u d n = disk s d n" if "home ?l n" "n \<notin> lh_block (lh ?l) ` {..<nlogged ?l}" for n
    using log_ok_view [OF u(2,3) that] by (simp add: fu same)
  have s1: "transaction us s = Ok s'" using b u(1) s'(1) by (simp add: transaction_def)
  have s2: "view s' d n = wr us (view s d) n" if "home (log s) n" for n using s'(3) that u(7) by (simp add: same)
  show ?thesis
  proof (cases "lh_n (lh ?l) = 0")
    case True
    then have "recovered ?l (disk s d) n = wr us (view s d) n" if "home (log s) n" for n
      using recovered_cleared [OF D(2)] vu [of n] u(7) that by (simp add: fu nlogged_def same)
    then show ?thesis using s1 s2 s'(2,4) D(1) True fu
      by (intro exI [of _ s'] exI [of _ ?l] conjI exI [of _ "[]"] exI [of _ 0]) (simp_all add: same)
  next
    case False
    have sane: "sane_hdr ?l (lh ?l)" using u(2) by (simp add: log_ok_def)
    note p = commit_prefix [OF D sane, of "view u d", OF vu]
    have "recovered ?l (wr (take j (commit_writes ?l (view u d))) (disk s d)) n =
        (if j < Suc (nlogged ?l) then view s d n else wr us (view s d) n)" if "home (log s) n" for n j
      using p(2) [of n j] that vs [OF that] u(7) by (simp add: fu same less_Suc_eq_le)
    moreover have "Suc (nlogged ?l) \<le> length (commit_writes ?l (view u d))" by (simp add: commit_writes_def log_writes_def)
    ultimately show ?thesis using s1 s2 s'(2,4) D(1) False fu p(1)
      by (intro exI [of _ s'] exI [of _ ?l] conjI exI [of _ "commit_writes ?l (view u d)"] exI [of _ "Suc (nlogged ?l)"])
        (simp_all add: same)
  qed
qed


section \<open>A concrete disk\<close>

text \<open>A disk with the layout \<^verbatim>\<open>mkfs\<close> gives it: the log occupies the 30 blocks from block 2.\<close>

definition sb_block :: block where
  "sb_block = st32 (st32 (\<lambda>_. 0) 12 30) 16 2"

definition log0 :: log_st where
  "log0 = bio_st.extend (bio0\<lparr>disk := (\<lambda>_ _ _. 0)(1 := (\<lambda>_ _. 0)(1 := sb_block))\<rparr>)
     \<lparr>log = \<lparr>log_start = 0, log_size = 0, outstanding = 0, committing = False, log_dev = 0,
        lh = \<lparr>lh_n = 0, lh_block = \<lambda>_. 0\<rparr>\<rparr>\<rparr>"

definition geom0 :: loginfo where
  "geom0 = \<lparr>log_start = 2, log_size = 30, outstanding = 0, committing = False, log_dev = 1,
     lh = \<lparr>lh_n = 0, lh_block = \<lambda>_. 0\<rparr>\<rparr>"

lemma idle_quiet: "idle s \<Longrightarrow> quiet s \<and> dirties s = {}"
  by (auto simp: idle_def quiet_def lockset_def dirties_def)

lemma log0_booted: "booted 1 (binit log0)"
proof -
  have z: "\<And>i. bufs log0 i = zero_buf" "idequeue log0 = None" "havedisk1 log0" "\<And>d n. \<not> ide_fails log0 d n"
    by (simp_all add: log0_def bio0_def bio_st.defs)
  have fr: "bio_frame log0 (binit log0)" by (rule binit_core(2)) (simp add: z)
  have "idle (binit log0)" by (rule binit_idle) (simp_all add: z)
  moreover have "hw_ok 1 (binit log0)" unfolding hw_ok_frame [OF fr] using z by (simp add: hw_ok_def)
  moreover have "log (binit log0) = log log0" by (rule log_frame [OF fr])
  ultimately show ?thesis
    using idle_quiet [of "binit log0"] by (simp add: booted_def) (simp add: log0_def bio0_def bio_st.defs)
qed

lemma log0_disk: "disk (binit log0) = disk log0"
  by (rule binit_core(3)) (simp add: log0_def bio0_def bio_st.defs)

lemma geom0_disk: "log_disk geom0 (disk (binit log0) 1)"
proof -
  have "disk log0 1 1 = sb_block" "disk log0 1 2 = (\<lambda>_. 0)" by (simp_all add: log0_def bio0_def bio_st.defs)
  moreover have "ld32 sb_block 16 = 2" "ld32 sb_block 12 = 30" by (simp_all add: sb_block_def)
  moreover have "ld32 (\<lambda>_ :: nat. 0) 0 = 0" by (simp add: ld32_def)
  ultimately show ?thesis
    by (simp add: log_disk_def log0_disk log_geom_def geom0_def LOGSIZE_def MAXOPBLOCKS_def sb_ok_def superblock_of_def
        sane_hdr_def hdr_def header_of_def Let_def)
qed

lemma log0_starts:
  "\<exists>s. initlog 1 (binit log0) = Ok s \<and> log_idle s \<and> log_dev (log s) = 1 \<and> home (log s) = home geom0 \<and>
     log_size (log s) = 30 \<and> view s 1 50 = (\<lambda>_. 0)"
proof -
  have d: "log_dev geom0 = 1" by (simp add: geom0_def)
  obtain s where s: "initlog 1 (binit log0) = Ok s" "log_idle s" "log_start (log s) = log_start geom0"
      "log_size (log s) = log_size geom0" "log_dev (log s) = 1"
      "\<forall>n. home geom0 n \<longrightarrow> view s 1 n = recovered geom0 (disk (binit log0) 1) n"
    using initlog_ok [of geom0 "binit log0"] log0_booted geom0_disk unfolding d by blast
  have "home (log s) = home geom0" using log_disk_cong(4) [of "log s" geom0] s(3-5) d by simp
  moreover have "log_size geom0 = 30" by (simp add: geom0_def)
  moreover have "home geom0 50" by (simp add: home_def geom0_def)
  moreover have z: "lh_n (hdr geom0 (disk (binit log0) 1)) = 0"
    unfolding log0_disk hdr_def by (rule header_of_cleared) (simp add: geom0_def log0_def bio0_def bio_st.defs ld32_def)
  have "recovered geom0 (disk (binit log0) 1) 50 = (\<lambda>_. 0)"
    unfolding recovered_cleared [OF z] by (simp add: log0_disk) (simp add: log0_def bio0_def bio_st.defs)
  ultimately show ?thesis using s by auto
qed

section \<open>Claims\<close>

text \<open>
  Crash safety of the log (C1).  Run a transaction that replaces the contents of blocks outside the
  log (fewer distinct blocks than the log has room for) on a log at rest.  It completes, the new
  contents are visible afterwards, and the log is at rest again.  Moreover there is a point \<open>m\<close> in the
  sequence of disk writes it issued such that, if the machine crashes after \<open>j\<close> of these writes and
  then any number of restarts crash in the middle of recovery, the next complete recovery succeeds and
  finds every block outside the log with its old contents if \<open>j < m\<close>, and with its new contents
  otherwise: the transaction happened entirely or not at all, and a transaction whose \<^verbatim>\<open>end_op\<close>
  returned is never lost.
\<close>

theorem transaction_atomic:
  assumes "log_idle s" and "\<forall>w \<in> set us. home (log s) (fst w)" and "int (card (fst ` set us)) < log_size (log s) - 1"
    and "d = log_dev (log s)"
  shows "\<exists>s'. transaction us s = Ok s' \<and> log_idle s' \<and> (\<forall>n. home (log s) n \<longrightarrow> view s' d n = wr us (view s d) n) \<and>
    (\<exists>m \<le> length (new_writes s s'). \<forall>j E r. interrupted d (crash_disk j s s') E \<longrightarrow> booted d r \<longrightarrow> disk r = E \<longrightarrow>
      (\<exists>r'. initlog d (r :: log_st) = Ok r' \<and> log_idle r' \<and>
        (\<forall>n. home (log s) n \<longrightarrow> view r' d n = (if j < m then view s d n else wr us (view s d) n))))"
proof -
  obtain s' l ws m where t: "transaction us s = Ok s'" "log_idle s'" "home l = home (log s)" "log_dev l = d"
    "\<forall>n. home (log s) n \<longrightarrow> view s' d n = wr us (view s d) n"
    "disk_writes s' = disk_writes s @ map (Pair d) ws" "m \<le> length ws"
    and p: "\<forall>j. log_disk l (wr (take j ws) (disk s d)) \<and>
        (\<forall>n. home (log s) n \<longrightarrow> recovered l (wr (take j ws) (disk s d)) n = (if j < m then view s d n else wr us (view s d) n))"
    using transaction_ok [OF assms(1-3)] unfolding assms(4) [symmetric] by blast
  have "\<exists>r'. initlog d r = Ok r' \<and> log_idle r' \<and>
      (\<forall>n. home (log s) n \<longrightarrow> view r' d n = (if j < m then view s d n else wr us (view s d) n))"
    if i: "interrupted d (crash_disk j s s') E" and r: "booted d r" "disk r = E" for j E and r :: log_st
  proof -
    have "crash_disk j s s' d = wr (take j ws) (disk s d)" using crash_disk_writes [OF t(6)] by simp
    then have E: "log_disk l (E d)"
      "\<And>n. home (log s) n \<Longrightarrow> recovered l (E d) n = (if j < m then view s d n else wr us (view s d) n)"
      using interrupted_recovers [OF i _ t(4)] p t(3) by simp_all
    have "booted (log_dev l) r" "log_disk l (disk r (log_dev l))" using r E(1) t(4) by simp_all
    from initlog_ok [OF this] obtain r' where "initlog d r = Ok r'" "log_idle r'"
        "\<forall>n. home (log s) n \<longrightarrow> view r' d n = recovered l (E d) n" unfolding t(3,4) r(2) by blast
    with E(2) show ?thesis by auto
  qed
  moreover have "m \<le> length (new_writes s s')" using t(6,7) by (simp add: new_writes_def)
  ultimately show ?thesis using t(1,2,5) by blast
qed

theorem transaction_atomic_witness:
  "\<exists>s s'. initlog 1 (binit log0) = Ok s \<and> transaction [(50, \<lambda>_. 7), (60, \<lambda>_. 8), (50, \<lambda>_. 9)] s = Ok s' \<and>
     view s 1 50 = (\<lambda>_. 0) \<and> view s' 1 50 = (\<lambda>_. 9)"
proof -
  let ?us = "[(50, \<lambda>_. 7), (60, \<lambda>_. 8), (50, \<lambda>_. 9)] :: (uint \<times> block) list"
  obtain s where s: "initlog 1 (binit log0) = Ok s" "log_idle s" "log_dev (log s) = 1" "home (log s) = home geom0"
      "log_size (log s) = 30" "view s 1 50 = (\<lambda>_. 0)" using log0_starts by blast
  have h: "home geom0 50" "home geom0 60" by (simp_all add: home_def geom0_def)
  have c: "int (card (fst ` set ?us)) < log_size (log s) - 1" by (simp add: s(5) insert_commute card_insert_if)
  have "\<forall>w \<in> set ?us. home (log s) (fst w)" using h by (simp add: s(4))
  from transaction_atomic [OF s(2) this c, of 1] obtain s' where "transaction ?us s = Ok s'"
      "\<forall>n. home (log s) n \<longrightarrow> view s' 1 n = wr ?us (view s 1) n" using s(3) by auto
  with s h show ?thesis by auto
qed



end
