(* ===== verification/Ring.thy ===== *)
theory Ring
  imports Xv6_Prelude
begin

text \<open>
  Circular buffers indexed by free-running 32-bit counters, as the console input buffer and the pipes
  use them: the counters are only ever incremented and wrap around at \<^verbatim>\<open>2^32\<close>; a position is a counter
  modulo the size of the buffer.  This is sound because the size divides \<^verbatim>\<open>2^32\<close>.
\<close>

definition ring_list :: "nat \<Rightarrow> (nat \<Rightarrow> 'x) \<Rightarrow> uint \<Rightarrow> uint \<Rightarrow> 'x list" where
  "ring_list N buf r w = map (\<lambda>k. buf (unat (r + of_nat k) mod N)) [0..<unat (w - r)]"

lemma ring_list_empty [simp]: "ring_list N buf r r = []"
  by (simp add: ring_list_def)

lemma length_ring_list [simp]: "length (ring_list N buf r w) = unat (w - r)"
  by (simp add: ring_list_def)

lemma ring_list_eq_Nil: "ring_list N buf r w = [] \<longleftrightarrow> r = w"
  using unat_eq_0 [of "w - r"] by (auto simp: ring_list_def)

lemma unat_plus_1: "unat (x :: uint) + 1 < 2 ^ 32 \<Longrightarrow> unat (x + 1) = unat x + 1"
  using unat_add_of_nat [of x 1] by simp

lemma ring_list_pop:
  assumes "r \<noteq> w"
  shows "ring_list N buf r w = buf (unat r mod N) # ring_list N buf (r + 1) w"
proof -
  have "w - r \<noteq> 0" using assms by simp
  then have "0 < unat (w - r)" by (simp add: unat_gt_0)
  then have n: "unat (w - r) = Suc (unat (w - (r + 1)))"
    using unat_minus_one [of "w - r"] \<open>w - r \<noteq> 0\<close> by (simp add: algebra_simps)
  have e: "map f [0..<Suc n] = f 0 # map (\<lambda>k. f (Suc k)) [0..<n]" for f :: "nat \<Rightarrow> 'a" and n
    by (simp add: upt_conv_Cons map_Suc_upt [symmetric] del: upt_Suc)
  show ?thesis unfolding ring_list_def n e by (simp add: algebra_simps)
qed

locale ring_index =
  fixes N :: nat
  assumes pos: "0 < N" and wraps: "N dvd 2 ^ 32" and small: "N < 2 ^ 32"
begin

lemma slot_add: "unat (r + of_nat k :: uint) mod N = (unat r + k) mod N"
  unfolding unat_add_of_nat by (rule mod_mod_cancel [OF wraps])

lemma slot_neq:
  assumes "j < k" and "k - j < N"
  shows "unat (r + of_nat j :: uint) mod N \<noteq> unat (r + of_nat k :: uint) mod N"
proof
  assume "unat (r + of_nat j) mod N = unat (r + of_nat k) mod N"
  then have "(unat r + k) mod N = (unat r + j) mod N" by (simp add: slot_add)
  then have "N dvd (unat r + k) - (unat r + j)" using assms by (subst mod_eq_dvd_iff_nat [symmetric]) auto
  then have "N dvd k - j" by simp
  then show False using assms by (auto dest: dvd_imp_le)
qed

lemma push_length: "unat (w - r :: uint) < N \<Longrightarrow> unat (w + 1 - r) = Suc (unat (w - r))"
  using small unat_plus_1 [of "w - r"] by (simp add: algebra_simps)

lemma push:
  assumes room: "unat (w - r) < N"
  shows "ring_list N (buf(unat w mod N := c)) r (w + 1) = ring_list N buf r w @ [c]"
proof -
  let ?n = "unat (w - r)"
  have w: "unat w mod N = unat (r + of_nat ?n) mod N" by simp
  have "(buf(unat w mod N := c)) (unat (r + of_nat k) mod N) = buf (unat (r + of_nat k) mod N)" if "k < ?n" for k
    using slot_neq [of k ?n r] that room unfolding w by simp
  then have "map (\<lambda>k. (buf(unat w mod N := c)) (unat (r + of_nat k) mod N)) [0..<?n] = ring_list N buf r w"
    unfolding ring_list_def by (intro map_cong) auto
  then show ?thesis unfolding ring_list_def [of N "buf(unat w mod N := c)"] push_length [OF room] by simp
qed

text \<open>Taking back the last element.\<close>

lemma unpush:
  assumes "w \<noteq> r"
  shows "ring_list N buf r (w - 1) = butlast (ring_list N buf r w)"
    "last (ring_list N buf r w) = buf (unat (w - 1) mod N)"
proof -
  have "w - r \<noteq> 0" using assms by simp
  then have n: "unat (w - r) = Suc (unat (w - 1 - r))"
    using unat_minus_one [of "w - r"] unat_gt_0 [of "w - r"] by (simp add: algebra_simps)
  show "ring_list N buf r (w - 1) = butlast (ring_list N buf r w)" unfolding ring_list_def n by simp
  have "r + of_nat (unat (w - 1 - r)) = w - 1" by simp
  then show "last (ring_list N buf r w) = buf (unat (w - 1) mod N)" unfolding ring_list_def n by simp
qed

text \<open>The part up to an intermediate counter and the part after it.\<close>

lemma split_at:
  assumes "unat (m - r) \<le> unat (w - r)"
  shows "ring_list N buf r w = ring_list N buf r m @ ring_list N buf m w"
proof -
  have "unat ((w - r) - (m - r)) = unat (w - r) - unat (m - r)"
    using assms by (intro unat_sub) (simp add: word_le_nat_alt)
  then have n: "unat (w - m) = unat (w - r) - unat (m - r)" by simp
  have "[0..<unat (w - r)] = [0..<unat (m - r)] @ map (\<lambda>k. k + unat (m - r)) [0..<unat (w - m)]"
    using assms upt_add_eq_append [of 0 "unat (m - r)" "unat (w - m)"] by (simp add: n map_add_upt)
  then show ?thesis unfolding ring_list_def by (simp add: add.commute)
qed

end

end
