(* ===== verification/Console.thy ===== *)
theory Console
  imports Ring
begin

text \<open>
  The console of \<^verbatim>\<open>console.c\<close> with the serial port of \<^verbatim>\<open>uart.c\<close>: formatted output, the CGA screen, and
  the line editor that fills the input buffer.  The parts that touch processes and inodes
  (\<^verbatim>\<open>consoleread\<close>, \<^verbatim>\<open>consolewrite\<close>, the wakeup in \<^verbatim>\<open>consoleintr\<close>) are in \<^verbatim>\<open>Inode\<close>.

  The hardware is part of the state: the video memory and cursor register of the CGA adapter, and the
  bytes the serial port was given.  Characters are \<^verbatim>\<open>int\<close>s, as in the code, which uses 256 for the
  backspace sequence.
\<close>

section \<open>Definitions\<close>

record console =
  panicked :: bool
  locking :: bool
  crt :: "nat \<Rightarrow> ushort"
  cursor :: nat                 \<comment> \<open>the two cursor registers of the CGA adapter\<close>
  uart :: bool
  uart_out :: "uchar list"      \<comment> \<open>bytes written to the transmit register\<close>
  in_buf :: "nat \<Rightarrow> uchar"
  in_r :: uint
  in_w :: uint
  in_e :: uint

definition BACKSPACE :: int where "BACKSPACE = 0x100"
definition INPUT_BUF :: nat where "INPUT_BUF = 128"

definition uartputc :: "int \<Rightarrow> console \<Rightarrow> console" where
  "uartputc c k = (if \<not> uart k then k else k\<lparr>uart_out := uart_out k @ [word_of_int c]\<rparr>)"

definition cga_scroll :: "int \<Rightarrow> (nat \<Rightarrow> ushort) \<Rightarrow> int \<times> (nat \<Rightarrow> ushort)" where
  "cga_scroll pos m =
     (if pos div 80 \<ge> 24
      then let m = (\<lambda>i. if i < 23 * 80 then m (i + 80) else m i); pos = pos - 80
           in (pos, \<lambda>i. if nat pos \<le> i \<and> i < nat pos + (24 * 80 - nat pos) then 0 else m i)
      else (pos, m))"

definition cgaputc :: "int \<Rightarrow> console \<Rightarrow> console result" where
  "cgaputc c k =
     (let pos = int (cursor k);
          (pos, m) = (if c = 10 then (pos + (80 - pos mod 80), crt k)
                      else if c = BACKSPACE then (if pos > 0 then pos - 1 else pos, crt k)
                      else (pos + 1, (crt k)(cursor k := ucast (word_of_int c AND 0xff :: uint) OR 0x0700)))
      in if pos < 0 \<or> pos > 25 * 80 then Panic ''pos under/overflow''
         else let (pos, m) = cga_scroll pos m
              in Ok (k\<lparr>cursor := nat pos mod 2 ^ 16, crt := m(nat pos := 0x0720)\<rparr>))"

definition consputc :: "int \<Rightarrow> console \<Rightarrow> console result" where
  "consputc c k =
     (if panicked k then Diverges
      else cgaputc c (if c = BACKSPACE then uartputc 8 (uartputc 32 (uartputc 8 k)) else uartputc c k))"

text \<open>
  \<^verbatim>\<open>printint\<close>: the digits are produced last first and printed in reverse.  The two callers pass the
  bases 10 and 16.
\<close>

definition hexdigit :: "nat \<Rightarrow> uchar" where
  "hexdigit d = (if d < 10 then 48 + of_nat d else 87 + of_nat d)"

function udigits :: "nat \<Rightarrow> nat \<Rightarrow> nat list" where
  "udigits base x = x mod base # (if x div base = 0 \<or> base < 2 then [] else udigits base (x div base))"
  by pat_completeness auto
termination by (relation "measure snd") (auto intro!: div_less_dividend intro: ccontr)

declare udigits.simps [simp del]

definition printint_chars :: "(nat \<Rightarrow> uchar) \<Rightarrow> uint \<Rightarrow> nat \<Rightarrow> bool \<Rightarrow> uchar list" where
  "printint_chars dig xx base sign =
     (let neg = (sign \<and> sint xx < 0);
          x = (if neg then - xx else xx)
      in rev (map dig (udigits base (unat x)) @ (if neg then [45] else [])))"

definition putchars :: "uchar list \<Rightarrow> console \<Rightarrow> console result" where
  "putchars cs k = for_each (\<lambda>c. consputc (uint c)) cs k"

definition printint :: "uint \<Rightarrow> nat \<Rightarrow> bool \<Rightarrow> console \<Rightarrow> console result" where
  "printint xx base sign k = putchars (printint_chars hexdigit xx base sign) k"

text \<open>
  \<^verbatim>\<open>cprintf\<close>: \<open>args\<close> are the words on the stack after the format string, \<open>str\<close> gives the
  zero-terminated string at an address.  The loop yields the characters it passes to \<^verbatim>\<open>consputc\<close>, in order.
\<close>

fun cprintf_chars :: "(uint \<Rightarrow> uchar list) \<Rightarrow> uchar list \<Rightarrow> (nat \<Rightarrow> uint) \<Rightarrow> nat \<Rightarrow> uchar list" where
  "cprintf_chars str [] args a = []"
| "cprintf_chars str [c] args a = (if c \<noteq> 37 then [c] else [])"
| "cprintf_chars str (c # d # fmt) args a =
     (if c \<noteq> 37 then c # cprintf_chars str (d # fmt) args a
      else if d = 100 then printint_chars hexdigit (args a) 10 True @ cprintf_chars str fmt args (Suc a)
      else if d = 120 \<or> d = 112 then printint_chars hexdigit (args a) 16 False @ cprintf_chars str fmt args (Suc a)
      else if d = 115
      then (if args a = 0 then [40, 110, 117, 108, 108, 41] else str (args a)) @ cprintf_chars str fmt args (Suc a)
      else if d = 37 then 37 # cprintf_chars str fmt args a
      else 37 # d # cprintf_chars str fmt args a)"

definition cprintf :: "(uint \<Rightarrow> uchar list) \<Rightarrow> uchar list option \<Rightarrow> (nat \<Rightarrow> uint) \<Rightarrow> console \<Rightarrow> console result" where
  "cprintf str fmt args k =
     (case fmt of None \<Rightarrow> Panic ''null fmt'' | Some f \<Rightarrow> putchars (cprintf_chars str f args 0) k)"

text \<open>
  The output of \<^verbatim>\<open>panic\<close> before the CPU stops: the processor number, the message (itself used as a format
  string), and the ten return addresses.
\<close>

definition ascii :: "string \<Rightarrow> uchar list" where
  "ascii = map (\<lambda>c. of_nat (of_char c))"

definition panic :: "(uint \<Rightarrow> uchar list) \<Rightarrow> uint \<Rightarrow> uchar list \<Rightarrow> (nat \<Rightarrow> uint) \<Rightarrow> (nat \<Rightarrow> uint) \<Rightarrow> console \<Rightarrow> console result" where
  "panic str lapicid msg stack pcs k =
     rbind (cprintf str (Some (ascii ''lapicid %d: panic: '')) (\<lambda>_. lapicid) (k\<lparr>locking := False\<rparr>)) (\<lambda>k.
     rbind (cprintf str (Some msg) stack k) (\<lambda>k.
     rbind (cprintf str (Some [10]) stack k) (\<lambda>k.
     rbind (for_each (\<lambda>i. cprintf str (Some (ascii '' %p'')) (\<lambda>_. pcs i)) [0..<10] k) (\<lambda>k.
     Ok (k\<lparr>panicked := True\<rparr>)))))"

text \<open>Control characters: \<^verbatim>\<open>C(x)\<close>.\<close>

definition ctrl :: "char \<Rightarrow> int" where
  "ctrl x = of_char x - 64"

fun kill_line :: "nat \<Rightarrow> console \<Rightarrow> console result" where
  "kill_line 0 k = Diverges"
| "kill_line (Suc fuel) k =
     (if in_e k \<noteq> in_w k \<and> in_buf k (unat (in_e k - 1) mod INPUT_BUF) \<noteq> 10
      then rbind (consputc BACKSPACE (k\<lparr>in_e := in_e k - 1\<rparr>)) (kill_line fuel)
      else Ok k)"

text \<open>
  One round of the loop of \<^verbatim>\<open>consoleintr\<close>.  The results say whether a line became available (the code
  then calls \<^verbatim>\<open>wakeup(&input.r)\<close>) and whether a process listing was requested.
\<close>

datatype edit_event = Nothing | Wake | Dump

definition edit_char :: "int \<Rightarrow> console \<Rightarrow> (edit_event \<times> console) result" where
  "edit_char c k =
     (if c = ctrl CHR ''P'' then Ok (Dump, k)
      else if c = ctrl CHR ''U'' then rbind (kill_line (Suc INPUT_BUF) k) (\<lambda>k. Ok (Nothing, k))
      else if c = ctrl CHR ''H'' \<or> c = 0x7f
      then if in_e k \<noteq> in_w k
           then rbind (consputc BACKSPACE (k\<lparr>in_e := in_e k - 1\<rparr>)) (\<lambda>k. Ok (Nothing, k))
           else Ok (Nothing, k)
      else if c \<noteq> 0 \<and> unat (in_e k - in_r k) < INPUT_BUF
      then let c = (if c = 13 then 10 else c)
           in rbind (consputc c (k\<lparr>in_buf := (in_buf k)(unat (in_e k) mod INPUT_BUF := word_of_int c), in_e := in_e k + 1\<rparr>)) (\<lambda>k.
              if c = 10 \<or> c = ctrl CHR ''D'' \<or> in_e k = in_r k + of_nat INPUT_BUF
              then Ok (Wake, k\<lparr>in_w := in_e k\<rparr>)
              else Ok (Nothing, k))
      else Ok (Nothing, k))"

text \<open>
  The loop of \<^verbatim>\<open>consoleread\<close> between two sleeps, for a buffer of \<open>n\<close> characters of which \<open>target - n\<close>
  are already filled: it ends with the characters read and whether it has to wait for more input.
\<close>

fun read_line :: "nat \<Rightarrow> nat \<Rightarrow> console \<Rightarrow> (uchar list \<times> bool) \<times> console" where
  "read_line target 0 k = (([], False), k)"
| "read_line target (Suc n) k =
     (if in_r k = in_w k then (([], True), k)
      else let c = in_buf k (unat (in_r k) mod INPUT_BUF); k' = k\<lparr>in_r := in_r k + 1\<rparr>
           in if uint c = ctrl CHR ''D''
              then (([], False), if Suc n < target then k else k')
              else if c = 10 then (([c], False), k')
              else let ((cs, wait), k'') = read_line target n k' in ((c # cs, wait), k''))"

text \<open>\<^verbatim>\<open>uartinit\<close> probes the port (\<open>present\<close>: the status register does not read \<^verbatim>\<open>0xFF\<close>) and greets.\<close>

definition uartinit :: "bool \<Rightarrow> console \<Rightarrow> console" where
  "uartinit present k =
     (if \<not> present then k else fold (\<lambda>c. uartputc (uint c)) (ascii ''xv6...'' @ [10]) (k\<lparr>uart := True\<rparr>))"

definition uartgetc :: "uchar \<Rightarrow> uchar \<Rightarrow> console \<Rightarrow> int" where
  "uartgetc status data k = (if \<not> uart k then -1 else if status AND 1 = 0 then -1 else uint data)"


section \<open>The screen\<close>

definition screen_ok :: "console \<Rightarrow> bool" where
  "screen_ok k \<longleftrightarrow> cursor k < 24 * 80 \<and> \<not> panicked k"

definition same_input :: "console \<Rightarrow> console \<Rightarrow> bool" where
  "same_input k k' \<longleftrightarrow> in_buf k' = in_buf k \<and> in_r k' = in_r k \<and> in_w k' = in_w k \<and> in_e k' = in_e k"

lemma uartputc_same [simp]:
  "cursor (uartputc c k) = cursor k" "panicked (uartputc c k) = panicked k" "crt (uartputc c k) = crt k"
  "in_buf (uartputc c k) = in_buf k" "in_r (uartputc c k) = in_r k" "in_w (uartputc c k) = in_w k" "in_e (uartputc c k) = in_e k"
  by (simp_all add: uartputc_def)

lemma scroll_ok:
  assumes "0 \<le> pos" and "pos \<le> 24 * 80"
  shows "\<exists>p m'. cga_scroll pos m = (p, m') \<and> 0 \<le> p \<and> p < 24 * 80"
proof (cases "pos div 80 \<ge> 24")
  case True
  then show ?thesis using assms by (simp add: cga_scroll_def Let_def)
next
  case False
  then have "pos < 24 * 80" by (simp add: not_le div_less_iff_less_mult)
  with False assms show ?thesis by (simp add: cga_scroll_def)
qed

lemma cgaputc_ok:
  assumes "cursor k < 24 * 80"
  shows "\<exists>p m. cgaputc c k = Ok (k\<lparr>cursor := p, crt := m\<rparr>) \<and> p < 24 * 80"
proof -
  define pos m where "pos = (if c = 10 then int (cursor k) + (80 - int (cursor k) mod 80)
      else if c = BACKSPACE then (if int (cursor k) > 0 then int (cursor k) - 1 else int (cursor k)) else int (cursor k) + 1)"
    and "m = (if c = 10 \<or> c = BACKSPACE then crt k
      else (crt k)(cursor k := ucast (word_of_int c AND 0xff :: uint) OR 0x0700))"
  have "int (cursor k) + (80 - int (cursor k) mod 80) \<le> 24 * 80"
  proof -
    have "int (cursor k) div 80 < 24" using assms by (simp add: div_less_iff_less_mult)
    moreover have "int (cursor k) - int (cursor k) mod 80 = 80 * (int (cursor k) div 80)" by (simp add: minus_mod_eq_mult_div)
    ultimately show ?thesis by linarith
  qed
  then have p: "0 \<le> pos" "pos \<le> 24 * 80" using assms by (auto simp: pos_def)
  obtain q m' where q: "cga_scroll pos m = (q, m')" "0 \<le> q" "q < 24 * 80" using scroll_ok [OF p] by blast
  have "cgaputc c k = (if pos < 0 \<or> pos > 25 * 80 then Panic ''pos under/overflow''
         else let (pos, m) = cga_scroll pos m in Ok (k\<lparr>cursor := nat pos mod 2 ^ 16, crt := m(nat pos := 0x0720)\<rparr>))"
    by (cases "c = 10"; cases "c = BACKSPACE") (simp_all add: cgaputc_def Let_def pos_def m_def BACKSPACE_def)
  then have "cgaputc c k = Ok (k\<lparr>cursor := nat q mod 2 ^ 16, crt := m'(nat q := 0x0720)\<rparr>)"
    using p q(1) by simp
  moreover have "nat q mod 2 ^ 16 < 24 * 80" using q by simp
  ultimately show ?thesis by blast
qed

lemma consputc_ok:
  assumes "screen_ok k"
  shows "\<exists>k'. consputc c k = Ok k' \<and> screen_ok k' \<and> same_input k k'"
proof -
  define u where "u = (if c = BACKSPACE then uartputc 8 (uartputc 32 (uartputc 8 k)) else uartputc c k)"
  have u: "cursor u = cursor k" "panicked u = panicked k" "same_input k u" by (simp_all add: u_def same_input_def)
  have "cursor u < 24 * 80" using assms u(1) by (simp add: screen_ok_def)
  then obtain p m where "cgaputc c u = Ok (u\<lparr>cursor := p, crt := m\<rparr>)" "p < 24 * 80"
    using cgaputc_ok by blast
  then show ?thesis using assms u by (auto simp: consputc_def u_def [symmetric] screen_ok_def same_input_def)
qed

lemma same_input_trans: "same_input a b \<Longrightarrow> same_input b c \<Longrightarrow> same_input a c"
  by (simp add: same_input_def)

lemma putchars_ok: "screen_ok k \<Longrightarrow> \<exists>k'. putchars cs k = Ok k' \<and> screen_ok k' \<and> same_input k k'"
proof (induction cs arbitrary: k)
  case Nil
  then show ?case by (simp add: putchars_def same_input_def)
next
  case (Cons c cs)
  obtain t where t: "consputc (uint c) k = Ok t" "screen_ok t" "same_input k t" using consputc_ok Cons.prems by blast
  obtain u where "putchars cs t = Ok u" "screen_ok u" "same_input t u" using Cons.IH [OF t(2)] by blast
  with t show ?case using same_input_trans by (auto simp: putchars_def)
qed

lemma cprintf_ok: "screen_ok k \<Longrightarrow> \<exists>k'. cprintf str (Some fmt) args k = Ok k' \<and> screen_ok k' \<and> same_input k k'"
  using putchars_ok [of k "cprintf_chars str fmt args 0"] by (simp add: cprintf_def)

text \<open>Numbers.\<close>

lemma udigits_value: "2 \<le> b \<Longrightarrow> foldr (\<lambda>d acc. d + b * acc) (udigits b x) 0 = x"
proof (induction b x rule: udigits.induct)
  case (1 b x)
  show ?case
  proof (cases "x div b = 0")
    case True
    then show ?thesis using 1(2) by (simp add: udigits.simps [of b x] div_eq_0_iff)
  next
    case False
    then have "foldr (\<lambda>d acc. d + b * acc) (udigits b (x div b)) 0 = x div b" using 1 by simp
    then show ?thesis using False 1(2) by (simp add: udigits.simps [of b x])
  qed
qed

lemma udigits_length: "2 \<le> b \<Longrightarrow> x < b ^ Suc k \<Longrightarrow> length (udigits b x) \<le> Suc k"
proof (induction b x arbitrary: k rule: udigits.induct)
  case (1 b x)
  show ?case
  proof (cases "x div b = 0")
    case True
    then show ?thesis by (simp add: udigits.simps [of b x])
  next
    case False
    have "k \<noteq> 0" using 1(3) False by (intro notI) (simp add: div_eq_0_iff)
    then obtain j where k: "k = Suc j" by (cases k) auto
    have "x div b < b ^ Suc j" using 1(2,3) by (simp add: k div_less_iff_less_mult mult.commute)
    then show ?thesis using 1(1) [of j] 1(2) False by (simp add: udigits.simps [of b x] k)
  qed
qed

lemma udigits_small: "2 \<le> b \<Longrightarrow> d \<in> set (udigits b x) \<Longrightarrow> d < b"
proof (induction b x rule: udigits.induct)
  case (1 b x)
  then show ?case by (cases "x div b = 0") (auto simp: udigits.simps [of b x])
qed

section \<open>Line editing\<close>

interpretation input_ring: ring_index INPUT_BUF
  by unfold_locales (simp_all add: INPUT_BUF_def)

definition committed :: "console \<Rightarrow> uchar list" where
  "committed k = ring_list INPUT_BUF (in_buf k) (in_r k) (in_w k)"

definition pending_line :: "console \<Rightarrow> uchar list" where
  "pending_line k = ring_list INPUT_BUF (in_buf k) (in_w k) (in_e k)"

definition input_ok :: "console \<Rightarrow> bool" where
  "input_ok k \<longleftrightarrow> unat (in_w k - in_r k) \<le> unat (in_e k - in_r k) \<and> unat (in_e k - in_r k) \<le> INPUT_BUF"

text \<open>The editor as seen by the person typing: characters handed over to readers, and the line being edited.\<close>

definition spec_edit :: "int \<Rightarrow> uchar list \<times> uchar list \<Rightarrow> uchar list \<times> uchar list" where
  "spec_edit c = (\<lambda>(sent, line).
     if c = ctrl CHR ''P'' then (sent, line)
     else if c = ctrl CHR ''U'' then (sent, rev (dropWhile (\<lambda>x. x \<noteq> 10) (rev line)))
     else if c = ctrl CHR ''H'' \<or> c = 0x7f then (sent, butlast line)
     else if c = 0 \<or> length sent + length line \<ge> INPUT_BUF then (sent, line)
     else let c = (if c = 13 then 10 else c); line = line @ [word_of_int c]
          in if c = 10 \<or> c = ctrl CHR ''D'' \<or> length sent + length line = INPUT_BUF then (sent @ line, []) else (sent, line))"

lemma same_input_abs:
  assumes "same_input k k'"
  shows "committed k' = committed k" "pending_line k' = pending_line k" "input_ok k' = input_ok k"
  using assms by (simp_all add: same_input_def committed_def pending_line_def input_ok_def)

lemma input_lengths:
  assumes "input_ok k"
  shows "unat (in_e k - in_r k) = unat (in_w k - in_r k) + unat (in_e k - in_w k)"
    "length (committed k) + length (pending_line k) = unat (in_e k - in_r k)"
proof -
  have "unat ((in_e k - in_r k) - (in_w k - in_r k)) = unat (in_e k - in_r k) - unat (in_w k - in_r k)"
    using assms by (intro unat_sub) (simp add: input_ok_def word_le_nat_alt)
  then show "unat (in_e k - in_r k) = unat (in_w k - in_r k) + unat (in_e k - in_w k)"
    using assms by (simp add: input_ok_def)
  then show "length (committed k) + length (pending_line k) = unat (in_e k - in_r k)"
    by (simp add: committed_def pending_line_def)
qed

lemma erase_one:
  assumes ok: "input_ok k" and ne: "in_e k \<noteq> in_w k"
  defines "k' \<equiv> k\<lparr>in_e := in_e k - 1\<rparr>"
  shows "input_ok k'" "committed k' = committed k" "pending_line k' = butlast (pending_line k)" "pending_line k \<noteq> []"
    "last (pending_line k) = in_buf k (unat (in_e k - 1) mod INPUT_BUF)"
proof -
  have "in_e k - in_w k \<noteq> 0" using ne by simp
  then have w: "unat (in_e k - in_w k) \<noteq> 0" by (simp add: unat_eq_0)
  then have "in_e k - in_r k \<noteq> 0" using input_lengths(1) [OF ok] by (metis add_is_0 unat_0)
  then have "unat (in_e k - 1 - in_r k) = unat (in_e k - in_r k) - 1"
    using unat_minus_one [of "in_e k - in_r k"] by (simp add: algebra_simps)
  then show "input_ok k'" using ok input_lengths(1) [OF ok] w by (auto simp: input_ok_def k'_def)
  show "committed k' = committed k" by (simp add: committed_def k'_def)
  show "pending_line k' = butlast (pending_line k)" "last (pending_line k) = in_buf k (unat (in_e k - 1) mod INPUT_BUF)"
    using input_ring.unpush [OF ne] by (simp_all add: pending_line_def k'_def)
  show "pending_line k \<noteq> []" using ne using ring_list_eq_Nil [of INPUT_BUF "in_buf k" "in_w k" "in_e k"] by (auto simp: pending_line_def)
qed

lemma kill_line_ok:
  assumes "screen_ok k" and "input_ok k" and "length (pending_line k) < fuel"
  shows "\<exists>k'. kill_line fuel k = Ok k' \<and> screen_ok k' \<and> input_ok k' \<and> committed k' = committed k \<and>
    pending_line k' = rev (dropWhile (\<lambda>x. x \<noteq> 10) (rev (pending_line k)))"
  using assms
proof (induction fuel arbitrary: k)
  case (Suc fuel)
  let ?k = "k\<lparr>in_e := in_e k - 1\<rparr>"
  show ?case
  proof (cases "in_e k \<noteq> in_w k \<and> in_buf k (unat (in_e k - 1) mod INPUT_BUF) \<noteq> 10")
    case True
    note e = erase_one [OF Suc.prems(2) conjunct1 [OF True]]
    have "screen_ok ?k" using Suc.prems(1) by (simp add: screen_ok_def)
    then obtain t where t: "consputc BACKSPACE ?k = Ok t" "screen_ok t" "same_input ?k t" using consputc_ok by blast
    note ab = same_input_abs [OF t(3)]
    have "0 < length (pending_line k)" using e(4) by simp
    moreover have "length (pending_line t) = length (pending_line k) - 1" by (simp add: ab(2) e(3))
    ultimately have "length (pending_line t) < fuel" using Suc.prems(3) by linarith
    then obtain k' where k': "kill_line fuel t = Ok k'" "screen_ok k'" "input_ok k'" "committed k' = committed t"
        "pending_line k' = rev (dropWhile (\<lambda>x. x \<noteq> 10) (rev (pending_line t)))"
      using Suc.IH [OF t(2)] e(1) ab(3) by auto
    have "rev (pending_line k) = last (pending_line k) # rev (pending_line t)"
      using e(3,4) ab(2) by (metis append_butlast_last_id rev.simps(2) rev_rev_ident rev_append append_Cons append_Nil)
    then have "dropWhile (\<lambda>x. x \<noteq> 10) (rev (pending_line t)) = dropWhile (\<lambda>x. x \<noteq> 10) (rev (pending_line k))"
      using True e(5) by simp
    then show ?thesis using k' t(1) True e(2) ab(1) by auto
  next
    case False
    have "dropWhile (\<lambda>x. x \<noteq> 10) (rev (pending_line k)) = rev (pending_line k)"
    proof (cases "in_e k = in_w k")
      case True
      then show ?thesis by (simp add: pending_line_def)
    next
      case ne: False
      note e = erase_one [OF Suc.prems(2) ne]
      have eq: "rev (pending_line k) = last (pending_line k) # rev (butlast (pending_line k))"
        using e(4) by (metis append_butlast_last_id rev.simps(2) rev_rev_ident rev_append append_Cons append_Nil)
      have "last (pending_line k) = 10" using False ne e(5) by simp
      then show ?thesis unfolding eq by simp
    qed
    then show ?thesis using False Suc.prems by auto
  qed
qed simp


lemma type_one:
  fixes c :: uchar
  assumes ok: "input_ok k" and room: "unat (in_e k - in_r k) < INPUT_BUF"
  defines "k' \<equiv> k\<lparr>in_buf := (in_buf k)(unat (in_e k) mod INPUT_BUF := c), in_e := in_e k + 1\<rparr>"
  shows "input_ok k'" "committed k' = committed k" "pending_line k' = pending_line k @ [c]"
    "in_e k' = in_r k' + of_nat INPUT_BUF \<longleftrightarrow> length (committed k) + length (pending_line k) + 1 = INPUT_BUF"
proof -
  have n: "unat (in_e k + 1 - in_r k) = Suc (unat (in_e k - in_r k))" by (rule input_ring.push_length [OF room])
  show i: "input_ok k'" using ok room by (simp add: input_ok_def k'_def n)
  have "ring_list INPUT_BUF (in_buf k') (in_r k) (in_e k + 1) = ring_list INPUT_BUF (in_buf k) (in_r k) (in_e k) @ [c]"
    using input_ring.push [OF room, of "in_buf k" c] by (simp add: k'_def)
  moreover have "ring_list INPUT_BUF (in_buf k) (in_r k) (in_e k) = committed k @ pending_line k"
    unfolding committed_def pending_line_def using ok by (intro input_ring.split_at) (simp add: input_ok_def)
  moreover have "ring_list INPUT_BUF (in_buf k') (in_r k') (in_e k') = committed k' @ pending_line k'"
    unfolding committed_def pending_line_def using i by (intro input_ring.split_at) (simp add: input_ok_def)
  ultimately have "committed k' @ pending_line k' = committed k @ (pending_line k @ [c])" by (simp add: k'_def)
  moreover have "length (committed k') = length (committed k)" by (simp add: committed_def k'_def)
  ultimately show "committed k' = committed k" "pending_line k' = pending_line k @ [c]" by simp_all
  have "in_e k' = in_r k' + of_nat INPUT_BUF \<longleftrightarrow> in_e k + 1 - in_r k = of_nat INPUT_BUF"
    by (auto simp: k'_def algebra_simps)
  also have "\<dots> \<longleftrightarrow> unat (in_e k + 1 - in_r k) = INPUT_BUF"
    by (simp add: word_unat_eq_iff INPUT_BUF_def)
  finally show "in_e k' = in_r k' + of_nat INPUT_BUF \<longleftrightarrow> length (committed k) + length (pending_line k) + 1 = INPUT_BUF"
    unfolding n input_lengths(2) [OF ok] by simp
qed

lemma commit_line:
  assumes "input_ok k"
  shows "input_ok (k\<lparr>in_w := in_e k\<rparr>)" "committed (k\<lparr>in_w := in_e k\<rparr>) = committed k @ pending_line k"
    "pending_line (k\<lparr>in_w := in_e k\<rparr>) = []"
  using assms input_ring.split_at [of "in_w k" "in_r k" "in_e k" "in_buf k"]
  by (simp_all add: input_ok_def committed_def pending_line_def)

lemma edit_char_ok:
  assumes s: "screen_ok k" and ok: "input_ok k"
  shows "\<exists>ev k'. edit_char c k = Ok (ev, k') \<and> screen_ok k' \<and> input_ok k' \<and>
    (committed k', pending_line k') = spec_edit c (committed k, pending_line k) \<and>
    (ev = Wake \<longleftrightarrow> committed k' \<noteq> committed k)"
proof -
  have len: "length (committed k) + length (pending_line k) = unat (in_e k - in_r k)" by (rule input_lengths(2) [OF ok])
  consider (dump) "c = ctrl CHR ''P''" | (kill) "c \<noteq> ctrl CHR ''P''" "c = ctrl CHR ''U''"
    | (erase) "c \<noteq> ctrl CHR ''P''" "c \<noteq> ctrl CHR ''U''" "c = ctrl CHR ''H'' \<or> c = 0x7f"
    | (other) "c \<noteq> ctrl CHR ''P''" "c \<noteq> ctrl CHR ''U''" "\<not> (c = ctrl CHR ''H'' \<or> c = 0x7f)" by blast
  then show ?thesis
  proof cases
    case dump
    then show ?thesis using s ok by (simp add: edit_char_def spec_edit_def)
  next
    case kill
    have "length (pending_line k) < Suc INPUT_BUF" using len ok by (simp add: input_ok_def)
    from kill_line_ok [OF s ok this] show ?thesis using kill by (auto simp: edit_char_def spec_edit_def)
  next
    case erase
    show ?thesis
    proof (cases "in_e k = in_w k")
      case True
      then have "pending_line k = []" by (simp add: pending_line_def)
      then show ?thesis using erase True s ok by (simp add: edit_char_def spec_edit_def)
    next
      case False
      let ?k = "k\<lparr>in_e := in_e k - 1\<rparr>"
      have "screen_ok ?k" using s by (simp add: screen_ok_def)
      then obtain t where t: "consputc BACKSPACE ?k = Ok t" "screen_ok t" "same_input ?k t" using consputc_ok by blast
      show ?thesis using erase False t erase_one [OF ok False] same_input_abs [OF t(3)]
        by (simp add: edit_char_def spec_edit_def)
    qed
  next
    case other
    show ?thesis
    proof (cases "c \<noteq> 0 \<and> unat (in_e k - in_r k) < INPUT_BUF")
      case False
      then show ?thesis using other s ok len by (auto simp: edit_char_def spec_edit_def)
    next
      case True
      define d where "d = (if c = 13 then 10 else c)"
      let ?k = "k\<lparr>in_buf := (in_buf k)(unat (in_e k) mod INPUT_BUF := word_of_int d), in_e := in_e k + 1\<rparr>"
      note ty = type_one [OF ok conjunct2 [OF True], where c = "word_of_int d"]
      have "screen_ok ?k" using s by (simp add: screen_ok_def)
      then obtain t where t: "consputc d ?k = Ok t" "screen_ok t" "same_input ?k t" using consputc_ok by blast
      note ab = same_input_abs [OF t(3)]
      have full: "in_e t = in_r t + of_nat INPUT_BUF \<longleftrightarrow> length (committed k) + length (pending_line k) + 1 = INPUT_BUF"
        using ty(4) t(3) by (simp add: same_input_def)
      have it: "input_ok t" using ab(3) ty(1) by simp
      have e: "edit_char c k = (if d = 10 \<or> d = ctrl CHR ''D'' \<or> in_e t = in_r t + of_nat INPUT_BUF
          then Ok (Wake, t\<lparr>in_w := in_e t\<rparr>) else Ok (Nothing, t))"
        using other True t(1) by (simp add: edit_char_def Let_def d_def [symmetric])
      have sp: "spec_edit c (committed k, pending_line k) = (if d = 10 \<or> d = ctrl CHR ''D'' \<or> in_e t = in_r t + of_nat INPUT_BUF
          then (committed k @ pending_line k @ [word_of_int d], []) else (committed k, pending_line k @ [word_of_int d]))"
        using other True len full by (simp add: spec_edit_def Let_def d_def [symmetric])
      show ?thesis
      proof (cases "d = 10 \<or> d = ctrl CHR ''D'' \<or> in_e t = in_r t + of_nat INPUT_BUF")
        case True
        then show ?thesis using e sp t(2) commit_line [OF it] ab ty(2,3) by (simp add: screen_ok_def)
      next
        case False
        then show ?thesis using e sp t(2) it ab ty(2,3) by simp
      qed
    qed
  qed
qed

fun spec_read :: "nat \<Rightarrow> nat \<Rightarrow> uchar list \<Rightarrow> (uchar list \<times> bool) \<times> uchar list" where
  "spec_read target 0 q = (([], False), q)"
| "spec_read target (Suc n) [] = (([], True), [])"
| "spec_read target (Suc n) (c # q) =
     (if uint c = ctrl CHR ''D'' then (([], False), if Suc n < target then c # q else q)
      else if c = 10 then (([c], False), q)
      else let ((cs, wait), q') = spec_read target n q in ((c # cs, wait), q'))"

lemma read_line_ok:
  assumes "input_ok k"
  shows "\<exists>out k'. read_line target n k = (out, k') \<and> input_ok k' \<and> spec_read target n (committed k) = (out, committed k') \<and>
    pending_line k' = pending_line k \<and> (screen_ok k \<longrightarrow> screen_ok k')"
  using assms
proof (induction target n k rule: read_line.induct)
  case (1 target k)
  then show ?case by (intro exI [of _ "([], False)"] exI [of _ k]) simp
next
  case (2 target n k)
  show ?case
  proof (cases "in_r k = in_w k")
    case True
    then show ?thesis using 2(2) by (intro exI [of _ "([], True)"] exI [of _ k]) (simp add: committed_def)
  next
    case False
    let ?c = "in_buf k (unat (in_r k) mod INPUT_BUF)" and ?k = "k\<lparr>in_r := in_r k + 1\<rparr>"
    have q: "committed k = ?c # committed ?k" using ring_list_pop [OF False] by (simp add: committed_def)
    have "in_w k - in_r k \<noteq> 0" using False by simp
    then have "unat (in_w k - in_r k) \<noteq> 0" by (simp add: unat_eq_0)
    moreover from this have "in_e k - in_r k \<noteq> 0" using 2(2) by (auto simp: input_ok_def)
    ultimately have i: "input_ok ?k"
      using 2(2) unat_minus_one [of "in_w k - in_r k"] unat_minus_one [of "in_e k - in_r k"] \<open>in_w k - in_r k \<noteq> 0\<close>
      by (simp add: input_ok_def algebra_simps) linarith
    have p: "pending_line ?k = pending_line k" "screen_ok ?k = screen_ok k" by (simp_all add: pending_line_def screen_ok_def)
    show ?thesis
    proof (cases "uint ?c = ctrl CHR ''D'' \<or> ?c = 10")
      case True
      then show ?thesis using False q i p 2(2) by (auto simp: Let_def)
    next
      case c: False
      then obtain cs wait k' where "read_line target n ?k = ((cs, wait), k')" "input_ok k'"
          "spec_read target n (committed ?k) = ((cs, wait), committed k')" "pending_line k' = pending_line k" "screen_ok k \<longrightarrow> screen_ok k'"
        using 2(1) [OF False refl refl] i p by force
      then show ?thesis using c False q by (auto simp: Let_def)
    qed
  qed
qed


section \<open>Claims\<close>

text \<open>A session: keys are typed, and readers take what is available.\<close>

datatype con_event = Key int | ReadLine nat

fun run_console :: "con_event list \<Rightarrow> console \<Rightarrow> (uchar list list \<times> console) result" where
  "run_console [] k = Ok ([], k)"
| "run_console (Key c # es) k = rbind (edit_char c k) (\<lambda>(ev, k). run_console es k)"
| "run_console (ReadLine n # es) k =
     (let ((cs, wait), k) = read_line n n k
      in rbind (run_console es k) (\<lambda>(outs, k). Ok (cs # outs, k)))"

fun run_editor :: "con_event list \<Rightarrow> uchar list \<times> uchar list \<Rightarrow> uchar list list \<times> uchar list \<times> uchar list" where
  "run_editor [] q = ([], q)"
| "run_editor (Key c # es) q = run_editor es (spec_edit c q)"
| "run_editor (ReadLine n # es) q =
     (let ((cs, wait), sent) = spec_read n n (fst q); (outs, q) = run_editor es (sent, snd q) in (cs # outs, q))"

lemma run_console_ok:
  "screen_ok k \<Longrightarrow> input_ok k \<Longrightarrow>
   \<exists>outs k'. run_console es k = Ok (outs, k') \<and> screen_ok k' \<and> input_ok k' \<and>
     run_editor es (committed k, pending_line k) = (outs, committed k', pending_line k')"
proof (induction es arbitrary: k)
  case (Cons e es)
  show ?case
  proof (cases e)
    case (Key c)
    obtain ev t where t: "edit_char c k = Ok (ev, t)" "screen_ok t" "input_ok t"
        "(committed t, pending_line t) = spec_edit c (committed k, pending_line k)"
      using edit_char_ok [OF Cons.prems] by blast
    then show ?thesis using Cons.IH [OF t(2,3)] by (auto simp: Key t(4) [symmetric])
  next
    case (ReadLine n)
    obtain cs w t where t: "read_line n n k = ((cs, w), t)" "input_ok t" "spec_read n n (committed k) = ((cs, w), committed t)"
        "pending_line t = pending_line k" "screen_ok t"
      using read_line_ok [OF Cons.prems(2), of n n] Cons.prems(1) by force
    obtain outs k' where "run_console es t = Ok (outs, k')" "screen_ok k'" "input_ok k'"
        "run_editor es (committed t, pending_line t) = (outs, committed k', pending_line k')"
      using Cons.IH [OF t(5,2)] by blast
    then show ?thesis by (auto simp: ReadLine t)
  qed
qed simp

text \<open>
  The console input buffer (C15).  Whatever keys are typed and whatever is read, the buffer with its
  three wrapping counters behaves like a line editor on two lists, the finished input and the line
  being edited: erase and kill act on the current line only, a newline, an end-of-file key or a full
  buffer hands the line over, and readers get the finished input in order, a line at a time.  The
  kernel never panics over it, wherever in their range the counters are.
\<close>

theorem console_refines_editor:
  assumes "screen_ok k" and "input_ok k"
  shows "\<exists>outs k'. run_console es k = Ok (outs, k') \<and>
    run_editor es (committed k, pending_line k) = (outs, committed k', pending_line k')"
  using run_console_ok [OF assms] by blast

definition con0 :: console where
  "con0 = \<lparr>panicked = False, locking = True, crt = \<lambda>_. 0, cursor = 1919, uart = True, uart_out = [],
     in_buf = \<lambda>_. 0, in_r = -1, in_w = -1, in_e = -1\<rparr>"

theorem console_refines_editor_witness:
  "\<exists>k'. run_console [Key 97, Key 98, ReadLine 9, Key 8, Key 13, Key 99, ReadLine 9] con0 = Ok ([[], [97, 10]], k') \<and>
     pending_line k' = [99]"
proof -
  have "committed con0 = []" "pending_line con0 = []" by (simp_all add: committed_def pending_line_def con0_def)
  moreover have "run_editor [Key 97, Key 98, ReadLine 9, Key 8, Key 13, Key 99, ReadLine 9] ([], []) = ([[], [97, 10]], [], [99])"
    by code_simp
  moreover have "screen_ok con0" "input_ok con0" by (simp_all add: screen_ok_def input_ok_def con0_def)
  ultimately show ?thesis
    using console_refines_editor [of con0 "[Key 97, Key 98, ReadLine 9, Key 8, Key 13, Key 99, ReadLine 9]"] by auto
qed



end
