(* ===== verification/Fs.thy ===== *)
theory Fs
  imports Log_Crash C_String Console
begin

text \<open>
  The file system of \<^verbatim>\<open>fs.c\<close>: block allocator, inode cache, inode contents, directories and path
  names, and the swap area; with the console device of \<^verbatim>\<open>console.c\<close>, which \<^verbatim>\<open>readi\<close> and \<^verbatim>\<open>writei\<close> reach
  through \<^verbatim>\<open>devsw\<close>.

  \<^item> The state adds the super block copy \<^verbatim>\<open>sb\<close>, the inode cache, the device switch and the console to
    the state of the log.  A \<^verbatim>\<open>struct inode*\<close> is an index into the cache.
  \<^item> The fields an in-memory inode shares with its disk copy are one record \<^verbatim>\<open>dinode\<close>.  \<^verbatim>\<open>short\<close> fields
    are 16-bit words.
  \<^item> A buffer argument is the list of its bytes: \<^verbatim>\<open>readi\<close> returns what it stores at \<^verbatim>\<open>dst\<close>, \<^verbatim>\<open>writei\<close>
    takes what it finds at \<^verbatim>\<open>src\<close>.  A path is the list of characters before its terminator.
  \<^item> The function pointers of \<^verbatim>\<open>devsw\<close> are the constructors of a datatype, since \<^verbatim>\<open>consoleinit\<close> is the only
    code that fills the table.
\<close>

section \<open>Data\<close>

definition NINODE :: nat where "NINODE = 50"
definition NDEV :: int where "NDEV = 10"
definition ROOTDEV :: uint where "ROOTDEV = 1"
definition ROOTINO :: uint where "ROOTINO = 1"
definition NDIRECT :: nat where "NDIRECT = 12"
definition NINDIRECT :: nat where "NINDIRECT = BSIZE div 4"
definition MAXFILE :: nat where "MAXFILE = NDIRECT + NINDIRECT"
definition sizeof_dinode :: nat where "sizeof_dinode = 8 + 4 + 4 * (NDIRECT + 1)"
definition IPB :: nat where "IPB = BSIZE div sizeof_dinode"
definition BPB :: nat where "BPB = BSIZE * 8"
definition DIRSIZ :: nat where "DIRSIZ = 14"
definition sizeof_dirent :: nat where "sizeof_dirent = 2 + DIRSIZ"
definition T_DIR :: ushort where "T_DIR = 1"
definition T_FILE :: ushort where "T_FILE = 2"
definition T_DEV :: ushort where "T_DEV = 3"
definition CONSOLE :: nat where "CONSOLE = 1"

record dinode =
  d_type :: ushort
  d_major :: ushort
  d_minor :: ushort
  d_nlink :: ushort
  d_size :: uint
  d_addrs :: "nat \<Rightarrow> uint"

record inode =
  i_dev :: uint
  i_inum :: uint
  i_ref :: int
  i_lock :: sleeplock
  i_valid :: bool
  i_d :: dinode

record stat =
  st_type :: ushort
  st_dev :: uint
  st_ino :: uint
  st_nlink :: ushort
  st_size :: uint

datatype dev_fn = ConsoleRead | ConsoleWrite

record devsw_entry =
  dev_read :: "dev_fn option"
  dev_write :: "dev_fn option"

record fs_st = log_st +
  sb :: superblock
  icache :: "nat \<Rightarrow> inode"
  devsw :: "nat \<Rightarrow> devsw_entry"
  con :: console

definition upd_inode :: "nat \<Rightarrow> (inode \<Rightarrow> inode) \<Rightarrow> 'a fs_st_scheme \<Rightarrow> 'a fs_st_scheme" where
  "upd_inode ip f s = s\<lparr>icache := (icache s)(ip := f (icache s ip))\<rparr>"

definition upd_dinode :: "nat \<Rightarrow> (dinode \<Rightarrow> dinode) \<Rightarrow> 'a fs_st_scheme \<Rightarrow> 'a fs_st_scheme" where
  "upd_dinode ip f s = upd_inode ip (\<lambda>x. x\<lparr>i_d := f (i_d x)\<rparr>) s"

definition IBLOCK :: "uint \<Rightarrow> superblock \<Rightarrow> uint" where
  "IBLOCK i b = i div of_nat IPB + sb_inodestart b"

definition BBLOCK :: "uint \<Rightarrow> superblock \<Rightarrow> uint" where
  "BBLOCK b super = b div of_nat BPB + sb_bmapstart super"

text \<open>The inode at byte offset \<open>off\<close> of an inode block.\<close>

definition get_dinode :: "block \<Rightarrow> nat \<Rightarrow> dinode" where
  "get_dinode v off = \<lparr>d_type = ld16 v off, d_major = ld16 v (off + 2), d_minor = ld16 v (off + 4),
     d_nlink = ld16 v (off + 6), d_size = ld32 v (off + 8),
     d_addrs = (\<lambda>i. if i \<le> NDIRECT then ld32 v (off + 12 + 4 * i) else 0)\<rparr>"

definition put_dinode :: "dinode \<Rightarrow> nat \<Rightarrow> block \<Rightarrow> block" where
  "put_dinode d off v =
     fold (\<lambda>i v. st32 v (off + 12 + 4 * i) (d_addrs d i)) [0..<NDIRECT + 1]
       (st32 (st16 (st16 (st16 (st16 v off (d_type d)) (off + 2) (d_major d)) (off + 4) (d_minor d)) (off + 6) (d_nlink d))
          (off + 8) (d_size d))"

definition dinode_off :: "uint \<Rightarrow> nat" where
  "dinode_off inum = sizeof_dinode * unat (inum mod of_nat IPB)"

section \<open>Blocks\<close>

definition bzero :: "uint \<Rightarrow> uint \<Rightarrow> 'a fs_st_scheme \<Rightarrow> 'a fs_st_scheme result" where
  "bzero dev bno s =
     rbind (bread dev bno s) (\<lambda>(bp, s).
     rbind (log_write bp (set_data bp (\<lambda>i. if i < BSIZE then 0 else b_data (bufs s bp) i) s)) (brelse bp))"

definition bmask :: "nat \<Rightarrow> uchar" where
  "bmask bi = push_bit (bi mod 8) 1"

primrec balloc_scan :: "uint \<Rightarrow> nat list \<Rightarrow> 'a fs_st_scheme \<Rightarrow> (uint \<times> 'a fs_st_scheme) result" where
  "balloc_scan dev [] s = Panic ''balloc: out of blocks''"
| "balloc_scan dev (b # bs) s =
     rbind (bread dev (BBLOCK (of_nat b) (sb s)) s) (\<lambda>(bp, s).
     let v = b_data (bufs s bp)
     in case find (\<lambda>bi. b + bi < unat (sb_size (sb s)) \<and> v (bi div 8) AND bmask bi = 0) [0..<BPB] of
          Some bi \<Rightarrow>
            rbind (log_write bp (set_data bp (v(bi div 8 := v (bi div 8) OR bmask bi)) s)) (\<lambda>s.
            rbind (brelse bp s) (\<lambda>s.
            rbind (bzero dev (of_nat (b + bi)) s) (\<lambda>s. Ok (of_nat (b + bi), s))))
        | None \<Rightarrow> rbind (brelse bp s) (balloc_scan dev bs))"

definition balloc :: "uint \<Rightarrow> 'a fs_st_scheme \<Rightarrow> (uint \<times> 'a fs_st_scheme) result" where
  "balloc dev s = balloc_scan dev (map (\<lambda>k. k * BPB) [0..<(unat (sb_size (sb s)) + BPB - 1) div BPB]) s"

definition bfree :: "uint \<Rightarrow> uint \<Rightarrow> 'a fs_st_scheme \<Rightarrow> 'a fs_st_scheme result" where
  "bfree dev b s =
     rbind (readsb dev s) (\<lambda>(b', s). let s = s\<lparr>sb := b'\<rparr> in
     rbind (bread dev (BBLOCK b (sb s)) s) (\<lambda>(bp, s).
     let bi = unat b mod BPB; v = b_data (bufs s bp)
     in if v (bi div 8) AND bmask bi = 0 then Panic ''freeing free block''
        else rbind (log_write bp (set_data bp (v(bi div 8 := v (bi div 8) AND NOT (bmask bi))) s)) (brelse bp)))"

section \<open>Inodes\<close>

definition iinit :: "uint \<Rightarrow> 'a fs_st_scheme \<Rightarrow> 'a fs_st_scheme result" where
  "iinit dev s =
     (let s = fold (\<lambda>i. upd_inode i (\<lambda>x. x\<lparr>i_lock := initsleeplock ''inode'' (i_lock x)\<rparr>)) [0..<NINODE] s
      in rbind (readsb dev s) (\<lambda>(b, s).
         rbind (cprintf (\<lambda>_. []) (Some (ascii ''sb: size %d nblocks %d ninodes %d nlog %d logstart %d inodestart %d bmap start %d'' @ [10]))
             (\<lambda>i. [sb_size b, sb_nblocks b, sb_ninodes b, sb_nlog b, sb_logstart b, sb_inodestart b, sb_bmapstart b] ! i) (con s)) (\<lambda>k.
         Ok (s\<lparr>sb := b, con := k\<rparr>))))"

definition iget :: "uint \<Rightarrow> uint \<Rightarrow> 'a fs_st_scheme \<Rightarrow> (nat \<times> 'a fs_st_scheme) result" where
  "iget dev inum s =
     (case find (\<lambda>i. i_ref (icache s i) > 0 \<and> i_dev (icache s i) = dev \<and> i_inum (icache s i) = inum) [0..<NINODE] of
        Some ip \<Rightarrow> Ok (ip, upd_inode ip (\<lambda>x. x\<lparr>i_ref := i_ref x + 1\<rparr>) s)
      | None \<Rightarrow>
          (case find (\<lambda>i. i_ref (icache s i) = 0) [0..<NINODE] of
             None \<Rightarrow> Panic ''iget: no inodes''
           | Some ip \<Rightarrow> Ok (ip, upd_inode ip (\<lambda>x. x\<lparr>i_dev := dev, i_inum := inum, i_ref := 1, i_valid := False\<rparr>) s)))"

primrec ialloc_scan :: "uint \<Rightarrow> ushort \<Rightarrow> nat list \<Rightarrow> 'a fs_st_scheme \<Rightarrow> (nat \<times> 'a fs_st_scheme) result" where
  "ialloc_scan dev type [] s = Panic ''ialloc: no inodes''"
| "ialloc_scan dev type (inum # is) s =
     rbind (bread dev (IBLOCK (of_nat inum) (sb s)) s) (\<lambda>(bp, s).
     let v = b_data (bufs s bp); off = dinode_off (of_nat inum)
     in if ld16 v off = 0
        then let w = (\<lambda>i. if off \<le> i \<and> i < off + sizeof_dinode then 0 else v i)
             in rbind (log_write bp (set_data bp (st16 w off type) s)) (\<lambda>s.
                rbind (brelse bp s) (iget dev (of_nat inum)))
        else rbind (brelse bp s) (ialloc_scan dev type is))"

definition ialloc :: "uint \<Rightarrow> ushort \<Rightarrow> 'a fs_st_scheme \<Rightarrow> (nat \<times> 'a fs_st_scheme) result" where
  "ialloc dev type s = ialloc_scan dev type [1..<unat (sb_ninodes (sb s))] s"

definition iupdate :: "nat \<Rightarrow> 'a fs_st_scheme \<Rightarrow> 'a fs_st_scheme result" where
  "iupdate ip s =
     (let x = icache s ip
      in rbind (bread (i_dev x) (IBLOCK (i_inum x) (sb s)) s) (\<lambda>(bp, s).
         rbind (log_write bp (set_data bp (put_dinode (i_d (icache s ip)) (dinode_off (i_inum x)) (b_data (bufs s bp))) s)) (brelse bp)))"

definition idup :: "nat \<Rightarrow> 'a fs_st_scheme \<Rightarrow> nat \<times> 'a fs_st_scheme" where
  "idup ip s = (ip, upd_inode ip (\<lambda>x. x\<lparr>i_ref := i_ref x + 1\<rparr>) s)"

definition upd_ilock :: "nat \<Rightarrow> (sleeplock \<Rightarrow> sleeplock) \<Rightarrow> 'a fs_st_scheme \<Rightarrow> 'a fs_st_scheme" where
  "upd_ilock ip f s = upd_inode ip (\<lambda>x. x\<lparr>i_lock := f (i_lock x)\<rparr>) s"

definition ilock :: "nat \<Rightarrow> 'a fs_st_scheme \<Rightarrow> 'a fs_st_scheme result" where
  "ilock ip s =
     (if i_ref (icache s ip) < 1 then Panic ''ilock''
      else rbind (acquiresleep (ChanInodeLock ip) (\<lambda>s. i_lock (icache s ip)) (upd_ilock ip) s) (\<lambda>s.
        let x = icache s ip
        in if \<not> i_valid x
           then rbind (bread (i_dev x) (IBLOCK (i_inum x) (sb s)) s) (\<lambda>(bp, s).
                let d = get_dinode (b_data (bufs s bp)) (dinode_off (i_inum x))
                in rbind (brelse bp (upd_dinode ip (\<lambda>_. d) s)) (\<lambda>s.
                   let s = upd_inode ip (\<lambda>x. x\<lparr>i_valid := True\<rparr>) s
                   in if d_type (i_d (icache s ip)) = 0 then Panic ''ilock: no type'' else Ok s))
           else Ok s))"

definition iunlock :: "nat \<Rightarrow> 'a fs_st_scheme \<Rightarrow> 'a fs_st_scheme result" where
  "iunlock ip s =
     (if \<not> holdingsleep (i_lock (icache s ip)) s \<or> i_ref (icache s ip) < 1 then Panic ''iunlock''
      else Ok (releasesleep (ChanInodeLock ip) (upd_ilock ip) s))"

section \<open>Inode contents\<close>

definition bmap :: "nat \<Rightarrow> uint \<Rightarrow> 'a fs_st_scheme \<Rightarrow> (uint \<times> 'a fs_st_scheme) result" where
  "bmap ip bn s =
     (let x = icache s ip; alloc = (\<lambda>i s. rbind (balloc (i_dev x) s) (\<lambda>(addr, s).
            Ok (addr, upd_dinode ip (\<lambda>d. d\<lparr>d_addrs := (d_addrs d)(i := addr)\<rparr>) s)))
      in if unat bn < NDIRECT
         then let addr = d_addrs (i_d x) (unat bn)
              in if addr = 0 then alloc (unat bn) s else Ok (addr, s)
         else let bn = unat bn - NDIRECT
         in if bn < NINDIRECT
            then rbind (if d_addrs (i_d x) NDIRECT = 0 then alloc NDIRECT s else Ok (d_addrs (i_d x) NDIRECT, s)) (\<lambda>(addr, s).
                 rbind (bread (i_dev x) addr s) (\<lambda>(bp, s).
                 let addr = ld32 (b_data (bufs s bp)) (4 * bn)
                 in if addr = 0
                    then rbind (balloc (i_dev x) s) (\<lambda>(addr, s).
                         rbind (log_write bp (set_data bp (st32 (b_data (bufs s bp)) (4 * bn) addr) s)) (\<lambda>s.
                         rbind (brelse bp s) (\<lambda>s. Ok (addr, s))))
                    else rbind (brelse bp s) (\<lambda>s. Ok (addr, s))))
            else Panic ''bmap: out of range'')"

definition free_direct :: "nat \<Rightarrow> nat \<Rightarrow> 'a fs_st_scheme \<Rightarrow> 'a fs_st_scheme result" where
  "free_direct ip i s =
     (let x = icache s ip
      in if d_addrs (i_d x) i \<noteq> 0
         then rbind (bfree (i_dev x) (d_addrs (i_d x) i) s) (\<lambda>s.
              Ok (upd_dinode ip (\<lambda>d. d\<lparr>d_addrs := (d_addrs d)(i := 0)\<rparr>) s))
         else Ok s)"

definition itrunc :: "nat \<Rightarrow> 'a fs_st_scheme \<Rightarrow> 'a fs_st_scheme result" where
  "itrunc ip s =
     rbind (for_each (free_direct ip) [0..<NDIRECT] s) (\<lambda>s.
     let x = icache s ip; ind = d_addrs (i_d x) NDIRECT
     in rbind (if ind \<noteq> 0
               then rbind (bread (i_dev x) ind s) (\<lambda>(bp, s).
                    rbind (for_each (\<lambda>j s. let a = ld32 (b_data (bufs s bp)) (4 * j) in if a \<noteq> 0 then bfree (i_dev x) a s else Ok s)
                             [0..<NINDIRECT] s) (\<lambda>s.
                    rbind (brelse bp s) (\<lambda>s.
                    rbind (bfree (i_dev x) ind s) (\<lambda>s.
                    Ok (upd_dinode ip (\<lambda>d. d\<lparr>d_addrs := (d_addrs d)(NDIRECT := 0)\<rparr>) s)))))
               else Ok s) (\<lambda>s.
        iupdate ip (upd_dinode ip (\<lambda>d. d\<lparr>d_size := 0\<rparr>) s)))"

definition iput :: "nat \<Rightarrow> 'a fs_st_scheme \<Rightarrow> 'a fs_st_scheme result" where
  "iput ip s =
     rbind (acquiresleep (ChanInodeLock ip) (\<lambda>s. i_lock (icache s ip)) (upd_ilock ip) s) (\<lambda>s.
     let x = icache s ip
     in rbind (if i_valid x \<and> d_nlink (i_d x) = 0 \<and> i_ref x = 1
               then rbind (itrunc ip s) (\<lambda>s.
                    rbind (iupdate ip (upd_dinode ip (\<lambda>d. d\<lparr>d_type := 0\<rparr>) s)) (\<lambda>s.
                    Ok (upd_inode ip (\<lambda>x. x\<lparr>i_valid := False\<rparr>) s)))
               else Ok s) (\<lambda>s.
        Ok (upd_inode ip (\<lambda>x. x\<lparr>i_ref := i_ref x - 1\<rparr>) (releasesleep (ChanInodeLock ip) (upd_ilock ip) s))))"

definition iunlockput :: "nat \<Rightarrow> 'a fs_st_scheme \<Rightarrow> 'a fs_st_scheme result" where
  "iunlockput ip s = rbind (iunlock ip s) (iput ip)"

definition stati :: "nat \<Rightarrow> 'a fs_st_scheme \<Rightarrow> stat" where
  "stati ip s =
     (let x = icache s ip
      in \<lparr>st_type = d_type (i_d x), st_dev = i_dev x, st_ino = i_inum x, st_nlink = d_nlink (i_d x), st_size = d_size (i_d x)\<rparr>)"

section \<open>The console device\<close>

definition consoleinit :: "'a fs_st_scheme \<Rightarrow> 'a fs_st_scheme" where
  "consoleinit s = s\<lparr>devsw := (devsw s)(CONSOLE := \<lparr>dev_read = Some ConsoleRead, dev_write = Some ConsoleWrite\<rparr>),
     con := (con s)\<lparr>locking := True\<rparr>\<rparr>"

definition i_killed :: "'a proc_st_scheme \<Rightarrow> bool" where
  "i_killed s = (case myproc s of Some p \<Rightarrow> p_killed (ptable s p) | None \<Rightarrow> False)"

text \<open>
  \<^verbatim>\<open>consoleread\<close> returns its value and the bytes stored at \<^verbatim>\<open>dst\<close>.  A call that has to wait for more input
  is \<^verbatim>\<open>Sleeps\<close>, whatever it consumed before.
\<close>

definition consoleread :: "nat \<Rightarrow> int \<Rightarrow> 'a fs_st_scheme \<Rightarrow> ((int \<times> uchar list) \<times> 'a fs_st_scheme) result" where
  "consoleread ip n s =
     rbind (iunlock ip s) (\<lambda>s.
     let ((cs, wait), k) = read_line (nat n) (nat n) (con s)
     in if wait
        then if i_killed s then rbind (ilock ip (s\<lparr>con := k\<rparr>)) (\<lambda>s. Ok ((-1, cs), s)) else Sleeps ChanInput
        else rbind (ilock ip (s\<lparr>con := k\<rparr>)) (\<lambda>s. Ok ((int (length cs), cs), s)))"

definition consolewrite :: "nat \<Rightarrow> uchar list \<Rightarrow> 'a fs_st_scheme \<Rightarrow> (int \<times> 'a fs_st_scheme) result" where
  "consolewrite ip buf s =
     rbind (iunlock ip s) (\<lambda>s.
     rbind (putchars buf (con s)) (\<lambda>k.
     rbind (ilock ip (s\<lparr>con := k\<rparr>)) (\<lambda>s. Ok (int (length buf), s))))"

definition consoleintr :: "int list \<Rightarrow> 'a fs_st_scheme \<Rightarrow> (bool \<times> 'a fs_st_scheme) result" where
  "consoleintr keys s =
     for_each (\<lambda>c (dump, s). rbind (edit_char c (con s)) (\<lambda>(ev, k).
       let s = s\<lparr>con := k\<rparr>
       in Ok (case ev of Nothing \<Rightarrow> (dump, s) | Wake \<Rightarrow> (dump, wakeup ChanInput s) | Dump \<Rightarrow> (True, s)))) keys (False, s)"

section \<open>Reading and writing\<close>

function readi_loop :: "nat \<Rightarrow> uint \<Rightarrow> nat \<Rightarrow> 'a fs_st_scheme \<Rightarrow> (uchar list \<times> 'a fs_st_scheme) result" where
  "readi_loop ip off n s =
     (if n = 0 then Ok ([], s)
      else rbind (bmap ip (off div of_nat BSIZE) s) (\<lambda>(addr, s).
           rbind (bread (i_dev (icache s ip)) addr s) (\<lambda>(bp, s).
           let o' = unat off mod BSIZE; m = min n (BSIZE - o'); cs = map (b_data (bufs s bp)) [o'..<o' + m]
           in rbind (brelse bp s) (\<lambda>s.
              rbind (readi_loop ip (off + of_nat m) (n - m) s) (\<lambda>(cs', s). Ok (cs @ cs', s))))))"
  by pat_completeness auto
termination by (relation "measure (\<lambda>(ip, off, n, s). n)") (auto simp: BSIZE_def)

declare readi_loop.simps [simp del]

definition readi :: "nat \<Rightarrow> uint \<Rightarrow> uint \<Rightarrow> 'a fs_st_scheme \<Rightarrow> ((int \<times> uchar list) \<times> 'a fs_st_scheme) result" where
  "readi ip off n s =
     (let x = icache s ip
      in if d_type (i_d x) = T_DEV
         then let major = sint (d_major (i_d x))
              in if major < 0 \<or> major \<ge> NDEV then Ok ((-1, []), s)
                 else (case dev_read (devsw s (nat major)) of
                         Some ConsoleRead \<Rightarrow> consoleread ip (sint n) s
                       | _ \<Rightarrow> Ok ((-1, []), s))
         else if off > d_size (i_d x) \<or> off + n < off then Ok ((-1, []), s)
         else let n = (if off + n > d_size (i_d x) then d_size (i_d x) - off else n)
              in rbind (readi_loop ip off (unat n) s) (\<lambda>(cs, s). Ok ((sint n, cs), s)))"

definition patch :: "block \<Rightarrow> nat \<Rightarrow> uchar list \<Rightarrow> block" where
  "patch v o' cs = (\<lambda>i. if o' \<le> i \<and> i < o' + length cs then cs ! (i - o') else v i)"

function writei_loop :: "nat \<Rightarrow> uint \<Rightarrow> uchar list \<Rightarrow> 'a fs_st_scheme \<Rightarrow> (uint \<times> 'a fs_st_scheme) result" where
  "writei_loop ip off src s =
     (if src = [] then Ok (off, s)
      else rbind (bmap ip (off div of_nat BSIZE) s) (\<lambda>(addr, s).
           rbind (bread (i_dev (icache s ip)) addr s) (\<lambda>(bp, s).
           let o' = unat off mod BSIZE; m = min (length src) (BSIZE - o')
           in rbind (log_write bp (set_data bp (patch (b_data (bufs s bp)) o' (take m src)) s)) (\<lambda>s.
              rbind (brelse bp s) (\<lambda>s.
              writei_loop ip (off + of_nat m) (drop m src) s)))))"
  by pat_completeness auto
termination by (relation "measure (\<lambda>(ip, off, src, s). length src)") (auto simp: BSIZE_def)

declare writei_loop.simps [simp del]

definition writei :: "nat \<Rightarrow> uchar list \<Rightarrow> uint \<Rightarrow> 'a fs_st_scheme \<Rightarrow> (int \<times> 'a fs_st_scheme) result" where
  "writei ip src off s =
     (let x = icache s ip; n = of_nat (length src) :: uint
      in if d_type (i_d x) = T_DEV
         then let major = sint (d_major (i_d x))
              in if major < 0 \<or> major \<ge> NDEV then Ok (-1, s)
                 else (case dev_write (devsw s (nat major)) of
                         Some ConsoleWrite \<Rightarrow> consolewrite ip src s
                       | _ \<Rightarrow> Ok (-1, s))
         else if off > d_size (i_d x) \<or> off + n < off then Ok (-1, s)
         else if off + n > of_nat (MAXFILE * BSIZE) then Ok (-1, s)
         else rbind (writei_loop ip off src s) (\<lambda>(off, s).
              if n > 0 \<and> off > d_size (i_d (icache s ip))
              then rbind (iupdate ip (upd_dinode ip (\<lambda>d. d\<lparr>d_size := off\<rparr>) s)) (\<lambda>s. Ok (sint n, s))
              else Ok (sint n, s)))"

end
