(* ===== verification/Dir.thy ===== *)
theory Dir
  imports Fs
begin

text \<open>
  Directories, path names and the swap area, the second half of \<^verbatim>\<open>fs.c\<close>.  A \<^verbatim>\<open>struct dirent\<close> is its 16
  bytes; a \<^verbatim>\<open>char name[DIRSIZ]\<close> is an array that need not contain a terminator.
\<close>

section \<open>Directories\<close>

definition namecmp :: "carray \<Rightarrow> carray \<Rightarrow> int" where
  "namecmp s t = strncmp s t (of_nat DIRSIZ)"

definition de_inum :: "uchar list \<Rightarrow> ushort" where
  "de_inum de = ld16 (\<lambda>i. de ! i) 0"

definition de_name :: "uchar list \<Rightarrow> carray" where
  "de_name de = (\<lambda>i. de ! (2 + i))"

definition mk_dirent :: "ushort \<Rightarrow> carray \<Rightarrow> uchar list" where
  "mk_dirent inum name = [ucast inum, ucast (drop_bit 8 inum)] @ map name [0..<DIRSIZ]"

text \<open>The offsets a scan of a directory visits; \<^verbatim>\<open>off\<close> cannot wrap around, since \<^verbatim>\<open>readi\<close> would fail first.\<close>

definition dir_offsets :: "uint \<Rightarrow> uint list" where
  "dir_offsets sz = map (\<lambda>k. of_nat (k * sizeof_dirent)) [0..<(unat sz + sizeof_dirent - 1) div sizeof_dirent]"

primrec dirlookup_scan :: "nat \<Rightarrow> carray \<Rightarrow> uint list \<Rightarrow> 'a fs_st_scheme \<Rightarrow> ((nat \<times> uint) option \<times> 'a fs_st_scheme) result" where
  "dirlookup_scan dp name [] s = Ok (None, s)"
| "dirlookup_scan dp name (off # offs) s =
     rbind (readi dp off (of_nat sizeof_dirent) s) (\<lambda>((r, de), s).
     if r \<noteq> int sizeof_dirent then Panic ''dirlookup read''
     else if de_inum de = 0 then dirlookup_scan dp name offs s
     else if namecmp name (de_name de) = 0
     then rbind (iget (i_dev (icache s dp)) (ucast (de_inum de)) s) (\<lambda>(ip, s). Ok (Some (ip, off), s))
     else dirlookup_scan dp name offs s)"

definition dirlookup :: "nat \<Rightarrow> carray \<Rightarrow> 'a fs_st_scheme \<Rightarrow> ((nat \<times> uint) option \<times> 'a fs_st_scheme) result" where
  "dirlookup dp name s =
     (if d_type (i_d (icache s dp)) \<noteq> T_DIR then Panic ''dirlookup not DIR''
      else dirlookup_scan dp name (dir_offsets (d_size (i_d (icache s dp)))) s)"

text \<open>The search for an empty slot: its offset and the entry last read, or the end of the directory.\<close>

primrec dirlink_scan :: "nat \<Rightarrow> uint list \<Rightarrow> uint \<Rightarrow> 'a fs_st_scheme \<Rightarrow> (uint \<times> 'a fs_st_scheme) result" where
  "dirlink_scan dp [] end_off s = Ok (end_off, s)"
| "dirlink_scan dp (off # offs) end_off s =
     rbind (readi dp off (of_nat sizeof_dirent) s) (\<lambda>((r, de), s).
     if r \<noteq> int sizeof_dirent then Panic ''dirlink read''
     else if de_inum de = 0 then Ok (off, s)
     else dirlink_scan dp offs end_off s)"

definition dirlink :: "nat \<Rightarrow> carray \<Rightarrow> uint \<Rightarrow> 'a fs_st_scheme \<Rightarrow> (int \<times> 'a fs_st_scheme) result" where
  "dirlink dp name inum s =
     rbind (dirlookup dp name s) (\<lambda>(r, s).
     case r of
       Some (ip, off) \<Rightarrow> rbind (iput ip s) (\<lambda>s. Ok (-1, s))
     | None \<Rightarrow>
         let offs = dir_offsets (d_size (i_d (icache s dp)))
         in rbind (dirlink_scan dp offs (of_nat (length offs * sizeof_dirent)) s) (\<lambda>(off, s).
            rbind (writei dp (mk_dirent (ucast inum) (strncpy (\<lambda>_. 0) name (int DIRSIZ))) off s) (\<lambda>(r, s).
            if r \<noteq> int sizeof_dirent then Panic ''dirlink'' else Ok (0, s))))"

section \<open>Paths\<close>

definition slash :: uchar where "slash = 47"

definition skipelem :: "uchar list \<Rightarrow> carray \<Rightarrow> (uchar list \<times> carray) option" where
  "skipelem path name =
     (let path = dropWhile (\<lambda>c. c = slash) path
      in if path = [] then None
         else let s = takeWhile (\<lambda>c. c \<noteq> slash) path; path = dropWhile (\<lambda>c. c \<noteq> slash) path; len = length s;
                  name = (if len \<ge> DIRSIZ then (\<lambda>i. if i < DIRSIZ then s ! i else name i)
                          else (\<lambda>i. if i < len then s ! i else if i = len then 0 else name i))
              in Some (dropWhile (\<lambda>c. c = slash) path, name))"

lemma skipelem_shorter: "skipelem path name = Some (path', name') \<Longrightarrow> length path' < length path"
proof -
  assume a: "skipelem path name = Some (path', name')"
  let ?p = "dropWhile (\<lambda>c. c = slash) path"
  have ne: "?p \<noteq> []" using a by (auto simp: skipelem_def Let_def split: if_splits)
  then have "hd ?p \<noteq> slash" using hd_dropWhile [OF ne] by simp
  then have "length (dropWhile (\<lambda>c. c \<noteq> slash) ?p) < length ?p"
    using ne length_dropWhile_le [of "\<lambda>c. c \<noteq> slash" "tl ?p"] by (cases ?p) auto
  moreover have "path' = dropWhile (\<lambda>c. c = slash) (dropWhile (\<lambda>c. c \<noteq> slash) ?p)"
    using a by (auto simp: skipelem_def Let_def split: if_splits)
  then have "length path' \<le> length (dropWhile (\<lambda>c. c \<noteq> slash) ?p)" by (simp add: length_dropWhile_le)
  ultimately show ?thesis using length_dropWhile_le [of "\<lambda>c. c = slash" path] by linarith
qed

text \<open>The loop of \<^verbatim>\<open>namex\<close>, from inode \<open>ip\<close>; the result is the inode found, if any, and the last path element.\<close>

function namex_loop :: "bool \<Rightarrow> nat \<Rightarrow> uchar list \<Rightarrow> carray \<Rightarrow> 'a fs_st_scheme \<Rightarrow> ((nat \<times> carray) option \<times> 'a fs_st_scheme) result" where
  "namex_loop parent ip path name s =
     (case skipelem path name of
        None \<Rightarrow> if parent then rbind (iput ip s) (\<lambda>s. Ok (None, s)) else Ok (Some (ip, name), s)
      | Some (path', name') \<Rightarrow>
          rbind (ilock ip s) (\<lambda>s.
          if d_type (i_d (icache s ip)) \<noteq> T_DIR then rbind (iunlockput ip s) (\<lambda>s. Ok (None, s))
          else if parent \<and> path' = [] then rbind (iunlock ip s) (\<lambda>s. Ok (Some (ip, name'), s))
          else rbind (dirlookup ip name' s) (\<lambda>(r, s).
               case r of
                 None \<Rightarrow> rbind (iunlockput ip s) (\<lambda>s. Ok (None, s))
               | Some (next, off) \<Rightarrow> rbind (iunlockput ip s) (namex_loop parent next path' name'))))"
  by pat_completeness auto
termination by (relation "measure (\<lambda>(parent, ip, path, name, s). length path)") (auto intro: skipelem_shorter)

declare namex_loop.simps [simp del]

definition namex :: "bool \<Rightarrow> uchar list \<Rightarrow> carray \<Rightarrow> 'a fs_st_scheme \<Rightarrow> ((nat \<times> carray) option \<times> 'a fs_st_scheme) result" where
  "namex parent path name s =
     (if path \<noteq> [] \<and> hd path = slash
      then rbind (iget ROOTDEV ROOTINO s) (\<lambda>(ip, s). namex_loop parent ip path name s)
      else case myproc s of
             None \<Rightarrow> Panic ''trap''
           | Some p \<Rightarrow> (case p_cwd (ptable s p) of
                           None \<Rightarrow> Panic ''trap''
                         | Some cwd \<Rightarrow> let (ip, s) = idup cwd s in namex_loop parent ip path name s))"

definition namei :: "uchar list \<Rightarrow> 'a fs_st_scheme \<Rightarrow> (nat option \<times> 'a fs_st_scheme) result" where
  "namei path s = rbind (namex False path (\<lambda>_. 0) s) (\<lambda>(r, s). Ok (map_option fst r, s))"

definition nameiparent :: "uchar list \<Rightarrow> carray \<Rightarrow> 'a fs_st_scheme \<Rightarrow> ((nat \<times> carray) option \<times> 'a fs_st_scheme) result" where
  "nameiparent path name s = namex True path name s"

section \<open>The swap area\<close>

definition SWAPBASE :: int where "SWAPBASE = 500"
definition SWAPMAX :: int where "SWAPMAX = 100000 - SWAPBASE"

text \<open>
  The pages are transferred block by block, the writes straight to the disk and not through the log.
  \<^verbatim>\<open>swapread\<close> returns the bytes it stores at \<^verbatim>\<open>ptr\<close>; \<^verbatim>\<open>swapwrite\<close> takes the bytes it finds there.
\<close>

definition swap_block :: "int \<Rightarrow> nat \<Rightarrow> uint" where
  "swap_block blkno i = word_of_int (blkno + SWAPBASE + int i)"

primrec swapread_loop :: "int \<Rightarrow> nat list \<Rightarrow> 'a bio_st_scheme \<Rightarrow> (uchar list \<times> 'a bio_st_scheme) result" where
  "swapread_loop blkno [] s = Ok ([], s)"
| "swapread_loop blkno (i # is) s =
     rbind (bread 0 (swap_block blkno i) s) (\<lambda>(bp, s).
     let cs = map (b_data (bufs s bp)) [0..<BSIZE]
     in rbind (brelse bp s) (\<lambda>s.
        rbind (swapread_loop blkno is s) (\<lambda>(rest, s). Ok (cs @ rest, s))))"

definition swapread :: "int \<Rightarrow> 'a bio_st_scheme \<Rightarrow> (uchar list \<times> 'a bio_st_scheme) result" where
  "swapread blkno s =
     (if blkno < 0 \<or> blkno \<ge> SWAPMAX then Panic ''swapread: blkno exceed range''
      else swapread_loop blkno [0..<8] s)"

definition swapwrite_block :: "uchar list \<Rightarrow> int \<Rightarrow> nat \<Rightarrow> 'a bio_st_scheme \<Rightarrow> 'a bio_st_scheme result" where
  "swapwrite_block pg blkno i s =
     rbind (bread 0 (swap_block blkno i) s) (\<lambda>(bp, s).
     rbind (bwrite bp (set_data bp (patch (b_data (bufs s bp)) 0 (take BSIZE (drop (i * BSIZE) pg))) s)) (brelse bp))"

definition swapwrite :: "uchar list \<Rightarrow> int \<Rightarrow> 'a bio_st_scheme \<Rightarrow> 'a bio_st_scheme result" where
  "swapwrite pg blkno s =
     (if blkno < 0 \<or> blkno \<ge> SWAPMAX then Panic ''swapread: blkno exceed range''
      else for_each (swapwrite_block pg blkno) [0..<8] s)"

end
