(* ===== verification/File.thy ===== *)
theory File
  imports Dir
begin

text \<open>
  Open files and pipes: \<^verbatim>\<open>file.c\<close> and \<^verbatim>\<open>pipe.c\<close>.

  A \<^verbatim>\<open>struct file*\<close> is an index into the file table.  A pipe occupies a page from \<^verbatim>\<open>kalloc\<close>; its fields are
  kept in a table indexed by the address of that page, which no other code looks into.

  \<^verbatim>\<open>pipewrite\<close> sleeps whenever the pipe is full and goes on where it stopped; \<open>pipewrite_run\<close> is its code
  from one wakeup to the next sleep.
\<close>

section \<open>Data\<close>

definition NFILE :: nat where "NFILE = 100"
definition PIPESIZE :: nat where "PIPESIZE = 512"

datatype fdtype = FD_NONE | FD_PIPE | FD_INODE

record file_rec =
  f_type :: fdtype
  f_ref :: int
  f_readable :: bool
  f_writable :: bool
  f_pipe :: uint
  f_ip :: nat
  f_off :: uint

record pipe =
  pi_data :: "nat \<Rightarrow> uchar"
  pi_nread :: uint
  pi_nwrite :: uint
  readopen :: bool
  writeopen :: bool

record file_st = fs_st +
  ftable :: "nat \<Rightarrow> file_rec"
  pipes :: "uint \<Rightarrow> pipe"

definition upd_file :: "nat \<Rightarrow> (file_rec \<Rightarrow> file_rec) \<Rightarrow> 'a file_st_scheme \<Rightarrow> 'a file_st_scheme" where
  "upd_file f g s = s\<lparr>ftable := (ftable s)(f := g (ftable s f))\<rparr>"

definition upd_pipe :: "uint \<Rightarrow> (pipe \<Rightarrow> pipe) \<Rightarrow> 'a file_st_scheme \<Rightarrow> 'a file_st_scheme" where
  "upd_pipe p g s = s\<lparr>pipes := (pipes s)(p := g (pipes s p))\<rparr>"

section \<open>Pipes\<close>

definition pipeclose :: "uint \<Rightarrow> bool \<Rightarrow> 'a file_st_scheme \<Rightarrow> 'a file_st_scheme result" where
  "pipeclose p writable s =
     (let s = (if writable then wakeup (ChanPipeRead p) (upd_pipe p (\<lambda>x. x\<lparr>writeopen := False\<rparr>) s)
               else wakeup (ChanPipeWrite p) (upd_pipe p (\<lambda>x. x\<lparr>readopen := False\<rparr>) s))
      in if \<not> readopen (pipes s p) \<and> \<not> writeopen (pipes s p) then kfree p s else Ok s)"

datatype pipe_run = PDone int | PSleep nat

primrec pipewrite_run :: "uint \<Rightarrow> uchar list \<Rightarrow> nat \<Rightarrow> 'a file_st_scheme \<Rightarrow> pipe_run \<times> 'a file_st_scheme" where
  "pipewrite_run p [] i s = (PDone (int i), wakeup (ChanPipeRead p) s)"
| "pipewrite_run p (c # cs) i s =
     (let x = pipes s p
      in if pi_nwrite x = pi_nread x + of_nat PIPESIZE
         then if \<not> readopen x \<or> i_killed s then (PDone (-1), s)
              else (PSleep i, wakeup (ChanPipeRead p) s)
         else pipewrite_run p cs (Suc i)
                (upd_pipe p (\<lambda>x. x\<lparr>pi_data := (pi_data x)(unat (pi_nwrite x) mod PIPESIZE := c), pi_nwrite := pi_nwrite x + 1\<rparr>) s))"

definition pipewrite :: "uint \<Rightarrow> uchar list \<Rightarrow> 'a file_st_scheme \<Rightarrow> (int \<times> 'a file_st_scheme) result" where
  "pipewrite p cs s =
     (case pipewrite_run p cs 0 s of (PDone r, s) \<Rightarrow> Ok (r, s) | (PSleep i, s) \<Rightarrow> Sleeps (ChanPipeWrite p))"

primrec piperead_copy :: "nat \<Rightarrow> pipe \<Rightarrow> uchar list \<times> pipe" where
  "piperead_copy 0 x = ([], x)"
| "piperead_copy (Suc n) x =
     (if pi_nread x = pi_nwrite x then ([], x)
      else let (cs, x') = piperead_copy n (x\<lparr>pi_nread := pi_nread x + 1\<rparr>)
           in (pi_data x (unat (pi_nread x) mod PIPESIZE) # cs, x'))"

definition piperead :: "uint \<Rightarrow> int \<Rightarrow> 'a file_st_scheme \<Rightarrow> ((int \<times> uchar list) \<times> 'a file_st_scheme) result" where
  "piperead p n s =
     (let x = pipes s p
      in if pi_nread x = pi_nwrite x \<and> writeopen x
         then if i_killed s then Ok ((-1, []), s) else Sleeps (ChanPipeRead p)
         else let (cs, x') = piperead_copy (nat n) x
              in Ok ((int (length cs), cs), wakeup (ChanPipeWrite p) (upd_pipe p (\<lambda>_. x') s)))"

section \<open>Files\<close>

definition filealloc :: "'a file_st_scheme \<Rightarrow> nat option \<times> 'a file_st_scheme" where
  "filealloc s =
     (case find (\<lambda>f. f_ref (ftable s f) = 0) [0..<NFILE] of
        Some f \<Rightarrow> (Some f, upd_file f (\<lambda>x. x\<lparr>f_ref := 1\<rparr>) s)
      | None \<Rightarrow> (None, s))"

definition filedup :: "nat \<Rightarrow> 'a file_st_scheme \<Rightarrow> (nat \<times> 'a file_st_scheme) result" where
  "filedup f s =
     (if f_ref (ftable s f) < 1 then Panic ''filedup''
      else Ok (f, upd_file f (\<lambda>x. x\<lparr>f_ref := f_ref x + 1\<rparr>) s))"

definition fileclose :: "nat \<Rightarrow> 'a file_st_scheme \<Rightarrow> 'a file_st_scheme result" where
  "fileclose f s =
     (if f_ref (ftable s f) < 1 then Panic ''fileclose''
      else let s = upd_file f (\<lambda>x. x\<lparr>f_ref := f_ref x - 1\<rparr>) s
      in if f_ref (ftable s f) > 0 then Ok s
         else let ff = ftable s f; s = upd_file f (\<lambda>x. x\<lparr>f_ref := 0, f_type := FD_NONE\<rparr>) s
         in case f_type ff of
              FD_PIPE \<Rightarrow> pipeclose (f_pipe ff) (f_writable ff) s
            | FD_INODE \<Rightarrow> rbind (begin_op s) (\<lambda>s. rbind (iput (f_ip ff) s) end_op)
            | FD_NONE \<Rightarrow> Ok s)"

definition pipealloc_bad :: "nat option \<Rightarrow> nat option \<Rightarrow> 'a file_st_scheme \<Rightarrow> ((nat \<times> nat) option \<times> 'a file_st_scheme) result" where
  "pipealloc_bad f0 f1 s =
     rbind (case f0 of Some f \<Rightarrow> fileclose f s | None \<Rightarrow> Ok s) (\<lambda>s.
     rbind (case f1 of Some f \<Rightarrow> fileclose f s | None \<Rightarrow> Ok s) (\<lambda>s. Ok (None, s)))"

definition pipealloc :: "'a file_st_scheme \<Rightarrow> ((nat \<times> nat) option \<times> 'a file_st_scheme) result" where
  "pipealloc s =
     (case filealloc s of
        (None, s) \<Rightarrow> pipealloc_bad None None s
      | (Some f0, s) \<Rightarrow>
        (case filealloc s of
           (None, s) \<Rightarrow> pipealloc_bad (Some f0) None s
         | (Some f1, s) \<Rightarrow>
             let (p, s) = kalloc s
             in if p = 0 then pipealloc_bad (Some f0) (Some f1) s
                else let s = upd_pipe p (\<lambda>x. x\<lparr>readopen := True, writeopen := True, pi_nwrite := 0, pi_nread := 0\<rparr>) s;
                         s = upd_file f0 (\<lambda>x. x\<lparr>f_type := FD_PIPE, f_readable := True, f_writable := False, f_pipe := p\<rparr>) s;
                         s = upd_file f1 (\<lambda>x. x\<lparr>f_type := FD_PIPE, f_readable := False, f_writable := True, f_pipe := p\<rparr>) s
                     in Ok (Some (f0, f1), s)))"

definition filestat :: "nat \<Rightarrow> 'a file_st_scheme \<Rightarrow> (stat option \<times> 'a file_st_scheme) result" where
  "filestat f s =
     (if f_type (ftable s f) = FD_INODE
      then let ip = f_ip (ftable s f)
           in rbind (ilock ip s) (\<lambda>s. let st = stati ip s in rbind (iunlock ip s) (\<lambda>s. Ok (Some st, s)))
      else Ok (None, s))"

definition fileread :: "nat \<Rightarrow> int \<Rightarrow> 'a file_st_scheme \<Rightarrow> ((int \<times> uchar list) \<times> 'a file_st_scheme) result" where
  "fileread f n s =
     (let x = ftable s f
      in if \<not> f_readable x then Ok ((-1, []), s)
         else case f_type x of
           FD_PIPE \<Rightarrow> piperead (f_pipe x) n s
         | FD_INODE \<Rightarrow>
             rbind (ilock (f_ip x) s) (\<lambda>s.
             rbind (readi (f_ip x) (f_off (ftable s f)) (word_of_int n) s) (\<lambda>((r, cs), s).
             let s = (if r > 0 then upd_file f (\<lambda>x. x\<lparr>f_off := f_off x + word_of_int r\<rparr>) s else s)
             in rbind (iunlock (f_ip x) s) (\<lambda>s. Ok ((r, cs), s))))
         | FD_NONE \<Rightarrow> Panic ''fileread'')"

definition filewrite_max :: nat where
  "filewrite_max = nat (((MAXOPBLOCKS - 1 - 1 - 2) div 2) * 512)"

function filewrite_loop :: "nat \<Rightarrow> uchar list \<Rightarrow> 'a file_st_scheme \<Rightarrow> (bool \<times> 'a file_st_scheme) result" where
  "filewrite_loop f cs s =
     (if cs = [] then Ok (True, s)
      else let n1 = min (length cs) filewrite_max; ip = f_ip (ftable s f)
           in rbind (begin_op s) (\<lambda>s.
              rbind (ilock ip s) (\<lambda>s.
              rbind (writei ip (take n1 cs) (f_off (ftable s f)) s) (\<lambda>(r, s).
              let s = (if r > 0 then upd_file f (\<lambda>x. x\<lparr>f_off := f_off x + word_of_int r\<rparr>) s else s)
              in rbind (iunlock ip s) (\<lambda>s.
                 rbind (end_op s) (\<lambda>s.
                 if r < 0 then Ok (False, s)
                 else if r \<noteq> int n1 then Panic ''short filewrite''
                 else filewrite_loop f (drop n1 cs) s))))))"
  by pat_completeness auto
termination
  by (relation "measure (\<lambda>(f, cs, s). length cs)") (auto simp: filewrite_max_def MAXOPBLOCKS_def)

declare filewrite_loop.simps [simp del]

definition filewrite :: "nat \<Rightarrow> uchar list \<Rightarrow> 'a file_st_scheme \<Rightarrow> (int \<times> 'a file_st_scheme) result" where
  "filewrite f cs s =
     (let x = ftable s f
      in if \<not> f_writable x then Ok (-1, s)
         else case f_type x of
           FD_PIPE \<Rightarrow> pipewrite (f_pipe x) cs s
         | FD_INODE \<Rightarrow> rbind (filewrite_loop f cs s) (\<lambda>(ok, s). Ok (if ok then int (length cs) else -1, s))
         | FD_NONE \<Rightarrow> Panic ''filewrite'')"

section \<open>Pipes are bounded queues\<close>

interpretation pipe_ring: ring_index PIPESIZE
  by unfold_locales (simp_all add: PIPESIZE_def)

definition pipe_bytes :: "uint \<Rightarrow> 'a file_st_scheme \<Rightarrow> uchar list" where
  "pipe_bytes p s = (let x = pipes s p in ring_list PIPESIZE (pi_data x) (pi_nread x) (pi_nwrite x))"

definition pipe_ok :: "uint \<Rightarrow> 'a file_st_scheme \<Rightarrow> bool" where
  "pipe_ok p s \<longleftrightarrow> length (pipe_bytes p s) \<le> PIPESIZE"

definition pipe_put :: "uint \<Rightarrow> uchar \<Rightarrow> 'a file_st_scheme \<Rightarrow> 'a file_st_scheme" where
  "pipe_put p c = upd_pipe p (\<lambda>x. x\<lparr>pi_data := (pi_data x)(unat (pi_nwrite x) mod PIPESIZE := c), pi_nwrite := pi_nwrite x + 1\<rparr>)"

lemma pipes_wakeup [simp]: "pipes (wakeup c s) = pipes s"
  by (simp add: wakeup_def wakeup1_def)

lemma i_killed_wakeup [simp]: "i_killed (wakeup c s) = i_killed s"
  by (simp add: i_killed_def myproc_def wakeup_def wakeup1_def split: option.split)

lemma i_killed_upd_pipe [simp]: "i_killed (upd_pipe p f s) = i_killed s"
  by (simp add: i_killed_def myproc_def upd_pipe_def split: option.split)

lemma pipes_upd_pipe [simp]: "pipes (upd_pipe p f s) = (pipes s)(p := f (pipes s p))"
  by (simp add: upd_pipe_def)

lemma pipe_bytes_wakeup [simp]: "pipe_bytes p (wakeup c s) = pipe_bytes p s"
  by (simp add: pipe_bytes_def)

lemma pipe_full_iff:
  "pi_nwrite (pipes s p) = pi_nread (pipes s p) + of_nat PIPESIZE \<longleftrightarrow> length (pipe_bytes p s) = PIPESIZE"
proof -
  have "pi_nwrite x = pi_nread x + of_nat PIPESIZE \<longleftrightarrow> pi_nwrite x - pi_nread x = of_nat PIPESIZE" for x
    by (auto simp: algebra_simps)
  also have "\<dots> x \<longleftrightarrow> unat (pi_nwrite x - pi_nread x) = PIPESIZE" for x
    by (subst word_unat_eq_iff) (simp add: PIPESIZE_def)
  finally show ?thesis by (simp add: pipe_bytes_def Let_def)
qed

lemma pipe_put_bytes:
  assumes "length (pipe_bytes p s) < PIPESIZE"
  shows "pipe_bytes p (pipe_put p c s) = pipe_bytes p s @ [c]"
  using assms pipe_ring.push by (simp add: pipe_bytes_def pipe_put_def Let_def)

lemma pipe_put_same [simp]:
  "readopen (pipes (pipe_put p c s) p) = readopen (pipes s p)"
  "writeopen (pipes (pipe_put p c s) p) = writeopen (pipes s p)" "i_killed (pipe_put p c s) = i_killed s"
  by (simp_all add: pipe_put_def)

lemma pipewrite_run_Cons:
  "pipewrite_run p (c # cs) i s =
     (if length (pipe_bytes p s) = PIPESIZE
      then if \<not> readopen (pipes s p) \<or> i_killed s then (PDone (-1), s) else (PSleep i, wakeup (ChanPipeRead p) s)
      else pipewrite_run p cs (Suc i) (pipe_put p c s))"
  by (simp add: pipe_full_iff pipe_put_def)

declare pipewrite_run.simps(2) [simp del]

lemma pipewrite_run_ok:
  assumes "pipe_ok p s"
  shows "\<exists>s'. pipewrite_run p cs i s =
      (if length cs \<le> PIPESIZE - length (pipe_bytes p s) then PDone (int (i + length cs))
       else if \<not> readopen (pipes s p) \<or> i_killed s then PDone (-1)
       else PSleep (i + (PIPESIZE - length (pipe_bytes p s))), s') \<and>
    pipe_bytes p s' = pipe_bytes p s @ take (PIPESIZE - length (pipe_bytes p s)) cs \<and>
    readopen (pipes s' p) = readopen (pipes s p) \<and> writeopen (pipes s' p) = writeopen (pipes s p) \<and>
    i_killed s' = i_killed s"
  using assms
proof (induction cs arbitrary: i s)
  case Nil
  then show ?case by simp
next
  case (Cons c cs)
  show ?case
  proof (cases "length (pipe_bytes p s) = PIPESIZE")
    case True
    then show ?thesis by (auto simp: pipewrite_run_Cons)
  next
    case False
    with Cons.prems have lt: "length (pipe_bytes p s) < PIPESIZE" by (simp add: pipe_ok_def)
    note b = pipe_put_bytes [OF lt, of c]
    from lt have "pipe_ok p (pipe_put p c s)" by (simp add: pipe_ok_def b)
    from Cons.IH [OF this, of "Suc i"] lt show ?thesis
      unfolding pipewrite_run_Cons b by (auto simp: take_Cons' Suc_diff_Suc)
  qed
qed

lemma piperead_copy_ok:
  "\<exists>x'. piperead_copy n x = (take n (ring_list PIPESIZE (pi_data x) (pi_nread x) (pi_nwrite x)), x') \<and>
     ring_list PIPESIZE (pi_data x') (pi_nread x') (pi_nwrite x') =
       drop n (ring_list PIPESIZE (pi_data x) (pi_nread x) (pi_nwrite x)) \<and>
     readopen x' = readopen x \<and> writeopen x' = writeopen x"
proof (induction n arbitrary: x)
  case 0
  then show ?case by simp
next
  case (Suc n)
  show ?case
  proof (cases "pi_nread x = pi_nwrite x")
    case True
    then show ?thesis by simp
  next
    case False
    with Suc.IH [of "x\<lparr>pi_nread := pi_nread x + 1\<rparr>"] show ?thesis
      by (auto simp: ring_list_pop [OF False])
  qed
qed

lemma piperead_ok:
  "if pipe_bytes p s = [] \<and> writeopen (pipes s p)
   then piperead p n s = (if i_killed s then Ok ((-1, []), s) else Sleeps (ChanPipeRead p))
   else \<exists>s'. piperead p n s = Ok ((int (length (take (nat n) (pipe_bytes p s))), take (nat n) (pipe_bytes p s)), wakeup (ChanPipeWrite p) s') \<and>
     pipe_bytes p s' = drop (nat n) (pipe_bytes p s) \<and>
     readopen (pipes s' p) = readopen (pipes s p) \<and> writeopen (pipes s' p) = writeopen (pipes s p) \<and> i_killed s' = i_killed s"
proof -
  obtain x' where "piperead_copy (nat n) (pipes s p) = (take (nat n) (pipe_bytes p s), x')"
    "ring_list PIPESIZE (pi_data x') (pi_nread x') (pi_nwrite x') = drop (nat n) (pipe_bytes p s)"
    "readopen x' = readopen (pipes s p)" "writeopen x' = writeopen (pipes s p)"
    using piperead_copy_ok [of "nat n" "pipes s p"] by (auto simp: pipe_bytes_def Let_def)
  then show ?thesis
    by (auto simp: piperead_def Let_def pipe_bytes_def ring_list_eq_Nil
        intro!: exI [of _ "upd_pipe p (\<lambda>_. x') s"])
qed

text \<open>
  Any number of processes write to and read from a pipe; each atomic section is a run of \<^verbatim>\<open>pipewrite\<close> up to its
  end or its next sleep, or a call of \<^verbatim>\<open>piperead\<close>.  A writer that slept continues later with the bytes it
  had not stored, in another \<open>PWrite\<close>.  The result lists the bytes writers got rid of and the bytes readers
  received.
\<close>

datatype pipe_op = PWrite "uchar list" | PRead int

fun pipe_session :: "uint \<Rightarrow> pipe_op list \<Rightarrow> 'a file_st_scheme \<Rightarrow> uchar list \<times> uchar list \<times> 'a file_st_scheme" where
  "pipe_session p [] s = ([], [], s)"
| "pipe_session p (PWrite cs # ops) s =
     (case pipewrite_run p cs 0 s of
        (PDone r, s) \<Rightarrow> let (ws, rs, s) = pipe_session p ops s in (cs @ ws, rs, s)
      | (PSleep i, s) \<Rightarrow> let (ws, rs, s) = pipe_session p ops s in (take i cs @ ws, rs, s))"
| "pipe_session p (PRead n # ops) s =
     (case piperead p n s of
        Ok ((r, bs), s) \<Rightarrow> let (ws, rs, s) = pipe_session p ops s in (ws, bs @ rs, s)
      | _ \<Rightarrow> pipe_session p ops s)"

definition pipe_live :: "uint \<Rightarrow> 'a file_st_scheme \<Rightarrow> bool" where
  "pipe_live p s \<longleftrightarrow> pipe_ok p s \<and> readopen (pipes s p) \<and> \<not> i_killed s"

lemma pipe_session_ok:
  "pipe_live p s \<Longrightarrow> pipe_session p ops s = (ws, rs, s') \<Longrightarrow>
   pipe_live p s' \<and> rs @ pipe_bytes p s' = pipe_bytes p s @ ws"
proof (induction ops arbitrary: s ws rs s')
  case Nil
  then show ?case by simp
next
  case (Cons op ops)
  show ?case
  proof (cases op)
    case (PWrite cs)
    let ?room = "PIPESIZE - length (pipe_bytes p s)"
    obtain t where t: "pipewrite_run p cs 0 s = (if length cs \<le> ?room then PDone (int (length cs)) else PSleep ?room, t)"
      "pipe_bytes p t = pipe_bytes p s @ take ?room cs" "readopen (pipes t p)" "\<not> i_killed t"
      using pipewrite_run_ok [of p s cs 0] Cons.prems(1) by (auto simp: pipe_live_def)
    obtain ws1 rs1 s1 where r: "pipe_session p ops t = (ws1, rs1, s1)" by (metis prod_cases3)
    have "pipe_live p t" using t Cons.prems(1) by (auto simp: pipe_live_def pipe_ok_def)
    note ih = Cons.IH [OF this r]
    have "ws = take ?room cs @ ws1 \<and> rs = rs1 \<and> s' = s1"
      using Cons.prems(2) r unfolding PWrite pipe_session.simps t(1) by (cases "length cs \<le> ?room") simp_all
    with ih t(2) show ?thesis by simp
  next
    case (PRead n)
    show ?thesis
    proof (cases "pipe_bytes p s = [] \<and> writeopen (pipes s p)")
      case True
      have "piperead p n s = Sleeps (ChanPipeRead p)"
        using piperead_ok [of p s n] True Cons.prems(1) by (simp add: pipe_live_def)
      then have "pipe_session p ops s = (ws, rs, s')" using Cons.prems(2) by (simp add: PRead)
      with Cons.IH [OF Cons.prems(1)] show ?thesis by simp
    next
      case False
      obtain t where t: "piperead p n s = Ok ((int (length (take (nat n) (pipe_bytes p s))), take (nat n) (pipe_bytes p s)), t)"
        "pipe_bytes p t = drop (nat n) (pipe_bytes p s)" "readopen (pipes t p)" "\<not> i_killed t"
        using piperead_ok [of p s n] Cons.prems(1) unfolding if_not_P [OF False] by (auto simp: pipe_live_def)
      obtain ws1 rs1 s1 where r: "pipe_session p ops t = (ws1, rs1, s1)" by (metis prod_cases3)
      have "pipe_live p t" using t Cons.prems(1) by (auto simp: pipe_live_def pipe_ok_def)
      from Cons.IH [OF this r] have ih: "pipe_live p s1" "rs1 @ pipe_bytes p s1 = drop (nat n) (pipe_bytes p s) @ ws1"
        using t(2) by auto
      have "ws = ws1" "rs = take (nat n) (pipe_bytes p s) @ rs1" "s' = s1" using Cons.prems(2) t(1) r PRead by auto
      with ih show ?thesis by (metis append.assoc append_take_drop_id)
    qed
  qed
qed

lemma pipe_no_deadlock:
  assumes "pipe_live p s" and "0 < n" and "cs \<noteq> []"
  shows "fst (pipewrite_run p cs 0 s) \<noteq> PSleep 0 \<or>
    (\<exists>b bs s'. piperead p n s = Ok ((int (length (b # bs)), b # bs), s') \<and> fst (pipewrite_run p cs 0 s') \<noteq> PSleep 0)"
proof (cases "length (pipe_bytes p s) = PIPESIZE")
  case True
  then have ne: "pipe_bytes p s \<noteq> []" by (auto simp: PIPESIZE_def)
  obtain s' where s': "piperead p n s = Ok ((int (length (take (nat n) (pipe_bytes p s))), take (nat n) (pipe_bytes p s)), s')"
    "pipe_bytes p s' = drop (nat n) (pipe_bytes p s)" "readopen (pipes s' p)" "\<not> i_killed s'"
    using piperead_ok [of p s n] assms(1) ne by (auto simp: pipe_live_def)
  obtain b bs where b: "take (nat n) (pipe_bytes p s) = b # bs"
    using ne assms(2) by (cases "take (nat n) (pipe_bytes p s)") auto
  have "pipe_ok p s'" using s'(2) True by (simp add: pipe_ok_def)
  from pipewrite_run_ok [OF this, of cs 0] s' True assms(2) have "fst (pipewrite_run p cs 0 s') \<noteq> PSleep 0"
    by (auto simp: PIPESIZE_def split: if_splits)
  with s'(1) b show ?thesis by metis
next
  case False
  with assms(1) have "length (pipe_bytes p s) < PIPESIZE" by (auto simp: pipe_live_def pipe_ok_def)
  with pipewrite_run_ok [of p s cs 0] assms(1) have "fst (pipewrite_run p cs 0 s) \<noteq> PSleep 0"
    by (auto simp: pipe_live_def split: if_splits)
  then show ?thesis by simp
qed


definition fs0 :: fs_st where
  "fs0 = log_st.extend log0
     \<lparr>sb = \<lparr>sb_size = 1000, sb_nblocks = 941, sb_ninodes = 200, sb_nlog = 30, sb_logstart = 2, sb_inodestart = 32, sb_bmapstart = 58\<rparr>,
      icache = \<lambda>_. \<lparr>i_dev = 0, i_inum = 0, i_ref = 0,
        i_lock = \<lparr>sl_locked = 0, sl_name = [], sl_pid = 0\<rparr>, i_valid = False,
        i_d = \<lparr>d_type = 0, d_major = 0, d_minor = 0, d_nlink = 0, d_size = 0, d_addrs = \<lambda>_. 0\<rparr>\<rparr>,
      devsw = \<lambda>_. \<lparr>dev_read = None, dev_write = None\<rparr>, con = con0\<rparr>"

definition file0 :: file_st where
  "file0 = fs_st.extend fs0
     \<lparr>ftable = \<lambda>_. \<lparr>f_type = FD_NONE, f_ref = 0, f_readable = False, f_writable = False, f_pipe = 0, f_ip = 0, f_off = 0\<rparr>,
      pipes = \<lambda>_. \<lparr>pi_data = \<lambda>_. 0, pi_nread = -2, pi_nwrite = -1, readopen = True, writeopen = True\<rparr>\<rparr>"


end
