(* ===== verification/Vm.thy ===== *)
theory Vm
  imports Kalloc
begin

text \<open>
  Page tables and user memory, \<^verbatim>\<open>vm.c\<close>.  Page directories and page tables are pages of the memory of
  \<^verbatim>\<open>Kalloc\<close>, read and written through the kernel's linear map, exactly where the hardware finds them.  A
  \<^verbatim>\<open>pde_t*\<close> or \<^verbatim>\<open>pte_t*\<close> is an address.

  The messages \<^verbatim>\<open>allocuvm\<close> prints are not modelled.  \<^verbatim>\<open>loaduvm\<close>, which reads a file, is in \<^verbatim>\<open>Exec\<close>, and the
  functions that load hardware registers are in \<^verbatim>\<open>Kernel\<close>.
\<close>

section \<open>Definitions\<close>

definition NPDENTRIES :: nat where "NPDENTRIES = 1024"

definition store32 :: "uint \<Rightarrow> uint \<Rightarrow> 'a kmem_st_scheme \<Rightarrow> 'a kmem_st_scheme" where
  "store32 a v s = s\<lparr>mem := st32 (mem s) a v\<rparr>"

definition zero_page :: "uint \<Rightarrow> 'a kmem_st_scheme \<Rightarrow> 'a kmem_st_scheme" where
  "zero_page a s = s\<lparr>mem := memset (mem s) a 0 PGSIZE\<rparr>"

text \<open>\<^verbatim>\<open>walkpgdir\<close>: the address of the entry for \<open>va\<close>, or 0.\<close>

definition walkpgdir :: "uint \<Rightarrow> uint \<Rightarrow> bool \<Rightarrow> 'a kmem_st_scheme \<Rightarrow> uint \<times> 'a kmem_st_scheme" where
  "walkpgdir pgdir va alloc s =
     (let pde = pgdir + 4 * PDX va; e = ld32 (mem s) pde
      in if e AND PTE_P \<noteq> 0 then (P2V (PTE_ADDR e) + 4 * PTX va, s)
         else if \<not> alloc then (0, s)
         else let (pgtab, s) = kalloc s
              in if pgtab = 0 then (0, s)
                 else (pgtab + 4 * PTX va, store32 pde (V2P pgtab OR PTE_P OR PTE_W OR PTE_U) (zero_page pgtab s)))"

text \<open>
  \<^verbatim>\<open>mappages\<close>: its loop runs until \<^verbatim>\<open>a\<close> equals \<^verbatim>\<open>last\<close>.  Both are multiples of the page size, so that is
  after \<^verbatim>\<open>(last - a) / PGSIZE\<close> further rounds, also when the range wraps around the address space.
\<close>

primrec mappages_loop :: "nat \<Rightarrow> uint \<Rightarrow> uint \<Rightarrow> uint \<Rightarrow> uint \<Rightarrow> 'a kmem_st_scheme \<Rightarrow> (int \<times> 'a kmem_st_scheme) result" where
  "mappages_loop 0 pgdir a pa perm s =
     (let (pte, s) = walkpgdir pgdir a True s
      in if pte = 0 then Ok (-1, s)
         else if ld32 (mem s) pte AND PTE_P \<noteq> 0 then Panic ''remap''
         else Ok (0, store32 pte (pa OR perm OR PTE_P) s))"
| "mappages_loop (Suc k) pgdir a pa perm s =
     (let (pte, s) = walkpgdir pgdir a True s
      in if pte = 0 then Ok (-1, s)
         else if ld32 (mem s) pte AND PTE_P \<noteq> 0 then Panic ''remap''
         else mappages_loop k pgdir (a + PGSIZE) (pa + PGSIZE) perm (store32 pte (pa OR perm OR PTE_P) s))"

definition mappages :: "uint \<Rightarrow> uint \<Rightarrow> uint \<Rightarrow> uint \<Rightarrow> uint \<Rightarrow> 'a kmem_st_scheme \<Rightarrow> (int \<times> 'a kmem_st_scheme) result" where
  "mappages pgdir va sz pa perm s =
     (let a = PGROUNDDOWN va; lst = PGROUNDDOWN (va + sz - 1)
      in mappages_loop (unat ((lst - a) div PGSIZE)) pgdir a pa perm s)"

record kmap_entry =
  km_virt :: uint
  km_start :: uint
  km_end :: uint
  km_perm :: uint

definition kmap :: "uint \<Rightarrow> kmap_entry list" where
  "kmap dat =
     [\<lparr>km_virt = KERNBASE, km_start = 0, km_end = EXTMEM, km_perm = PTE_W\<rparr>,
      \<lparr>km_virt = KERNLINK, km_start = V2P KERNLINK, km_end = V2P dat, km_perm = 0\<rparr>,
      \<lparr>km_virt = dat, km_start = V2P dat, km_end = PHYSTOP, km_perm = PTE_W\<rparr>,
      \<lparr>km_virt = DEVSPACE, km_start = DEVSPACE, km_end = 0, km_perm = PTE_W\<rparr>]"

text \<open>
  \<^verbatim>\<open>deallocuvm\<close>: when a whole page table is missing the loop continues at the next directory entry.  If
  the address wraps around, the loop never ends.
\<close>

function deallocuvm_loop :: "uint \<Rightarrow> uint \<Rightarrow> uint \<Rightarrow> 'a kmem_st_scheme \<Rightarrow> 'a kmem_st_scheme result" where
  "deallocuvm_loop pgdir oldsz a s =
     (if a < oldsz
      then let pte = fst (walkpgdir pgdir a False s);
               a' = (if pte = 0 then PGADDR (PDX a + 1) 0 0 - PGSIZE else a) + PGSIZE
           in rbind (if pte \<noteq> 0 \<and> ld32 (mem s) pte AND PTE_P \<noteq> 0
                     then let pa = PTE_ADDR (ld32 (mem s) pte)
                          in if pa = 0 then Panic ''kfree''
                             else rbind (kfree (P2V pa) s) (\<lambda>s. Ok (store32 pte 0 s))
                     else Ok s) (\<lambda>s.
              if a < a' then deallocuvm_loop pgdir oldsz a' s else Diverges)
      else Ok s)"
  by pat_completeness auto
termination
  by (relation "measure (\<lambda>(pgdir, oldsz, a, s). unat oldsz - unat a)") (auto simp: word_less_nat_alt Let_def)

declare deallocuvm_loop.simps [simp del]

definition deallocuvm :: "uint \<Rightarrow> uint \<Rightarrow> uint \<Rightarrow> 'a kmem_st_scheme \<Rightarrow> (uint \<times> 'a kmem_st_scheme) result" where
  "deallocuvm pgdir oldsz newsz s =
     (if newsz \<ge> oldsz then Ok (oldsz, s)
      else rbind (deallocuvm_loop pgdir oldsz (PGROUNDUP newsz) s) (\<lambda>s. Ok (newsz, s)))"

definition freevm_entry :: "uint \<Rightarrow> nat \<Rightarrow> 'a kmem_st_scheme \<Rightarrow> 'a kmem_st_scheme result" where
  "freevm_entry pgdir i s =
     (let e = ld32 (mem s) (pgdir + 4 * of_nat i)
      in if e AND PTE_P \<noteq> 0 then kfree (P2V (PTE_ADDR e)) s else Ok s)"

definition freevm :: "uint \<Rightarrow> 'a kmem_st_scheme \<Rightarrow> 'a kmem_st_scheme result" where
  "freevm pgdir s =
     (if pgdir = 0 then Panic ''freevm: no pgdir''
      else rbind (deallocuvm pgdir KERNBASE 0 s) (\<lambda>(sz, s).
           rbind (for_each (freevm_entry pgdir) [0..<NPDENTRIES] s) (kfree pgdir)))"

primrec setupkvm_loop :: "uint \<Rightarrow> kmap_entry list \<Rightarrow> 'a kmem_st_scheme \<Rightarrow> (uint \<times> 'a kmem_st_scheme) result" where
  "setupkvm_loop pgdir [] s = Ok (pgdir, s)"
| "setupkvm_loop pgdir (k # ks) s =
     rbind (mappages pgdir (km_virt k) (km_end k - km_start k) (km_start k) (km_perm k) s) (\<lambda>(r, s).
     if r < 0 then rbind (freevm pgdir s) (\<lambda>s. Ok (0, s)) else setupkvm_loop pgdir ks s)"

definition setupkvm :: "'a kmem_st_scheme \<Rightarrow> (uint \<times> 'a kmem_st_scheme) result" where
  "setupkvm s =
     (let (pgdir, s) = kalloc s
      in if pgdir = 0 then Ok (0, s)
         else if P2V PHYSTOP > DEVSPACE then Panic ''PHYSTOP too high''
         else setupkvm_loop pgdir (kmap (kdata s)) (zero_page pgdir s))"

definition inituvm :: "uint \<Rightarrow> uchar list \<Rightarrow> 'a kmem_st_scheme \<Rightarrow> 'a kmem_st_scheme result" where
  "inituvm pgdir init s =
     (if of_nat (length init) \<ge> PGSIZE then Panic ''inituvm: more than a page''
      else let (m, s) = kalloc s
           in if m = 0 then Panic ''trap''
              else rbind (mappages pgdir 0 PGSIZE (V2P m) (PTE_W OR PTE_U) (zero_page m s)) (\<lambda>(r, s).
              Ok (s\<lparr>mem := \<lambda>a. if a - m < of_nat (length init) then init ! unat (a - m) else mem s a\<rparr>)))"

function allocuvm_loop :: "uint \<Rightarrow> uint \<Rightarrow> uint \<Rightarrow> uint \<Rightarrow> 'a kmem_st_scheme \<Rightarrow> (uint \<times> 'a kmem_st_scheme) result" where
  "allocuvm_loop pgdir oldsz newsz a s =
     (if a < newsz
      then let (m, s) = kalloc s
           in if m = 0 then rbind (deallocuvm pgdir newsz oldsz s) (\<lambda>(r, s). Ok (0, s))
              else rbind (mappages pgdir a PGSIZE (V2P m) (PTE_W OR PTE_U) (zero_page m s)) (\<lambda>(r, s).
                   if r < 0
                   then rbind (deallocuvm pgdir newsz oldsz s) (\<lambda>(r, s). rbind (kfree m s) (\<lambda>s. Ok (0, s)))
                   else if a < a + PGSIZE then allocuvm_loop pgdir oldsz newsz (a + PGSIZE) s else Diverges)
      else Ok (newsz, s))"
  by pat_completeness auto
termination
  by (relation "measure (\<lambda>(pgdir, oldsz, newsz, a, s). unat newsz - unat a)") (auto simp: word_less_nat_alt)

declare allocuvm_loop.simps [simp del]

definition allocuvm :: "uint \<Rightarrow> uint \<Rightarrow> uint \<Rightarrow> 'a kmem_st_scheme \<Rightarrow> (uint \<times> 'a kmem_st_scheme) result" where
  "allocuvm pgdir oldsz newsz s =
     (if newsz \<ge> KERNBASE then Ok (0, s)
      else if newsz < oldsz then Ok (oldsz, s)
      else allocuvm_loop pgdir oldsz newsz (PGROUNDUP oldsz) s)"

definition clearpteu :: "uint \<Rightarrow> uint \<Rightarrow> 'a kmem_st_scheme \<Rightarrow> 'a kmem_st_scheme result" where
  "clearpteu pgdir uva s =
     (let pte = fst (walkpgdir pgdir uva False s)
      in if pte = 0 then Panic ''clearpteu''
         else Ok (store32 pte (ld32 (mem s) pte AND NOT PTE_U) s))"

function copyuvm_loop :: "uint \<Rightarrow> uint \<Rightarrow> uint \<Rightarrow> uint \<Rightarrow> 'a kmem_st_scheme \<Rightarrow> (uint \<times> 'a kmem_st_scheme) result" where
  "copyuvm_loop pgdir d sz i s =
     (if i < sz
      then let pte = fst (walkpgdir pgdir i False s); e = ld32 (mem s) pte
           in if pte = 0 then Panic ''copyuvm: pte should exist''
              else if e AND PTE_P = 0 then Panic ''copyuvm: page not present''
              else let (m, s) = kalloc s
              in if m = 0 then rbind (freevm d s) (\<lambda>s. Ok (0, s))
                 else let s = s\<lparr>mem := memmove (mem s) m (P2V (PTE_ADDR e)) PGSIZE\<rparr>
                 in rbind (mappages d i PGSIZE (V2P m) (PTE_FLAGS e) s) (\<lambda>(r, s).
                    if r < 0 then rbind (kfree m s) (\<lambda>s. rbind (freevm d s) (\<lambda>s. Ok (0, s)))
                    else if i < i + PGSIZE then copyuvm_loop pgdir d sz (i + PGSIZE) s else Diverges)
      else Ok (d, s))"
  by pat_completeness auto
termination
  by (relation "measure (\<lambda>(pgdir, d, sz, i, s). unat sz - unat i)") (auto simp: word_less_nat_alt)

declare copyuvm_loop.simps [simp del]

definition copyuvm :: "uint \<Rightarrow> uint \<Rightarrow> 'a kmem_st_scheme \<Rightarrow> (uint \<times> 'a kmem_st_scheme) result" where
  "copyuvm pgdir sz s =
     rbind (setupkvm s) (\<lambda>(d, s). if d = 0 then Ok (0, s) else copyuvm_loop pgdir d sz 0 s)"

text \<open>
  \<^verbatim>\<open>uva2ka\<close> reads \<^verbatim>\<open>*pte\<close> also when \<^verbatim>\<open>walkpgdir\<close> returned a null pointer.  That reads address 0 through the
  current page table, which need not be \<open>pgdir\<close>: \<open>nul\<close> is the word a memory holds there, if the read does not fault.
\<close>

definition uva2ka :: "(memory \<Rightarrow> uint option) \<Rightarrow> uint \<Rightarrow> uint \<Rightarrow> 'a kmem_st_scheme \<Rightarrow> uint result" where
  "uva2ka nul pgdir uva s =
     (let pte = fst (walkpgdir pgdir uva False s)
      in case (if pte = 0 then nul (mem s) else Some (ld32 (mem s) pte)) of
           None \<Rightarrow> Panic ''trap''
         | Some e \<Rightarrow> Ok (if e AND PTE_P = 0 then 0 else if e AND PTE_U = 0 then 0 else P2V (PTE_ADDR e)))"

lemma page_rest_pos: "0 < unat (PGSIZE - (va - PGROUNDDOWN va))"
proof -
  have "va - PGROUNDDOWN va = va mod PGSIZE" by (simp add: PGROUNDDOWN_eq)
  moreover have "va mod PGSIZE < PGSIZE" by (rule word_mod_less_divisor) (simp add: PGSIZE_def)
  ultimately have "PGSIZE - (va - PGROUNDDOWN va) \<noteq> 0" by auto
  then show ?thesis by (simp add: unat_gt_0)
qed

function copyout :: "(memory \<Rightarrow> uint option) \<Rightarrow> uint \<Rightarrow> uint \<Rightarrow> uchar list \<Rightarrow> 'a kmem_st_scheme \<Rightarrow> (int \<times> 'a kmem_st_scheme) result" where
  "copyout nul pgdir va buf s =
     (if buf = [] then Ok (0, s)
      else let va0 = PGROUNDDOWN va
           in rbind (uva2ka nul pgdir va0 s) (\<lambda>pa0.
              if pa0 = 0 then Ok (-1, s)
              else let n = min (length buf) (unat (PGSIZE - (va - va0))); dst = pa0 + (va - va0);
                       s = s\<lparr>mem := \<lambda>a. if unat (a - dst) < n then buf ! unat (a - dst) else mem s a\<rparr>
                   in copyout nul pgdir (va0 + PGSIZE) (drop n buf) s))"
  by pat_completeness auto
termination by (relation "measure (\<lambda>(nul, pgdir, va, buf, s). length buf)") (auto simp: page_rest_pos)

declare copyout.simps [simp del]

end
