(* ===== verification/Kernel.thy ===== *)
theory Kernel
  imports File Vm
begin

text \<open>
  Processes with their memory and files: the part of \<^verbatim>\<open>proc.c\<close> above the file system and the page tables
  (\<^verbatim>\<open>userinit\<close>, \<^verbatim>\<open>growproc\<close>, \<^verbatim>\<open>fork\<close>, \<^verbatim>\<open>exit\<close>, \<^verbatim>\<open>wait\<close>, \<^verbatim>\<open>forkret\<close>, the scheduler's switches), and the functions of
  \<^verbatim>\<open>vm.c\<close> that load hardware registers.

  \<^item> \<open>kern_st\<close> is the state of the whole kernel.  It adds the clock, the kernel page table, the trap table,
    and for every CPU the registers and descriptor table entries the kernel sets: \<^verbatim>\<open>cr3\<close>, the task register,
    the descriptor table and the three fields of the task state segment that are used.  The
    addresses of the task state segments, the image of \<^verbatim>\<open>initcode\<close> and its address are fixed by the linker.
  \<^item> The kernel reads and writes user memory through the page table in \<^verbatim>\<open>cr3\<close>, with the write protection
    of supervisor accesses that \<^verbatim>\<open>entry.S\<close> switches on.  An access that faults in the kernel ends in
    the panic of \<^verbatim>\<open>trap\<close>, as does an access through a null pointer.
  \<^item> \<^verbatim>\<open>exit\<close> does not return: its result is the state in which the CPU is back in the scheduler.
\<close>

section \<open>State\<close>

record kern_st = file_st +
  ticks :: uint
  kpgdir :: uint
  idt :: "nat \<Rightarrow> gatedesc"
  first_ret :: bool
  kbd_shift :: uint
  cr3 :: "nat \<Rightarrow> uint"
  task_reg :: "nat \<Rightarrow> uint"
  gdt :: "nat \<Rightarrow> uint \<Rightarrow> segdesc"
  ts_ss0 :: "nat \<Rightarrow> ushort"
  ts_esp0 :: "nat \<Rightarrow> uint"
  ts_iomb :: "nat \<Rightarrow> ushort"
  ts_addr :: "nat \<Rightarrow> uint"
  initcode :: "uchar list"
  initcode_start :: uint

text \<open>The process on this CPU; code that dereferences \<^verbatim>\<open>myproc()\<close> faults when there is none.\<close>

definition curproc :: "'a proc_st_scheme \<Rightarrow> nat result" where
  "curproc s = (case myproc s of Some p \<Rightarrow> Ok p | None \<Rightarrow> Panic ''trap'')"

text \<open>A message of \<^verbatim>\<open>cprintf\<close>; \<open>strs\<close> gives the strings the pointer arguments of \<^verbatim>\<open>%s\<close> stand for.\<close>

definition kprintf :: "(uint \<Rightarrow> uchar list) \<Rightarrow> string \<Rightarrow> uint list \<Rightarrow> 'a fs_st_scheme \<Rightarrow> 'a fs_st_scheme result" where
  "kprintf strs fmt args s =
     rbind (cprintf strs (Some (ascii fmt)) (\<lambda>i. args ! i) (con s)) (\<lambda>k. Ok (s\<lparr>con := k\<rparr>))"

section \<open>User memory\<close>

text \<open>
  The address translation of the processor for the kernel's own accesses: both table entries must be
  present and, for a write, writable.  The result is the address in the kernel's linear map.
\<close>

definition translate :: "memory \<Rightarrow> uint \<Rightarrow> bool \<Rightarrow> uint \<Rightarrow> uint option" where
  "translate m pgdir write va =
     (let need = (if write then PTE_P OR PTE_W else PTE_P); pde = ld32 m (pgdir + 4 * PDX va)
      in if pde AND need \<noteq> need then None
         else let pte = ld32 m (P2V (PTE_ADDR pde) + 4 * PTX va)
              in if pte AND need \<noteq> need then None
                 else Some (P2V (PTE_ADDR pte) + va mod PGSIZE))"

definition user_dir :: "'a kern_st_scheme \<Rightarrow> uint" where
  "user_dir s = P2V (cr3 s (this_cpu s))"

primrec load_user :: "nat \<Rightarrow> uint \<Rightarrow> 'a kern_st_scheme \<Rightarrow> uchar list result" where
  "load_user 0 va s = Ok []"
| "load_user (Suc n) va s =
     (case translate (mem s) (user_dir s) False va of
        None \<Rightarrow> Panic ''trap''
      | Some a \<Rightarrow> rbind (load_user n (va + 1) s) (\<lambda>cs. Ok (mem s a # cs)))"

primrec store_user :: "uint \<Rightarrow> uchar list \<Rightarrow> 'a kern_st_scheme \<Rightarrow> 'a kern_st_scheme result" where
  "store_user va [] s = Ok s"
| "store_user va (c # cs) s =
     (case translate (mem s) (user_dir s) True va of
        None \<Rightarrow> Panic ''trap''
      | Some a \<Rightarrow> store_user (va + 1) cs (s\<lparr>mem := (mem s)(a := c)\<rparr>))"

section \<open>Hardware page table and segments\<close>

definition switchkvm :: "'a kern_st_scheme \<Rightarrow> 'a kern_st_scheme" where
  "switchkvm s = s\<lparr>cr3 := (cr3 s)(this_cpu s := V2P (kpgdir s))\<rparr>"

definition kvmalloc :: "'a kern_st_scheme \<Rightarrow> 'a kern_st_scheme result" where
  "kvmalloc s = rbind (setupkvm s) (\<lambda>(d, s). Ok (switchkvm (s\<lparr>kpgdir := d\<rparr>)))"

definition sizeof_taskstate :: uint where "sizeof_taskstate = 104"

definition switchuvm :: "nat option \<Rightarrow> 'a kern_st_scheme \<Rightarrow> 'a kern_st_scheme result" where
  "switchuvm op s =
     (case op of
        None \<Rightarrow> Panic ''switchuvm: no process''
      | Some p \<Rightarrow>
          let q = ptable s p; c = this_cpu s
          in if p_kstack q = 0 then Panic ''switchuvm: no kstack''
             else if p_pgdir q = 0 then Panic ''switchuvm: no pgdir''
             else Ok (s\<lparr>gdt := (gdt s)(c := (gdt s c)(SEG_TSS :=
                          (SEG16 STS_T32A (ts_addr s c) (sizeof_taskstate - 1) 0)\<lparr>sd_s := 0\<rparr>)),
                        ts_ss0 := (ts_ss0 s)(c := ucast (push_bit 3 SEG_KDATA)),
                        ts_esp0 := (ts_esp0 s)(c := p_kstack q + KSTACKSIZE),
                        ts_iomb := (ts_iomb s)(c := 0xFFFF),
                        task_reg := (task_reg s)(c := push_bit 3 SEG_TSS),
                        cr3 := (cr3 s)(c := V2P (p_pgdir q))\<rparr>))"

definition seginit :: "'a kern_st_scheme \<Rightarrow> 'a kern_st_scheme" where
  "seginit s =
     (let c = this_cpu s
      in s\<lparr>gdt := (gdt s)(c := (gdt s c)
             (SEG_KCODE := SEG (STA_X OR STA_R) 0 0xffffffff 0,
              SEG_KDATA := SEG STA_W 0 0xffffffff 0,
              SEG_UCODE := SEG (STA_X OR STA_R) 0 0xffffffff DPL_USER,
              SEG_UDATA := SEG STA_W 0 0xffffffff DPL_USER))\<rparr>)"

section \<open>The scheduler's switches\<close>

text \<open>
  The scheduler hands this CPU to process \<open>p\<close>, and takes it back when \<open>p\<close> switches to it.  The process found
  by \<^verbatim>\<open>scheduler_scan\<close> is run from its saved context.
\<close>

definition run_proc :: "nat \<Rightarrow> 'a kern_st_scheme \<Rightarrow> 'a kern_st_scheme result" where
  "run_proc p s =
     rbind (switchuvm (Some p) (s\<lparr>cpu_proc := (cpu_proc s)(this_cpu s := Some p)\<rparr>)) (\<lambda>s.
     Ok (upd_proc p (\<lambda>q. q\<lparr>p_state := RUNNING\<rparr>) s))"

definition back_to_scheduler :: "'a kern_st_scheme \<Rightarrow> 'a kern_st_scheme" where
  "back_to_scheduler s = switch_back (this_cpu s) (switchkvm s)"

definition yield :: "'a kern_st_scheme \<Rightarrow> 'a kern_st_scheme result" where
  "yield s = rbind (curproc s) (\<lambda>p. Ok (back_to_scheduler (yield_enter p s)))"

section \<open>Process life cycle\<close>

definition write_tf :: "nat \<Rightarrow> uint \<Rightarrow> uint \<Rightarrow> 'a proc_st_scheme \<Rightarrow> 'a proc_st_scheme" where
  "write_tf p field v s = s\<lparr>mem := st32 (mem s) (p_tf (ptable s p) + field) v\<rparr>"

definition write_tf16 :: "nat \<Rightarrow> uint \<Rightarrow> ushort \<Rightarrow> 'a proc_st_scheme \<Rightarrow> 'a proc_st_scheme" where
  "write_tf16 p field v s = s\<lparr>mem := st16 (mem s) (p_tf (ptable s p) + field) v\<rparr>"

definition read_tf :: "nat \<Rightarrow> uint \<Rightarrow> 'a proc_st_scheme \<Rightarrow> uint" where
  "read_tf p field s = ld32 (mem s) (p_tf (ptable s p) + field)"

definition user_sel :: "uint \<Rightarrow> ushort" where
  "user_sel seg = ucast (push_bit 3 seg OR DPL_USER)"

definition c_str :: "string \<Rightarrow> carray" where
  "c_str str = (\<lambda>i. if i < length str then ascii str ! i else 0)"

text \<open>The characters of a name of at most 16 bytes.\<close>

definition c_chars :: "carray \<Rightarrow> uchar list" where
  "c_chars name = takeWhile (\<lambda>c. c \<noteq> 0) (map name [0..<16])"

definition userinit :: "'a kern_st_scheme \<Rightarrow> 'a kern_st_scheme result" where
  "userinit s =
     (let (r, s) = allocproc s; s = s\<lparr>initproc := r\<rparr>
      in case r of
           None \<Rightarrow> Panic ''trap''
         | Some p \<Rightarrow>
             rbind (setupkvm s) (\<lambda>(d, s).
             if d = 0 then Panic ''userinit: out of memory?''
             else rbind (kprintf (\<lambda>_. []) (''%p %p'' @ [char_of (10::nat)]) [initcode_start s, of_nat (length (initcode s))]
                           (upd_proc p (\<lambda>q. q\<lparr>p_pgdir := d\<rparr>) s)) (\<lambda>s.
                  rbind (inituvm d (initcode s) s) (\<lambda>s.
                  let s = upd_proc p (\<lambda>q. q\<lparr>p_sz := PGSIZE\<rparr>) s;
                      s = s\<lparr>mem := memset (mem s) (p_tf (ptable s p)) 0 sizeof_trapframe\<rparr>;
                      s = write_tf16 p tf_cs (user_sel SEG_UCODE) s;
                      s = write_tf16 p tf_ds (user_sel SEG_UDATA) s;
                      s = write_tf16 p tf_es (user_sel SEG_UDATA) s;
                      s = write_tf16 p tf_ss (user_sel SEG_UDATA) s;
                      s = write_tf p tf_eflags FL_IF s;
                      s = write_tf p tf_esp PGSIZE s;
                      s = write_tf p tf_eip 0 s;
                      s = upd_proc p (\<lambda>q. q\<lparr>p_name := safestrcpy (p_name q) (c_str ''initcode'') 16\<rparr>) s
                  in rbind (namei [slash] s) (\<lambda>(ip, s).
                     Ok (upd_proc p (\<lambda>q. q\<lparr>p_cwd := ip, p_state := RUNNABLE\<rparr>) s))))))"

definition growproc :: "int \<Rightarrow> 'a kern_st_scheme \<Rightarrow> (int \<times> 'a kern_st_scheme) result" where
  "growproc n s =
     rbind (curproc s) (\<lambda>p.
     let q = ptable s p; sz = p_sz q
     in rbind (if n > 0 then allocuvm (p_pgdir q) sz (sz + word_of_int n) s
               else if n < 0 then deallocuvm (p_pgdir q) sz (sz + word_of_int n) s
               else Ok (sz, s)) (\<lambda>(sz, s).
        if n \<noteq> 0 \<and> sz = 0 then Ok (-1, s)
        else rbind (switchuvm (Some p) (upd_proc p (\<lambda>q. q\<lparr>p_sz := sz\<rparr>) s)) (\<lambda>s. Ok (0, s))))"

definition dup_ofile :: "nat \<Rightarrow> nat \<Rightarrow> nat \<Rightarrow> 'a kern_st_scheme \<Rightarrow> 'a kern_st_scheme result" where
  "dup_ofile cur np i s =
     (case p_ofile (ptable s cur) i of
        None \<Rightarrow> Ok s
      | Some f \<Rightarrow> rbind (filedup f s) (\<lambda>(f, s). Ok (upd_proc np (\<lambda>q. q\<lparr>p_ofile := (p_ofile q)(i := Some f)\<rparr>) s)))"

definition fork :: "'a kern_st_scheme \<Rightarrow> (int \<times> 'a kern_st_scheme) result" where
  "fork s =
     rbind (curproc s) (\<lambda>cur.
     case allocproc s of
       (None, s) \<Rightarrow> Ok (-1, s)
     | (Some np, s) \<Rightarrow>
         rbind (copyuvm (p_pgdir (ptable s cur)) (p_sz (ptable s cur)) s) (\<lambda>(d, s).
         let s = upd_proc np (\<lambda>q. q\<lparr>p_pgdir := d\<rparr>) s
         in if d = 0
            then rbind (kfree (p_kstack (ptable s np)) s) (\<lambda>s.
                 Ok (-1, upd_proc np (\<lambda>q. q\<lparr>p_kstack := 0, p_state := UNUSED\<rparr>) s))
            else let s = upd_proc np (\<lambda>q. q\<lparr>p_sz := p_sz (ptable s cur), p_parent := Some cur\<rparr>) s;
                     s = s\<lparr>mem := memmove (mem s) (p_tf (ptable s np)) (p_tf (ptable s cur)) sizeof_trapframe\<rparr>;
                     s = write_tf np tf_eax 0 s
                 in rbind (for_each (dup_ofile cur np) [0..<NOFILE] s) (\<lambda>s.
                    case p_cwd (ptable s cur) of
                      None \<Rightarrow> Panic ''trap''
                    | Some cwd \<Rightarrow>
                        let (ip, s) = idup cwd s;
                            s = upd_proc np (\<lambda>q. q\<lparr>p_cwd := Some ip,
                                  p_name := safestrcpy (p_name q) (p_name (ptable s cur)) 16\<rparr>) s;
                            pid = p_pid (ptable s np)
                        in Ok (pid, upd_proc np (\<lambda>q. q\<lparr>p_state := RUNNABLE\<rparr>) s))))"

definition close_ofile :: "nat \<Rightarrow> nat \<Rightarrow> 'a kern_st_scheme \<Rightarrow> 'a kern_st_scheme result" where
  "close_ofile cur fd s =
     (case p_ofile (ptable s cur) fd of
        None \<Rightarrow> Ok s
      | Some f \<Rightarrow> rbind (fileclose f s) (\<lambda>s. Ok (upd_proc cur (\<lambda>q. q\<lparr>p_ofile := (p_ofile q)(fd := None)\<rparr>) s)))"

definition wake_proc :: "nat option \<Rightarrow> 'a proc_st_scheme \<Rightarrow> 'a proc_st_scheme" where
  "wake_proc op s = (case op of Some p \<Rightarrow> wakeup1 (ChanProc p) s | None \<Rightarrow> s)"

definition reparent :: "nat \<Rightarrow> nat \<Rightarrow> 'a proc_st_scheme \<Rightarrow> 'a proc_st_scheme" where
  "reparent cur p s =
     (if p_parent (ptable s p) = Some cur
      then let s = upd_proc p (\<lambda>q. q\<lparr>p_parent := initproc s\<rparr>) s
           in if p_state (ptable s p) = ZOMBIE then wake_proc (initproc s) s else s
      else s)"

definition exit :: "'a kern_st_scheme \<Rightarrow> 'a kern_st_scheme result" where
  "exit s =
     rbind (curproc s) (\<lambda>cur.
     if initproc s = Some cur then Panic ''init exiting''
     else rbind (for_each (close_ofile cur) [0..<NOFILE] s) (\<lambda>s.
          rbind (begin_op s) (\<lambda>s.
          rbind (case p_cwd (ptable s cur) of None \<Rightarrow> Panic ''trap'' | Some ip \<Rightarrow> iput ip s) (\<lambda>s.
          rbind (end_op s) (\<lambda>s.
          let s = upd_proc cur (\<lambda>q. q\<lparr>p_cwd := None\<rparr>) s;
              s = wake_proc (p_parent (ptable s cur)) s;
              s = fold (reparent cur) [0..<NPROC] s;
              s = upd_proc cur (\<lambda>q. q\<lparr>p_state := ZOMBIE\<rparr>) s
          in Ok (back_to_scheduler s))))))"

definition wait :: "'a kern_st_scheme \<Rightarrow> (int \<times> 'a kern_st_scheme) result" where
  "wait s =
     rbind (curproc s) (\<lambda>cur.
     case find (\<lambda>i. p_parent (ptable s i) = Some cur \<and> p_state (ptable s i) = ZOMBIE) [0..<NPROC] of
       Some p \<Rightarrow>
         let pid = p_pid (ptable s p)
         in rbind (kfree (p_kstack (ptable s p)) s) (\<lambda>s.
            rbind (freevm (p_pgdir (ptable s p)) (upd_proc p (\<lambda>q. q\<lparr>p_kstack := 0\<rparr>) s)) (\<lambda>s.
            Ok (pid, upd_proc p (\<lambda>q. q\<lparr>p_pid := 0, p_parent := None, p_name := (p_name q)(0 := 0),
                                   p_killed := False, p_state := UNUSED\<rparr>) s)))
     | None \<Rightarrow>
         if (\<forall>i \<in> set [0..<NPROC]. p_parent (ptable s i) \<noteq> Some cur) \<or> p_killed (ptable s cur) then Ok (-1, s)
         else Sleeps (ChanProc cur))"

definition forkret_run :: "'a kern_st_scheme \<Rightarrow> 'a kern_st_scheme result" where
  "forkret_run s =
     (if first_ret s then rbind (iinit ROOTDEV (s\<lparr>first_ret := False\<rparr>)) (initlog ROOTDEV) else Ok s)"

end
