(* ===== verification/Syscall.thy ===== *)
theory Syscall
  imports Kernel
begin

text \<open>
  System call arguments (\<^verbatim>\<open>syscall.c\<close>) and the process system calls (\<^verbatim>\<open>sysproc.c\<close>).  A function that
  returns a pointer or value through a parameter and \<^verbatim>\<open>-1\<close> on failure returns an option here; a string
  argument is returned as its characters, which the kernel reads in place later.  The reads of user
  memory go through the page table.
\<close>

section \<open>Arguments\<close>

definition fetchint :: "uint \<Rightarrow> 'a kern_st_scheme \<Rightarrow> uint option result" where
  "fetchint addr s =
     rbind (curproc s) (\<lambda>p.
     let sz = p_sz (ptable s p)
     in if addr \<ge> sz \<or> addr + 4 > sz then Ok None
        else rbind (load_user 4 addr s) (\<lambda>bs. Ok (Some (ld32 (\<lambda>i. bs ! i) (0 :: nat)))))"

primrec fetchstr_loop :: "nat \<Rightarrow> uint \<Rightarrow> 'a kern_st_scheme \<Rightarrow> uchar list option result" where
  "fetchstr_loop 0 va s = Ok None"
| "fetchstr_loop (Suc n) va s =
     rbind (load_user 1 va s) (\<lambda>bs.
     if hd bs = 0 then Ok (Some [])
     else rbind (fetchstr_loop n (va + 1) s) (\<lambda>r. Ok (map_option (\<lambda>cs. hd bs # cs) r)))"

definition fetchstr :: "uint \<Rightarrow> 'a kern_st_scheme \<Rightarrow> uchar list option result" where
  "fetchstr addr s =
     rbind (curproc s) (\<lambda>p.
     let sz = p_sz (ptable s p)
     in if addr \<ge> sz then Ok None else fetchstr_loop (unat (sz - addr)) addr s)"

definition argint :: "nat \<Rightarrow> 'a kern_st_scheme \<Rightarrow> uint option result" where
  "argint n s = rbind (curproc s) (\<lambda>p. fetchint (read_tf p tf_esp s + 4 + 4 * of_nat n) s)"

text \<open>Continue with the argument, or with \<open>e\<close> when it is not acceptable.\<close>

definition with_arg :: "'x option result \<Rightarrow> 'y result \<Rightarrow> ('x \<Rightarrow> 'y result) \<Rightarrow> 'y result" where
  "with_arg m e f = rbind m (\<lambda>r. case r of None \<Rightarrow> e | Some x \<Rightarrow> f x)"

definition argptr :: "nat \<Rightarrow> int \<Rightarrow> 'a kern_st_scheme \<Rightarrow> uint option result" where
  "argptr n len s =
     rbind (curproc s) (\<lambda>p.
     with_arg (argint n s) (Ok None) (\<lambda>i.
     let sz = p_sz (ptable s p)
     in if len < 0 \<or> i \<ge> sz \<or> i + word_of_int len > sz then Ok None else Ok (Some i)))"

definition argstr :: "nat \<Rightarrow> 'a kern_st_scheme \<Rightarrow> uchar list option result" where
  "argstr n s = with_arg (argint n s) (Ok None) (\<lambda>addr. fetchstr addr s)"

section \<open>Process system calls\<close>

text \<open>The value of a system call; \<^verbatim>\<open>None\<close> when the caller has exited.\<close>

type_synonym 's sysret = "(int option \<times> 's) result"

definition returns :: "(int \<times> 's) result \<Rightarrow> 's sysret" where
  "returns r = rbind r (\<lambda>(v, s). Ok (Some v, s))"

definition sys_fork :: "'a kern_st_scheme \<Rightarrow> 'a kern_st_scheme sysret" where
  "sys_fork s = returns (fork s)"

definition sys_exit :: "'a kern_st_scheme \<Rightarrow> 'a kern_st_scheme sysret" where
  "sys_exit s = rbind (exit s) (\<lambda>s. Ok (None, s))"

definition sys_wait :: "'a kern_st_scheme \<Rightarrow> 'a kern_st_scheme sysret" where
  "sys_wait s = returns (wait s)"

definition sys_kill :: "'a kern_st_scheme \<Rightarrow> 'a kern_st_scheme sysret" where
  "sys_kill s = with_arg (argint 0 s) (Ok (Some (-1), s)) (\<lambda>pid. returns (Ok (kill (sint pid) s)))"

definition sys_getpid :: "'a kern_st_scheme \<Rightarrow> 'a kern_st_scheme sysret" where
  "sys_getpid s = rbind (curproc s) (\<lambda>p. Ok (Some (p_pid (ptable s p)), s))"

definition sys_sbrk :: "'a kern_st_scheme \<Rightarrow> 'a kern_st_scheme sysret" where
  "sys_sbrk s =
     with_arg (argint 0 s) (Ok (Some (-1), s)) (\<lambda>n.
     rbind (curproc s) (\<lambda>p.
     let addr = sint (p_sz (ptable s p))
     in rbind (growproc (sint n) s) (\<lambda>(r, s). Ok (Some (if r < 0 then -1 else addr), s))))"

text \<open>
  \<^verbatim>\<open>sys_sleep\<close> records the clock when it is called and waits while the difference, compared as unsigned
  numbers, is less than \<^verbatim>\<open>n\<close>; \<open>sleep_poll\<close> is one round of its loop.
\<close>

definition sleep_poll :: "uint \<Rightarrow> uint \<Rightarrow> 'a kern_st_scheme \<Rightarrow> 'a kern_st_scheme sysret" where
  "sleep_poll ticks0 n s =
     (if ticks s - ticks0 < n
      then rbind (curproc s) (\<lambda>p. if p_killed (ptable s p) then Ok (Some (-1), s) else Sleeps ChanTicks)
      else Ok (Some 0, s))"

definition sys_sleep :: "'a kern_st_scheme \<Rightarrow> 'a kern_st_scheme sysret" where
  "sys_sleep s = with_arg (argint 0 s) (Ok (Some (-1), s)) (\<lambda>n. sleep_poll (ticks s) n s)"

definition sys_uptime :: "'a kern_st_scheme \<Rightarrow> 'a kern_st_scheme sysret" where
  "sys_uptime s = Ok (Some (sint (ticks s)), s)"

end
