(* ===== verification/Exec.thy ===== *)
theory Exec
  imports Syscall
begin

text \<open>
  Loading a program: \<^verbatim>\<open>loaduvm\<close> of \<^verbatim>\<open>vm.c\<close>, the ELF headers of \<^verbatim>\<open>elf.h\<close> and \<^verbatim>\<open>exec.c\<close>.  A header is decoded from
  the bytes \<^verbatim>\<open>readi\<close> returns.  The argument strings are lists of characters; they stay in the old address
  space until the new one is switched to.
\<close>

section \<open>Program segments\<close>

function loaduvm_loop :: "uint \<Rightarrow> uint \<Rightarrow> nat \<Rightarrow> uint \<Rightarrow> uint \<Rightarrow> uint \<Rightarrow> 'a kern_st_scheme \<Rightarrow> (int \<times> 'a kern_st_scheme) result" where
  "loaduvm_loop pgdir addr ip offset sz i s =
     (if i < sz
      then let pte = fst (walkpgdir pgdir (addr + i) False s)
           in if pte = 0 then Panic ''loaduvm: address should exist''
              else let pa = PTE_ADDR (ld32 (mem s) pte); n = (if sz - i < PGSIZE then sz - i else PGSIZE)
              in rbind (readi ip (offset + i) n s) (\<lambda>((r, cs), s).
                 let dst = P2V pa;
                     s = s\<lparr>mem := \<lambda>a. if unat (a - dst) < length cs then cs ! unat (a - dst) else mem s a\<rparr>
                 in if word_of_int r \<noteq> n then Ok (-1, s)
                    else if i < i + PGSIZE then loaduvm_loop pgdir addr ip offset sz (i + PGSIZE) s else Diverges)
      else Ok (0, s))"
  by pat_completeness auto
termination
  by (relation "measure (\<lambda>(pgdir, addr, ip, offset, sz, i, s). unat sz - unat i)") (auto simp: word_less_nat_alt)

declare loaduvm_loop.simps [simp del]

definition loaduvm :: "uint \<Rightarrow> uint \<Rightarrow> nat \<Rightarrow> uint \<Rightarrow> uint \<Rightarrow> 'a kern_st_scheme \<Rightarrow> (int \<times> 'a kern_st_scheme) result" where
  "loaduvm pgdir addr ip offset sz s =
     (if addr mod PGSIZE \<noteq> 0 then Panic ''loaduvm: addr must be page aligned''
      else loaduvm_loop pgdir addr ip offset sz 0 s)"

section \<open>ELF headers\<close>

definition ELF_MAGIC :: uint where "ELF_MAGIC = 0x464C457F"
definition ELF_PROG_LOAD :: uint where "ELF_PROG_LOAD = 1"
definition sizeof_elfhdr :: nat where "sizeof_elfhdr = 52"
definition sizeof_proghdr :: nat where "sizeof_proghdr = 32"

record elfhdr =
  e_magic :: uint
  e_entry :: uint
  e_phoff :: uint
  e_phnum :: ushort

record proghdr =
  ph_type :: uint
  ph_off :: uint
  ph_vaddr :: uint
  ph_filesz :: uint
  ph_memsz :: uint

definition elfhdr_of :: "uchar list \<Rightarrow> elfhdr" where
  "elfhdr_of bs = (let v = (\<lambda>i. bs ! i) in
     \<lparr>e_magic = ld32 v (0::nat), e_entry = ld32 v 24, e_phoff = ld32 v 28, e_phnum = ld16 v 44\<rparr>)"

definition proghdr_of :: "uchar list \<Rightarrow> proghdr" where
  "proghdr_of bs = (let v = (\<lambda>i. bs ! i) in
     \<lparr>ph_type = ld32 v (0::nat), ph_off = ld32 v 4, ph_vaddr = ld32 v 8, ph_filesz = ld32 v 16, ph_memsz = ld32 v 20\<rparr>)"

text \<open>The loop over the program headers: the size reached, or \<^verbatim>\<open>None\<close> for \<^verbatim>\<open>goto bad\<close>.\<close>

primrec load_segments :: "nat \<Rightarrow> uint \<Rightarrow> uint \<Rightarrow> nat \<Rightarrow> uint \<Rightarrow> 'a kern_st_scheme \<Rightarrow> (uint option \<times> 'a kern_st_scheme) result" where
  "load_segments 0 off pgdir ip sz s = Ok (Some sz, s)"
| "load_segments (Suc k) off pgdir ip sz s =
     rbind (readi ip off (of_nat sizeof_proghdr) s) (\<lambda>((r, bs), s).
     if r \<noteq> int sizeof_proghdr then Ok (None, s)
     else let ph = proghdr_of bs; next = load_segments k (off + of_nat sizeof_proghdr) pgdir ip
          in if ph_type ph \<noteq> ELF_PROG_LOAD then next sz s
             else if ph_memsz ph < ph_filesz ph then Ok (None, s)
             else if ph_vaddr ph + ph_memsz ph < ph_vaddr ph then Ok (None, s)
             else rbind (allocuvm pgdir sz (ph_vaddr ph + ph_memsz ph) s) (\<lambda>(sz, s).
                  if sz = 0 then Ok (None, s)
                  else if ph_vaddr ph mod PGSIZE \<noteq> 0 then Ok (None, s)
                  else rbind (loaduvm pgdir (ph_vaddr ph) ip (ph_off ph) (ph_filesz ph) s) (\<lambda>(r, s).
                       if r < 0 then Ok (None, s) else next sz s)))"

section \<open>The argument stack\<close>

definition MAXARG :: nat where "MAXARG = 32"

text \<open>What the current address space holds at address 0, for the null pointer \<^verbatim>\<open>uva2ka\<close> may follow.\<close>

definition null_word :: "uint \<Rightarrow> memory \<Rightarrow> uint option" where
  "null_word dir m = map_option (ld32 m) (translate m dir False 0)"

text \<open>Pushes the strings from number \<open>argc\<close> on; the result is the stack pointer and the string addresses.\<close>

primrec push_args :: "uint \<Rightarrow> nat \<Rightarrow> uchar list list \<Rightarrow> uint \<Rightarrow> 'a kern_st_scheme \<Rightarrow> ((uint \<times> uint list) option \<times> 'a kern_st_scheme) result" where
  "push_args pgdir argc [] sp s = Ok (Some (sp, []), s)"
| "push_args pgdir argc (str # strs) sp s =
     (if argc \<ge> MAXARG then Ok (None, s)
      else let sp = (sp - (of_nat (length str) + 1)) AND NOT 3
           in rbind (copyout (null_word (user_dir s)) pgdir sp (str @ [0]) s) (\<lambda>(r, s).
              if r < 0 then Ok (None, s)
              else rbind (push_args pgdir (argc + 1) strs sp s) (\<lambda>(r, s).
                   Ok (map_option (\<lambda>(sp', us). (sp', sp # us)) r, s))))"

definition word_bytes :: "uint \<Rightarrow> uchar list" where
  "word_bytes w = map (\<lambda>k. byte_of k w) [0..<4]"

definition ustack_of :: "uint \<Rightarrow> uint list \<Rightarrow> uint list" where
  "ustack_of sp us = [0xffffffff, of_nat (length us), sp - (of_nat (length us) + 1) * 4] @ us @ [0]"

definition last_elem :: "uchar list \<Rightarrow> uchar list" where
  "last_elem path = rev (takeWhile (\<lambda>c. c \<noteq> slash) (rev path))"

section \<open>\<^verbatim>\<open>exec\<close>\<close>

definition exec_bad :: "uint \<Rightarrow> nat option \<Rightarrow> 'a kern_st_scheme \<Rightarrow> (int \<times> 'a kern_st_scheme) result" where
  "exec_bad pgdir ip s =
     rbind (if pgdir \<noteq> 0 then freevm pgdir s else Ok s) (\<lambda>s.
     rbind (case ip of Some ip \<Rightarrow> rbind (iunlockput ip s) end_op | None \<Rightarrow> Ok s) (\<lambda>s. Ok (-1, s)))"

text \<open>The stack, and the commitment to the new image, once the segments are loaded and the file is closed.\<close>

definition exec_commit :: "nat \<Rightarrow> uchar list \<Rightarrow> uint \<Rightarrow> uint \<Rightarrow> uint \<Rightarrow> uint \<Rightarrow> 'a kern_st_scheme \<Rightarrow> (int \<times> 'a kern_st_scheme) result" where
  "exec_commit p path pgdir sz sp entry s =
     (let s = upd_proc p (\<lambda>q. q\<lparr>p_name := safestrcpy (p_name q)
                (\<lambda>i. if i < length (last_elem path) then last_elem path ! i else 0) 16\<rparr>) s;
          old = p_pgdir (ptable s p);
          s = upd_proc p (\<lambda>q. q\<lparr>p_pgdir := pgdir, p_sz := sz\<rparr>) s;
          s = write_tf p tf_eip entry s;
          s = write_tf p tf_esp sp s
      in rbind (switchuvm (Some p) s) (\<lambda>s. rbind (freevm old s) (\<lambda>s. Ok (0, s))))"

definition exec_stack :: "nat \<Rightarrow> uchar list \<Rightarrow> uchar list list \<Rightarrow> uint \<Rightarrow> uint \<Rightarrow> uint \<Rightarrow> 'a kern_st_scheme \<Rightarrow> (int \<times> 'a kern_st_scheme) result" where
  "exec_stack p path argv pgdir sz entry s =
     rbind (allocuvm pgdir (PGROUNDUP sz) (PGROUNDUP sz + 2 * PGSIZE) s) (\<lambda>(sz, s).
     if sz = 0 then exec_bad pgdir None s
     else rbind (clearpteu pgdir (sz - 2 * PGSIZE) s) (\<lambda>s.
          rbind (push_args pgdir 0 argv sz s) (\<lambda>(r, s).
          case r of
            None \<Rightarrow> exec_bad pgdir None s
          | Some (sp, us) \<Rightarrow>
              let ustack = ustack_of sp us; sp' = sp - (3 + of_nat (length us) + 1) * 4
              in rbind (copyout (null_word (user_dir s)) pgdir sp' (concat (map word_bytes ustack)) s) (\<lambda>(r, s).
                 if r < 0 then exec_bad pgdir None s
                 else exec_commit p path pgdir sz sp' entry s))))"

definition exec :: "uchar list \<Rightarrow> uchar list list \<Rightarrow> 'a kern_st_scheme \<Rightarrow> (int \<times> 'a kern_st_scheme) result" where
  "exec path argv s =
     rbind (curproc s) (\<lambda>p.
     rbind (begin_op s) (\<lambda>s.
     rbind (namei path s) (\<lambda>(r, s).
     case r of
       None \<Rightarrow> rbind (end_op s) (\<lambda>s. rbind (kprintf (\<lambda>_. []) (''exec: fail'' @ [char_of (10::nat)]) [] s) (\<lambda>s. Ok (-1, s)))
     | Some ip \<Rightarrow>
         rbind (ilock ip s) (\<lambda>s.
         rbind (readi ip 0 (of_nat sizeof_elfhdr) s) (\<lambda>((r, bs), s).
         let elf = elfhdr_of bs
         in if r \<noteq> int sizeof_elfhdr \<or> e_magic elf \<noteq> ELF_MAGIC then exec_bad 0 (Some ip) s
            else rbind (setupkvm s) (\<lambda>(pgdir, s).
                 if pgdir = 0 then exec_bad 0 (Some ip) s
                 else rbind (load_segments (unat (e_phnum elf)) (e_phoff elf) pgdir ip 0 s) (\<lambda>(r, s).
                      case r of
                        None \<Rightarrow> exec_bad pgdir (Some ip) s
                      | Some sz \<Rightarrow>
                          rbind (iunlockput ip s) (\<lambda>s.
                          rbind (end_op s) (exec_stack p path argv pgdir sz (e_entry elf))))))))))"

end
