(* ===== verification/Sysfile.thy ===== *)
theory Sysfile
  imports Exec
begin

text \<open>
  The file system calls, \<^verbatim>\<open>sysfile.c\<close>.  Bytes are moved between files and user memory as a whole: the bytes
  of a \<^verbatim>\<open>write\<close> are loaded before the file is touched, those of a \<^verbatim>\<open>read\<close> are stored when it is done.  The
  argument checks have placed the buffer inside the process, where every page is mapped.
\<close>

section \<open>Descriptors\<close>

definition argfd :: "nat \<Rightarrow> 'a kern_st_scheme \<Rightarrow> (nat \<times> nat) option result" where
  "argfd n s =
     with_arg (argint n s) (Ok None) (\<lambda>v.
     rbind (curproc s) (\<lambda>p.
     let fd = sint v
     in if fd < 0 \<or> fd \<ge> int NOFILE then Ok None
        else Ok (map_option (\<lambda>f. (nat fd, f)) (p_ofile (ptable s p) (nat fd)))))"

definition fdalloc :: "nat \<Rightarrow> 'a kern_st_scheme \<Rightarrow> (int \<times> 'a kern_st_scheme) result" where
  "fdalloc f s =
     rbind (curproc s) (\<lambda>p.
     case find (\<lambda>fd. p_ofile (ptable s p) fd = None) [0..<NOFILE] of
       Some fd \<Rightarrow> Ok (int fd, upd_proc p (\<lambda>q. q\<lparr>p_ofile := (p_ofile q)(fd := Some f)\<rparr>) s)
     | None \<Rightarrow> Ok (-1, s))"

definition fail :: "'s \<Rightarrow> 's sysret" where
  "fail s = Ok (Some (-1), s)"

definition sys_dup :: "'a kern_st_scheme \<Rightarrow> 'a kern_st_scheme sysret" where
  "sys_dup s =
     with_arg (argfd 0 s) (fail s) (\<lambda>(_, f).
     rbind (fdalloc f s) (\<lambda>(fd, s).
     if fd < 0 then fail s else rbind (filedup f s) (\<lambda>(_, s). Ok (Some fd, s))))"

definition sys_read :: "'a kern_st_scheme \<Rightarrow> 'a kern_st_scheme sysret" where
  "sys_read s =
     with_arg (argfd 0 s) (fail s) (\<lambda>(_, f).
     with_arg (argint 2 s) (fail s) (\<lambda>n.
     with_arg (argptr 1 (sint n) s) (fail s) (\<lambda>p.
     rbind (fileread f (sint n) s) (\<lambda>((r, cs), s).
     rbind (store_user p cs s) (\<lambda>s. Ok (Some r, s))))))"

definition sys_write :: "'a kern_st_scheme \<Rightarrow> 'a kern_st_scheme sysret" where
  "sys_write s =
     with_arg (argfd 0 s) (fail s) (\<lambda>(_, f).
     with_arg (argint 2 s) (fail s) (\<lambda>n.
     with_arg (argptr 1 (sint n) s) (fail s) (\<lambda>p.
     rbind (load_user (unat n) p s) (\<lambda>cs. returns (filewrite f cs s)))))"

definition sys_close :: "'a kern_st_scheme \<Rightarrow> 'a kern_st_scheme sysret" where
  "sys_close s =
     with_arg (argfd 0 s) (fail s) (\<lambda>(fd, f).
     rbind (curproc s) (\<lambda>p.
     rbind (fileclose f (upd_proc p (\<lambda>q. q\<lparr>p_ofile := (p_ofile q)(fd := None)\<rparr>) s)) (\<lambda>s. Ok (Some 0, s))))"

text \<open>\<^verbatim>\<open>struct stat\<close> has 20 bytes; the padding behind the two \<^verbatim>\<open>short\<close> fields is not written.\<close>

definition sizeof_stat :: int where "sizeof_stat = 20"

definition half_bytes :: "ushort \<Rightarrow> uchar list" where
  "half_bytes w = [ucast w, ucast (drop_bit 8 w)]"

definition store_stat :: "uint \<Rightarrow> stat \<Rightarrow> 'a kern_st_scheme \<Rightarrow> 'a kern_st_scheme result" where
  "store_stat a st s =
     rbind (store_user (a + 4) (word_bytes (st_dev st) @ word_bytes (st_ino st)) s) (\<lambda>s.
     rbind (store_user a (half_bytes (st_type st)) s) (\<lambda>s.
     rbind (store_user (a + 12) (half_bytes (st_nlink st)) s) (\<lambda>s.
     store_user (a + 16) (word_bytes (st_size st)) s)))"

definition sys_fstat :: "'a kern_st_scheme \<Rightarrow> 'a kern_st_scheme sysret" where
  "sys_fstat s =
     with_arg (argfd 0 s) (fail s) (\<lambda>(_, f).
     with_arg (argptr 1 sizeof_stat s) (fail s) (\<lambda>a.
     rbind (filestat f s) (\<lambda>(r, s).
     case r of None \<Rightarrow> fail s | Some st \<Rightarrow> rbind (store_stat a st s) (\<lambda>s. Ok (Some 0, s)))))"

section \<open>Links\<close>

text \<open>The failure exits: end the transaction and return \<^verbatim>\<open>-1\<close>.\<close>

definition end_fail :: "'a kern_st_scheme \<Rightarrow> 'a kern_st_scheme sysret" where
  "end_fail s = rbind (end_op s) fail"

definition put_fail :: "nat \<Rightarrow> 'a kern_st_scheme \<Rightarrow> 'a kern_st_scheme sysret" where
  "put_fail ip s = rbind (iunlockput ip s) end_fail"

definition link_bad :: "nat \<Rightarrow> 'a kern_st_scheme \<Rightarrow> 'a kern_st_scheme sysret" where
  "link_bad ip s =
     rbind (ilock ip s) (\<lambda>s.
     rbind (iupdate ip (upd_dinode ip (\<lambda>d. d\<lparr>d_nlink := d_nlink d - 1\<rparr>) s)) (put_fail ip))"

definition sys_link :: "'a kern_st_scheme \<Rightarrow> 'a kern_st_scheme sysret" where
  "sys_link s =
     with_arg (argstr 0 s) (fail s) (\<lambda>old.
     with_arg (argstr 1 s) (fail s) (\<lambda>new.
     rbind (begin_op s) (\<lambda>s.
     rbind (namei old s) (\<lambda>(r, s).
     case r of
       None \<Rightarrow> end_fail s
     | Some ip \<Rightarrow>
         rbind (ilock ip s) (\<lambda>s.
         if d_type (i_d (icache s ip)) = T_DIR then put_fail ip s
         else rbind (iupdate ip (upd_dinode ip (\<lambda>d. d\<lparr>d_nlink := d_nlink d + 1\<rparr>) s)) (\<lambda>s.
              rbind (iunlock ip s) (\<lambda>s.
              rbind (nameiparent new (\<lambda>_. 0) s) (\<lambda>(r, s).
              case r of
                None \<Rightarrow> link_bad ip s
              | Some (dp, name) \<Rightarrow>
                  rbind (ilock dp s) (\<lambda>s.
                  rbind (if i_dev (icache s dp) \<noteq> i_dev (icache s ip) then Ok (-1, s)
                         else dirlink dp name (i_inum (icache s ip)) s) (\<lambda>(r, s).
                  rbind (iunlockput dp s) (\<lambda>s.
                  if r < 0 then link_bad ip s
                  else rbind (iput ip s) (\<lambda>s. rbind (end_op s) (\<lambda>s. Ok (Some 0, s))))))))))))))"

primrec isdirempty_scan :: "nat \<Rightarrow> uint list \<Rightarrow> 'a fs_st_scheme \<Rightarrow> (bool \<times> 'a fs_st_scheme) result" where
  "isdirempty_scan dp [] s = Ok (True, s)"
| "isdirempty_scan dp (off # offs) s =
     rbind (readi dp off (of_nat sizeof_dirent) s) (\<lambda>((r, de), s).
     if r \<noteq> int sizeof_dirent then Panic ''isdirempty: readi''
     else if de_inum de \<noteq> 0 then Ok (False, s) else isdirempty_scan dp offs s)"

definition isdirempty :: "nat \<Rightarrow> 'a fs_st_scheme \<Rightarrow> (bool \<times> 'a fs_st_scheme) result" where
  "isdirempty dp s = isdirempty_scan dp (drop 2 (dir_offsets (d_size (i_d (icache s dp))))) s"

text \<open>The second half of \<^verbatim>\<open>sys_unlink\<close>, with both inodes locked: remove the entry at \<open>off\<close> and drop the link.\<close>

definition unlink_entry :: "nat \<Rightarrow> nat \<Rightarrow> uint \<Rightarrow> 'a kern_st_scheme \<Rightarrow> 'a kern_st_scheme sysret" where
  "unlink_entry dp ip off s =
     rbind (writei dp (replicate sizeof_dirent 0) off s) (\<lambda>(r, s).
     if r \<noteq> int sizeof_dirent then Panic ''unlink: writei''
     else rbind (if d_type (i_d (icache s ip)) = T_DIR
                 then iupdate dp (upd_dinode dp (\<lambda>d. d\<lparr>d_nlink := d_nlink d - 1\<rparr>) s) else Ok s) (\<lambda>s.
          rbind (iunlockput dp s) (\<lambda>s.
          rbind (iupdate ip (upd_dinode ip (\<lambda>d. d\<lparr>d_nlink := d_nlink d - 1\<rparr>) s)) (\<lambda>s.
          rbind (iunlockput ip s) (\<lambda>s.
          rbind (end_op s) (\<lambda>s. Ok (Some 0, s)))))))"

definition sys_unlink :: "'a kern_st_scheme \<Rightarrow> 'a kern_st_scheme sysret" where
  "sys_unlink s =
     with_arg (argstr 0 s) (fail s) (\<lambda>path.
     rbind (begin_op s) (\<lambda>s.
     rbind (nameiparent path (\<lambda>_. 0) s) (\<lambda>(r, s).
     case r of
       None \<Rightarrow> end_fail s
     | Some (dp, name) \<Rightarrow>
         rbind (ilock dp s) (\<lambda>s.
         if namecmp name (c_str ''.'') = 0 \<or> namecmp name (c_str ''..'') = 0 then put_fail dp s
         else rbind (dirlookup dp name s) (\<lambda>(r, s).
              case r of
                None \<Rightarrow> put_fail dp s
              | Some (ip, off) \<Rightarrow>
                  rbind (ilock ip s) (\<lambda>s.
                  if sint (d_nlink (i_d (icache s ip))) < 1 then Panic ''unlink: nlink < 1''
                  else rbind (if d_type (i_d (icache s ip)) = T_DIR then isdirempty ip s else Ok (True, s)) (\<lambda>(e, s).
                       if \<not> e then rbind (iunlockput ip s) (put_fail dp)
                       else unlink_entry dp ip off s)))))))"

section \<open>Creating and opening\<close>

text \<open>\<^verbatim>\<open>create\<close> returns the new or existing inode, locked.\<close>

definition create_new :: "nat \<Rightarrow> carray \<Rightarrow> ushort \<Rightarrow> ushort \<Rightarrow> ushort \<Rightarrow> 'a kern_st_scheme \<Rightarrow> (nat option \<times> 'a kern_st_scheme) result" where
  "create_new dp name type major minor s =
     rbind (ialloc (i_dev (icache s dp)) type s) (\<lambda>(ip, s).
     rbind (ilock ip s) (\<lambda>s.
     rbind (iupdate ip (upd_dinode ip (\<lambda>d. d\<lparr>d_major := major, d_minor := minor, d_nlink := 1\<rparr>) s)) (\<lambda>s.
     rbind (if type = T_DIR
            then rbind (iupdate dp (upd_dinode dp (\<lambda>d. d\<lparr>d_nlink := d_nlink d + 1\<rparr>) s)) (\<lambda>s.
                 rbind (dirlink ip (c_str ''.'') (i_inum (icache s ip)) s) (\<lambda>(r, s).
                 if r < 0 then Panic ''create dots''
                 else rbind (dirlink ip (c_str ''..'') (i_inum (icache s dp)) s) (\<lambda>(r, s).
                      if r < 0 then Panic ''create dots'' else Ok s)))
            else Ok s) (\<lambda>s.
     rbind (dirlink dp name (i_inum (icache s ip)) s) (\<lambda>(r, s).
     if r < 0 then Panic ''create: dirlink''
     else rbind (iunlockput dp s) (\<lambda>s. Ok (Some ip, s)))))))"

definition create :: "uchar list \<Rightarrow> ushort \<Rightarrow> ushort \<Rightarrow> ushort \<Rightarrow> 'a kern_st_scheme \<Rightarrow> (nat option \<times> 'a kern_st_scheme) result" where
  "create path type major minor s =
     rbind (nameiparent path (\<lambda>_. 0) s) (\<lambda>(r, s).
     case r of
       None \<Rightarrow> Ok (None, s)
     | Some (dp, name) \<Rightarrow>
         rbind (ilock dp s) (\<lambda>s.
         rbind (dirlookup dp name s) (\<lambda>(r, s).
         case r of
           Some (ip, off) \<Rightarrow>
             rbind (iunlockput dp s) (\<lambda>s.
             rbind (ilock ip s) (\<lambda>s.
             if type = T_FILE \<and> d_type (i_d (icache s ip)) = T_FILE then Ok (Some ip, s)
             else rbind (iunlockput ip s) (\<lambda>s. Ok (None, s))))
         | None \<Rightarrow> create_new dp name type major minor s)))"

definition O_RDONLY :: uint where "O_RDONLY = 0x000"
definition O_WRONLY :: uint where "O_WRONLY = 0x001"
definition O_RDWR :: uint where "O_RDWR = 0x002"
definition O_CREATE :: uint where "O_CREATE = 0x200"

text \<open>The file and descriptor for the locked inode \<open>ip\<close>.\<close>

definition open_fd :: "nat \<Rightarrow> uint \<Rightarrow> 'a kern_st_scheme \<Rightarrow> 'a kern_st_scheme sysret" where
  "open_fd ip omode s =
     (case filealloc s of
        (None, s) \<Rightarrow> put_fail ip s
      | (Some f, s) \<Rightarrow>
          rbind (fdalloc f s) (\<lambda>(fd, s).
          if fd < 0 then rbind (fileclose f s) (put_fail ip)
          else rbind (iunlock ip s) (\<lambda>s.
               rbind (end_op s) (\<lambda>s.
               Ok (Some fd, upd_file f (\<lambda>x. x\<lparr>f_type := FD_INODE, f_ip := ip, f_off := 0,
                     f_readable := (omode AND O_WRONLY = 0),
                     f_writable := (omode AND O_WRONLY \<noteq> 0 \<or> omode AND O_RDWR \<noteq> 0)\<rparr>) s)))))"

definition sys_open :: "'a kern_st_scheme \<Rightarrow> 'a kern_st_scheme sysret" where
  "sys_open s =
     with_arg (argstr 0 s) (fail s) (\<lambda>path.
     with_arg (argint 1 s) (fail s) (\<lambda>omode.
     rbind (begin_op s) (\<lambda>s.
     if omode AND O_CREATE \<noteq> 0
     then rbind (create path T_FILE 0 0 s) (\<lambda>(r, s).
          case r of None \<Rightarrow> end_fail s | Some ip \<Rightarrow> open_fd ip omode s)
     else rbind (namei path s) (\<lambda>(r, s).
          case r of
            None \<Rightarrow> end_fail s
          | Some ip \<Rightarrow>
              rbind (ilock ip s) (\<lambda>s.
              if d_type (i_d (icache s ip)) = T_DIR \<and> omode \<noteq> O_RDONLY then put_fail ip s
              else open_fd ip omode s)))))"

definition put_ok :: "nat \<Rightarrow> 'a kern_st_scheme \<Rightarrow> 'a kern_st_scheme sysret" where
  "put_ok ip s = rbind (iunlockput ip s) (\<lambda>s. rbind (end_op s) (\<lambda>s. Ok (Some 0, s)))"

definition sys_mkdir :: "'a kern_st_scheme \<Rightarrow> 'a kern_st_scheme sysret" where
  "sys_mkdir s =
     rbind (begin_op s) (\<lambda>s.
     with_arg (argstr 0 s) (end_fail s) (\<lambda>path.
     rbind (create path T_DIR 0 0 s) (\<lambda>(r, s).
     case r of None \<Rightarrow> end_fail s | Some ip \<Rightarrow> put_ok ip s)))"

definition sys_mknod :: "'a kern_st_scheme \<Rightarrow> 'a kern_st_scheme sysret" where
  "sys_mknod s =
     rbind (begin_op s) (\<lambda>s.
     with_arg (argstr 0 s) (end_fail s) (\<lambda>path.
     with_arg (argint 1 s) (end_fail s) (\<lambda>major.
     with_arg (argint 2 s) (end_fail s) (\<lambda>minor.
     rbind (create path T_DEV (ucast major) (ucast minor) s) (\<lambda>(r, s).
     case r of None \<Rightarrow> end_fail s | Some ip \<Rightarrow> put_ok ip s)))))"

definition sys_chdir :: "'a kern_st_scheme \<Rightarrow> 'a kern_st_scheme sysret" where
  "sys_chdir s =
     rbind (curproc s) (\<lambda>p.
     rbind (begin_op s) (\<lambda>s.
     with_arg (argstr 0 s) (end_fail s) (\<lambda>path.
     rbind (namei path s) (\<lambda>(r, s).
     case r of
       None \<Rightarrow> end_fail s
     | Some ip \<Rightarrow>
         rbind (ilock ip s) (\<lambda>s.
         if d_type (i_d (icache s ip)) \<noteq> T_DIR then put_fail ip s
         else rbind (iunlock ip s) (\<lambda>s.
              rbind (case p_cwd (ptable s p) of None \<Rightarrow> Panic ''trap'' | Some cwd \<Rightarrow> iput cwd s) (\<lambda>s.
              rbind (end_op s) (\<lambda>s.
              Ok (Some 0, upd_proc p (\<lambda>q. q\<lparr>p_cwd := Some ip\<rparr>) s)))))))))"

section \<open>\<^verbatim>\<open>exec\<close>, pipes and swap\<close>

text \<open>The loop that fetches the argument strings: \<open>k\<close> entries of \<^verbatim>\<open>argv\<close> are left.\<close>

primrec fetch_argv :: "nat \<Rightarrow> uint \<Rightarrow> 'a kern_st_scheme \<Rightarrow> uchar list list option result" where
  "fetch_argv 0 uargv s = Ok None"
| "fetch_argv (Suc k) uargv s =
     with_arg (fetchint uargv s) (Ok None) (\<lambda>uarg.
     if uarg = 0 then Ok (Some [])
     else with_arg (fetchstr uarg s) (Ok None) (\<lambda>str.
          rbind (fetch_argv k (uargv + 4) s) (\<lambda>r. Ok (map_option (\<lambda>strs. str # strs) r))))"

definition sys_exec :: "'a kern_st_scheme \<Rightarrow> 'a kern_st_scheme sysret" where
  "sys_exec s =
     with_arg (argstr 0 s) (fail s) (\<lambda>path.
     with_arg (argint 1 s) (fail s) (\<lambda>uargv.
     with_arg (fetch_argv MAXARG uargv s) (fail s) (\<lambda>argv.
     returns (exec path argv s))))"

definition sys_pipe :: "'a kern_st_scheme \<Rightarrow> 'a kern_st_scheme sysret" where
  "sys_pipe s =
     with_arg (argptr 0 8 s) (fail s) (\<lambda>a.
     rbind (pipealloc s) (\<lambda>(r, s).
     case r of
       None \<Rightarrow> fail s
     | Some (rfile, wfile) \<Rightarrow>
         rbind (curproc s) (\<lambda>p.
         rbind (fdalloc rfile s) (\<lambda>(fd0, s).
         rbind (if fd0 < 0 then Ok (-1, s) else fdalloc wfile s) (\<lambda>(fd1, s).
         if fd0 < 0 \<or> fd1 < 0
         then let s = (if fd0 \<ge> 0 then upd_proc p (\<lambda>q. q\<lparr>p_ofile := (p_ofile q)(nat fd0 := None)\<rparr>) s else s)
              in rbind (fileclose rfile s) (\<lambda>s. rbind (fileclose wfile s) fail)
         else rbind (store_user a (word_bytes (word_of_int fd0) @ word_bytes (word_of_int fd1)) s) (\<lambda>s. Ok (Some 0, s)))))))"

definition sys_swapread :: "'a kern_st_scheme \<Rightarrow> 'a kern_st_scheme sysret" where
  "sys_swapread s =
     with_arg (argptr 0 (uint PGSIZE) s) (fail s) (\<lambda>ptr.
     with_arg (argint 1 s) (fail s) (\<lambda>blkno.
     rbind (swapread (sint blkno) s) (\<lambda>(cs, s).
     rbind (store_user ptr cs s) (\<lambda>s. Ok (Some 0, s)))))"

definition sys_swapwrite :: "'a kern_st_scheme \<Rightarrow> 'a kern_st_scheme sysret" where
  "sys_swapwrite s =
     with_arg (argptr 0 (uint PGSIZE) s) (fail s) (\<lambda>ptr.
     with_arg (argint 1 s) (fail s) (\<lambda>blkno.
     rbind (load_user (unat PGSIZE) ptr s) (\<lambda>cs.
     rbind (swapwrite cs (sint blkno) s) (\<lambda>s. Ok (Some 0, s)))))"

section \<open>Dispatch\<close>

definition syscalls :: "int \<Rightarrow> ('a kern_st_scheme \<Rightarrow> 'a kern_st_scheme sysret) option" where
  "syscalls num =
     map_of [(1, sys_fork), (2, sys_exit), (3, sys_wait), (4, sys_pipe), (5, sys_read), (6, sys_kill), (7, sys_exec),
       (8, sys_fstat), (9, sys_chdir), (10, sys_dup), (11, sys_getpid), (12, sys_sbrk), (13, sys_sleep), (14, sys_uptime),
       (15, sys_open), (16, sys_write), (17, sys_mknod), (18, sys_unlink), (19, sys_link), (20, sys_mkdir),
       (21, sys_close), (22, sys_swapread), (23, sys_swapwrite)] num"

text \<open>The result is whether the process goes on.\<close>

definition syscall :: "'a kern_st_scheme \<Rightarrow> (bool \<times> 'a kern_st_scheme) result" where
  "syscall s =
     rbind (curproc s) (\<lambda>p.
     let num = sint (read_tf p tf_eax s)
     in case syscalls num of
          Some f \<Rightarrow>
            rbind (f s) (\<lambda>(r, s).
            case r of
              None \<Rightarrow> Ok (False, s)
            | Some v \<Rightarrow> Ok (True, write_tf p tf_eax (word_of_int v) s))
        | None \<Rightarrow>
            rbind (kprintf (\<lambda>_. c_chars (p_name (ptable s p))) (''%d %s: unknown sys call %d'' @ [char_of (10::nat)])
                     [word_of_int (p_pid (ptable s p)), 1, word_of_int num] s) (\<lambda>s.
            Ok (True, write_tf p tf_eax (-1) s)))"

end
