(* ===== verification/Kbd.thy ===== *)
theory Kbd
  imports Console
begin

text \<open>
  The keyboard driver of \<^verbatim>\<open>kbd.c\<close> with the scan code tables of \<^verbatim>\<open>kbd.h\<close>.  \<^verbatim>\<open>kbdgetc\<close> is a state machine
  over the modifier word \<^verbatim>\<open>shift\<close>; the status and data registers of the controller are arguments.
\<close>

definition SHIFT :: uint where "SHIFT = push_bit 0 1"
definition CTL :: uint where "CTL = push_bit 1 1"
definition ALT :: uint where "ALT = push_bit 2 1"
definition CAPSLOCK :: uint where "CAPSLOCK = push_bit 3 1"
definition NUMLOCK :: uint where "NUMLOCK = push_bit 4 1"
definition SCROLLLOCK :: uint where "SCROLLLOCK = push_bit 5 1"
definition E0ESC :: uint where "E0ESC = push_bit 6 1"

definition shiftcode :: "nat \<Rightarrow> uint" where
  "shiftcode = (\<lambda>_. 0)(0x1D := CTL, 0x2A := SHIFT, 0x36 := SHIFT, 0x38 := ALT, 0x9D := CTL, 0xB8 := ALT)"

definition togglecode :: "nat \<Rightarrow> uint" where
  "togglecode = (\<lambda>_. 0)(0x3A := CAPSLOCK, 0x45 := NUMLOCK, 0x46 := SCROLLLOCK)"

text \<open>An array initialiser: positional elements, then designated ones; the rest is zero.\<close>

definition table :: "int list \<Rightarrow> (nat \<times> int) list \<Rightarrow> nat \<Rightarrow> int" where
  "table xs ds i = (case map_of ds i of Some v \<Rightarrow> v | None \<Rightarrow> if i < length xs then xs ! i else 0)"

definition chr :: "char \<Rightarrow> int" where "chr c = of_char c"

definition keypad :: "(nat \<times> int) list" where
  "keypad = [(0xC8, 0xE2), (0xD0, 0xE3), (0xC9, 0xE6), (0xD1, 0xE7), (0xCB, 0xE4), (0xCD, 0xE5),
     (0x97, 0xE0), (0xCF, 0xE1), (0xD2, 0xE8), (0xD3, 0xE9)]"

definition normalmap :: "nat \<Rightarrow> int" where
  "normalmap = table
     ([0, 0x1B] @ map chr ''1234567890-='' @ [8, 9] @ map chr ''qwertyuiop[]'' @ [10, 0] @ map chr ''asdfghjkl;'' @
      [39, 96, 0, 92] @ map chr ''zxcvbnm,./'' @ [0, 42, 0, 32, 0, 0, 0, 0, 0, 0, 0, 0, 0, 0, 0, 0, 0] @
      map chr ''789-456+1230.'' @ [0, 0, 0, 0])
     ([(0x9C, 10), (0xB5, 47)] @ keypad)"

definition shiftmap :: "nat \<Rightarrow> int" where
  "shiftmap = table
     ([0, 0x1B] @ map chr ''!@#$%^&*()_+'' @ [8, 9] @ map chr ''QWERTYUIOP{}'' @ [10, 0] @ map chr ''ASDFGHJKL:'' @
      [34, 126, 0, 124] @ map chr ''ZXCVBNM<>?'' @ [0, 42, 0, 32, 0, 0, 0, 0, 0, 0, 0, 0, 0, 0, 0, 0, 0] @
      map chr ''789-456+1230.'' @ [0, 0, 0, 0])
     ([(0x9C, 10), (0xB5, 47)] @ keypad)"

definition ctlmap :: "nat \<Rightarrow> int" where
  "ctlmap = table
     (replicate 16 0 @ map ctrl ''QWERTYUIOP'' @ [0, 0, 13, 0] @ map ctrl ''ASDFGHJKL'' @ [0, 0, 0, 0, 28] @
      map ctrl ''ZXCVBNM'' @ [0, 0, chr CHR ''/'' - 64, 0, 0])
     ([(0x9C, 13), (0xB5, chr CHR ''/'' - 64)] @ keypad)"

definition charcode :: "uint \<Rightarrow> nat \<Rightarrow> int" where
  "charcode i = (if i = 0 then normalmap else if i = 1 then shiftmap else ctlmap)"

text \<open>The tables have type \<^verbatim>\<open>uchar\<close>: an entry is read back modulo 256.\<close>

definition kbdgetc :: "uchar \<Rightarrow> uchar \<Rightarrow> uint \<Rightarrow> int \<times> uint" where
  "kbdgetc st d shift =
     (if st AND 1 = 0 then (-1, shift)
      else let data = (ucast d :: uint)
      in if data = 0xE0 then (0, shift OR E0ESC)
         else if data AND 0x80 \<noteq> 0
         then let data = (if shift AND E0ESC \<noteq> 0 then data else data AND 0x7F)
              in (0, shift AND NOT (shiftcode (unat data) OR E0ESC))
         else let (data, shift) = (if shift AND E0ESC \<noteq> 0 then (data OR 0x80, shift AND NOT E0ESC) else (data, shift));
                  shift = (shift OR shiftcode (unat data)) XOR togglecode (unat data);
                  c = charcode (shift AND (CTL OR SHIFT)) (unat data) mod 256
              in (if shift AND CAPSLOCK \<noteq> 0
                  then if 97 \<le> c \<and> c \<le> 122 then c - 32 else if 65 \<le> c \<and> c \<le> 90 then c + 32 else c
                  else c, shift))"

end
