(* ===== verification/Mp.thy ===== *)
theory Mp
  imports Proc
begin

text \<open>
  Multiprocessor configuration and interrupt controllers: \<^verbatim>\<open>mp.c\<close>, \<^verbatim>\<open>mp.h\<close>, \<^verbatim>\<open>ioapic.c\<close>, \<^verbatim>\<open>picirq.c\<close>, \<^verbatim>\<open>lapic.c\<close>, and
  \<^verbatim>\<open>mycpu\<close> and \<^verbatim>\<open>cpuid\<close> of \<^verbatim>\<open>proc.c\<close>, which use the table \<^verbatim>\<open>mpinit\<close> fills.

  \<^item> The tables of the firmware are read from memory; they are untrusted input.
  \<^item> Of the controllers the model keeps what software writes: the redirection table of the I/O APIC, and the
    sequence of local APIC registers written.  What is read from them is an argument.  The wait for
    delivery of an interrupt message is not modelled: it ends when the hardware has delivered it.
\<close>

section \<open>Multiprocessor tables\<close>

record mpinfo =
  ncpu :: nat
  apicid :: "nat \<Rightarrow> uchar"
  ioapicid :: uchar
  lapic :: uint

definition sizeof_mp :: nat where "sizeof_mp = 16"
definition sizeof_mpconf :: uint where "sizeof_mpconf = 44"
definition sizeof_mpproc :: uint where "sizeof_mpproc = 20"
definition sizeof_mpioapic :: uint where "sizeof_mpioapic = 8"
definition MPPROC :: uchar where "MPPROC = 0"
definition MPBUS :: uchar where "MPBUS = 1"
definition MPIOAPIC :: uchar where "MPIOAPIC = 2"
definition MPIOINTR :: uchar where "MPIOINTR = 3"
definition MPLINTR :: uchar where "MPLINTR = 4"

definition mp_sum :: "memory \<Rightarrow> uint \<Rightarrow> nat \<Rightarrow> uchar" where
  "mp_sum m a len = word_of_int (\<Sum>i\<leftarrow>[0..<len]. uint (m (a + of_nat i)))"

definition signature_at :: "memory \<Rightarrow> uint \<Rightarrow> uchar list \<Rightarrow> bool" where
  "signature_at m a cs \<longleftrightarrow> (\<forall>i \<in> set [0..<length cs]. m (a + of_nat i) = cs ! i)"

definition mpsearch1 :: "memory \<Rightarrow> uint \<Rightarrow> nat \<Rightarrow> uint option" where
  "mpsearch1 m a len =
     find (\<lambda>p. signature_at m p [0x5F, 0x4D, 0x50, 0x5F] \<and> mp_sum m p sizeof_mp = 0)
       (map (\<lambda>k. P2V a + of_nat (k * sizeof_mp)) [0..<(len + sizeof_mp - 1) div sizeof_mp])"

definition mpsearch :: "memory \<Rightarrow> uint option" where
  "mpsearch m =
     (let bda = P2V 0x400;
          p = push_bit 4 (push_bit 8 (ucast (m (bda + 0x0F))) OR ucast (m (bda + 0x0E))) :: uint;
          q = (push_bit 8 (ucast (m (bda + 0x14))) OR ucast (m (bda + 0x13))) * 1024 :: uint
      in case (if p \<noteq> 0 then mpsearch1 m p 1024 else mpsearch1 m (q - 1024) 1024) of
           Some mp \<Rightarrow> Some mp
         | None \<Rightarrow> mpsearch1 m 0xF0000 0x10000)"

definition mpconfig :: "memory \<Rightarrow> (uint \<times> uint) option" where
  "mpconfig m =
     (case mpsearch m of
        None \<Rightarrow> None
      | Some mp \<Rightarrow>
          let physaddr = ld32 m (mp + 4); conf = P2V physaddr; version = m (conf + 6)
          in if physaddr = 0 then None
             else if \<not> signature_at m conf [0x50, 0x43, 0x4D, 0x50] then None
             else if version \<noteq> 1 \<and> version \<noteq> 4 then None
             else if mp_sum m conf (unat (ld16 m (conf + 4))) \<noteq> 0 then None
             else Some (mp, conf))"

text \<open>
  The loop of \<^verbatim>\<open>mpinit\<close> over the entries from \<open>p\<close> to \<open>e\<close>.  On an entry of unknown type the \<^verbatim>\<open>break\<close> leaves the
  \<^verbatim>\<open>switch\<close> only, so the loop looks at the same entry for ever.
\<close>

function mpinit_loop :: "memory \<Rightarrow> uint \<Rightarrow> uint \<Rightarrow> mpinfo \<Rightarrow> mpinfo result" where
  "mpinit_loop m p e i =
     (if \<not> p < e then Ok i
      else let t = m p;
               i' = (if t = MPPROC
                     then if ncpu i < NCPU
                          then i\<lparr>apicid := (apicid i)(ncpu i := m (p + 1)), ncpu := ncpu i + 1\<rparr> else i
                     else if t = MPIOAPIC then i\<lparr>ioapicid := m (p + 1)\<rparr> else i);
               p' = (if t = MPPROC then p + sizeof_mpproc
                     else if t = MPIOAPIC then p + sizeof_mpioapic
                     else if t = MPBUS \<or> t = MPIOINTR \<or> t = MPLINTR then p + 8 else p)
           in if p < p' then mpinit_loop m p' e i' else Diverges)"
  by pat_completeness auto
termination
  by (relation "measure (\<lambda>(m, p, e, i). unat e - unat p)") (auto simp: word_less_nat_alt)

declare mpinit_loop.simps [simp del]

definition mpinit :: "memory \<Rightarrow> mpinfo \<Rightarrow> mpinfo result" where
  "mpinit m i =
     (case mpconfig m of
        None \<Rightarrow> Panic ''Expect to run on an SMP''
      | Some (mp, conf) \<Rightarrow>
          mpinit_loop m (conf + sizeof_mpconf) (conf + ucast (ld16 m (conf + 4))) (i\<lparr>lapic := ld32 m (conf + 36)\<rparr>))"

text \<open>\<^verbatim>\<open>mycpu\<close> on a processor with interrupt flag \<open>intr\<close> whose local APIC has the identifier \<open>apic\<close>.\<close>

definition mycpu :: "bool \<Rightarrow> int \<Rightarrow> mpinfo \<Rightarrow> nat result" where
  "mycpu intr apic i =
     (if intr then Panic ''mycpu called with interrupts enabled''
      else case find (\<lambda>c. uint (apicid i c) = apic) [0..<ncpu i] of
             Some c \<Rightarrow> Ok c
           | None \<Rightarrow> Panic ''unknown apicid'')"

section \<open>Interrupt controllers\<close>

record apics =
  ioapic_reg :: "nat \<Rightarrow> uint"
  lapic_writes :: "(uint \<times> uint) list"
  pic_masks :: "uchar \<times> uchar"

definition T_IRQ0 :: uint where "T_IRQ0 = 32"
definition IRQ_TIMER :: uint where "IRQ_TIMER = 0"
definition IRQ_KBD :: uint where "IRQ_KBD = 1"
definition IRQ_COM1 :: uint where "IRQ_COM1 = 4"
definition IRQ_IDE :: uint where "IRQ_IDE = 14"
definition IRQ_ERROR :: uint where "IRQ_ERROR = 19"
definition IRQ_SPURIOUS :: uint where "IRQ_SPURIOUS = 31"
definition REG_TABLE :: nat where "REG_TABLE = 0x10"
definition INT_DISABLED :: uint where "INT_DISABLED = 0x00010000"

definition ioapicwrite :: "nat \<Rightarrow> uint \<Rightarrow> apics \<Rightarrow> apics" where
  "ioapicwrite reg data a = a\<lparr>ioapic_reg := (ioapic_reg a)(reg := data)\<rparr>"

text \<open>The result tells whether the identifier differs, which is reported on the console.\<close>

definition ioapicinit :: "uint \<Rightarrow> uint \<Rightarrow> mpinfo \<Rightarrow> apics \<Rightarrow> bool \<times> apics" where
  "ioapicinit ver ident i a =
     (let maxintr = unat (drop_bit 16 ver AND 0xFF)
      in (drop_bit 24 ident \<noteq> ucast (ioapicid i),
          fold (\<lambda>k a. ioapicwrite (REG_TABLE + 2 * k + 1) 0
                        (ioapicwrite (REG_TABLE + 2 * k) (INT_DISABLED OR (T_IRQ0 + of_nat k)) a)) [0..<maxintr + 1] a))"

definition ioapicenable :: "uint \<Rightarrow> uint \<Rightarrow> apics \<Rightarrow> apics" where
  "ioapicenable irq cpunum a =
     ioapicwrite (REG_TABLE + 2 * unat irq + 1) (push_bit 24 cpunum)
       (ioapicwrite (REG_TABLE + 2 * unat irq) (T_IRQ0 + irq) a)"

definition picinit :: "apics \<Rightarrow> apics" where
  "picinit a = a\<lparr>pic_masks := (0xFF, 0xFF)\<rparr>"

definition lapicw :: "uint \<Rightarrow> uint \<Rightarrow> apics \<Rightarrow> apics" where
  "lapicw index val a = a\<lparr>lapic_writes := lapic_writes a @ [(index, val)]\<rparr>"

text \<open>Register indices and values of \<^verbatim>\<open>lapic.c\<close>; \<open>ver\<close> is the content of the version register.\<close>

definition lapicinit :: "uint \<Rightarrow> mpinfo \<Rightarrow> apics \<Rightarrow> apics" where
  "lapicinit ver i a =
     (if lapic i = 0 then a
      else let a = lapicw (0xF0 div 4) (0x100 OR (T_IRQ0 + IRQ_SPURIOUS)) a;
               a = lapicw (0x3E0 div 4) 0xB a;
               a = lapicw (0x320 div 4) (0x20000 OR (T_IRQ0 + IRQ_TIMER)) a;
               a = lapicw (0x380 div 4) 10000000 a;
               a = lapicw (0x350 div 4) 0x10000 a;
               a = lapicw (0x360 div 4) 0x10000 a;
               a = (if drop_bit 16 ver AND 0xFF \<ge> 4 then lapicw (0x340 div 4) 0x10000 a else a);
               a = lapicw (0x370 div 4) (T_IRQ0 + IRQ_ERROR) a;
               a = lapicw (0x280 div 4) 0 a;
               a = lapicw (0x280 div 4) 0 a;
               a = lapicw (0xB0 div 4) 0 a;
               a = lapicw (0x310 div 4) 0 a;
               a = lapicw (0x300 div 4) (0x80000 OR 0x500 OR 0x8000) a
           in lapicw (0x80 div 4) 0 a)"

definition lapicid :: "uint \<Rightarrow> mpinfo \<Rightarrow> uint" where
  "lapicid ident i = (if lapic i = 0 then 0 else drop_bit 24 ident)"

definition lapiceoi :: "mpinfo \<Rightarrow> apics \<Rightarrow> apics" where
  "lapiceoi i a = (if lapic i \<noteq> 0 then lapicw (0xB0 div 4) 0 a else a)"

text \<open>The warm reset vector is in memory; the two commands are sent to the other processor's APIC.\<close>

definition lapicstartap :: "uchar \<Rightarrow> uint \<Rightarrow> memory \<times> apics \<Rightarrow> memory \<times> apics" where
  "lapicstartap cpu_apic addr = (\<lambda>(m, a).
     (let wrv = P2V (0x400 OR 0x67);
          m = st16 (st16 m wrv 0) (wrv + 2) (ucast (drop_bit 4 addr));
          dest = push_bit 24 (ucast cpu_apic) :: uint;
          a = lapicw (0x310 div 4) dest a;
          a = lapicw (0x300 div 4) (0x500 OR 0x8000 OR 0x4000) a;
          a = lapicw (0x300 div 4) (0x500 OR 0x8000) a;
          start = (\<lambda>a. lapicw (0x300 div 4) (0x600 OR drop_bit 12 addr) (lapicw (0x310 div 4) dest a))
      in (m, start (start a))))"

section \<open>The clock\<close>

record rtcdate =
  second :: uint
  minute :: uint
  hour :: uint
  day :: uint
  month :: uint
  year :: uint

text \<open>\<open>cmos k reg\<close> is what the clock chip returns for register \<open>reg\<close> when it is read for the \<open>k\<close>-th time.\<close>

definition fill_rtcdate :: "(nat \<Rightarrow> nat \<Rightarrow> uchar) \<Rightarrow> nat \<Rightarrow> rtcdate" where
  "fill_rtcdate cmos k =
     \<lparr>second = ucast (cmos k 0), minute = ucast (cmos (k + 1) 2), hour = ucast (cmos (k + 2) 4),
      day = ucast (cmos (k + 3) 7), month = ucast (cmos (k + 4) 8), year = ucast (cmos (k + 5) 9)\<rparr>"

partial_function (option) cmos_loop :: "(nat \<Rightarrow> nat \<Rightarrow> uchar) \<Rightarrow> nat \<Rightarrow> rtcdate option" where
  "cmos_loop cmos k =
     (let t1 = fill_rtcdate cmos k
      in if cmos (k + 6) 0x0a AND 0x80 \<noteq> 0 then cmos_loop cmos (k + 7)
         else if t1 = fill_rtcdate cmos (k + 7) then Some t1
         else cmos_loop cmos (k + 13))"

definition conv :: "uint \<Rightarrow> uint" where
  "conv x = drop_bit 4 x * 10 + (x AND 0xf)"

definition cmostime :: "(nat \<Rightarrow> nat \<Rightarrow> uchar) \<Rightarrow> rtcdate option" where
  "cmostime cmos =
     (let bcd = (cmos 0 0x0b AND 4 = 0)
      in map_option (\<lambda>t.
           let t = (if bcd then \<lparr>second = conv (second t), minute = conv (minute t), hour = conv (hour t),
                                 day = conv (day t), month = conv (month t), year = conv (year t)\<rparr> else t)
           in t\<lparr>year := year t + 2000\<rparr>) (cmos_loop cmos 1))"

section \<open>Reading the configuration table\<close>

text \<open>
  A table of entries in memory, from \<open>p\<close> to \<open>q\<close>.  Entries other than processors and I/O APICs are skipped.
\<close>

datatype mp_entry = MpCpu uchar | MpIoapic uchar | MpSkip uchar

primrec entry_size :: "mp_entry \<Rightarrow> uint" where
  "entry_size (MpCpu a) = 20"
| "entry_size (MpIoapic a) = 8"
| "entry_size (MpSkip t) = 8"

primrec entry_at :: "memory \<Rightarrow> uint \<Rightarrow> mp_entry \<Rightarrow> bool" where
  "entry_at m p (MpCpu a) \<longleftrightarrow> m p = 0 \<and> m (p + 1) = a"
| "entry_at m p (MpIoapic a) \<longleftrightarrow> m p = 2 \<and> m (p + 1) = a"
| "entry_at m p (MpSkip t) \<longleftrightarrow> m p = t \<and> t \<in> {1, 3, 4}"

primrec mp_table :: "memory \<Rightarrow> uint \<Rightarrow> mp_entry list \<Rightarrow> uint \<Rightarrow> bool" where
  "mp_table m p [] q \<longleftrightarrow> p = q"
| "mp_table m p (x # xs) q \<longleftrightarrow> entry_at m p x \<and> p < p + entry_size x \<and> mp_table m (p + entry_size x) xs q"

primrec cpu_ids :: "mp_entry list \<Rightarrow> uchar list" where
  "cpu_ids [] = []"
| "cpu_ids (x # xs) = (case x of MpCpu a \<Rightarrow> [a] | _ \<Rightarrow> []) @ cpu_ids xs"

primrec ioapic_ids :: "mp_entry list \<Rightarrow> uchar list" where
  "ioapic_ids [] = []"
| "ioapic_ids (x # xs) = (case x of MpIoapic a \<Rightarrow> [a] | _ \<Rightarrow> []) @ ioapic_ids xs"

definition add_cpu :: "uchar \<Rightarrow> mpinfo \<Rightarrow> mpinfo" where
  "add_cpu a i = (if ncpu i < NCPU then i\<lparr>apicid := (apicid i)(ncpu i := a), ncpu := ncpu i + 1\<rparr> else i)"

primrec add_entry :: "mp_entry \<Rightarrow> mpinfo \<Rightarrow> mpinfo" where
  "add_entry (MpCpu a) i = add_cpu a i"
| "add_entry (MpIoapic a) i = i\<lparr>ioapicid := a\<rparr>"
| "add_entry (MpSkip t) i = i"

lemmas mp_types = MPPROC_def MPBUS_def MPIOAPIC_def MPIOINTR_def MPLINTR_def sizeof_mpproc_def sizeof_mpioapic_def

lemma mpinit_loop_entry:
  assumes "entry_at m p x" and "p < p + entry_size x" and "p < e"
  shows "mpinit_loop m p e i = mpinit_loop m (p + entry_size x) e (add_entry x i)"
  using assms by (subst mpinit_loop.simps, cases x) (auto simp: mp_types add_cpu_def)

lemma mp_table_le: "mp_table m p xs q \<Longrightarrow> p \<le> q"
  by (induction xs arbitrary: p) (auto intro: order_trans less_imp_le)

lemma mpinit_loop_table:
  "mp_table m p xs q \<Longrightarrow> q \<le> e \<Longrightarrow> mpinit_loop m p e i = mpinit_loop m q e (fold add_entry xs i)"
proof (induction xs arbitrary: p i)
  case Nil
  then show ?case by simp
next
  case (Cons x xs)
  then have "p < p + entry_size x" "p + entry_size x \<le> e" using mp_table_le [of m "p + entry_size x" xs q] by auto
  then have "p < e" by (rule less_le_trans)
  from Cons.prems(1) have x: "entry_at m p x" "p < p + entry_size x" "mp_table m (p + entry_size x) xs q" by simp_all
  have "mpinit_loop m p e i = mpinit_loop m (p + entry_size x) e (add_entry x i)"
    by (rule mpinit_loop_entry [OF x(1,2) \<open>p < e\<close>])
  also have "\<dots> = mpinit_loop m q e (fold add_entry (x # xs) i)" using Cons.IH [OF x(3) Cons.prems(2)] by simp
  finally show ?case .
qed

lemma fold_add_entry:
  "ncpu i \<le> NCPU \<Longrightarrow>
   ncpu (fold add_entry xs i) = min NCPU (ncpu i + length (cpu_ids xs)) \<and>
   (\<forall>c < ncpu (fold add_entry xs i). apicid (fold add_entry xs i) c =
      (if c < ncpu i then apicid i c else cpu_ids xs ! (c - ncpu i))) \<and>
   ioapicid (fold add_entry xs i) = last (ioapicid i # ioapic_ids xs) \<and> lapic (fold add_entry xs i) = lapic i"
proof (induction xs arbitrary: i)
  case Nil
  then show ?case by auto
next
  case (Cons x xs)
  show ?case
  proof (cases x)
    case (MpCpu a)
    show ?thesis
    proof (cases "ncpu i < NCPU")
      case True
      with Cons.IH [of "add_cpu a i"] show ?thesis
        by (auto simp: MpCpu add_cpu_def nth_Cons' less_Suc_eq)
    next
      case False
      with Cons.prems have n: "ncpu i = NCPU" by simp
      with Cons.IH [of i] show ?thesis by (auto simp: MpCpu add_cpu_def)
    qed
  next
    case (MpIoapic a)
    with Cons.IH [of "i\<lparr>ioapicid := a\<rparr>"] Cons.prems show ?thesis by simp
  next
    case (MpSkip t)
    with Cons show ?thesis by simp
  qed
qed

text \<open>
  \<^verbatim>\<open>mpinit\<close> decodes the configuration table (C18): it records the local APIC address, the identifiers of the first
  \<^verbatim>\<open>NCPU\<close> processors in table order and the last I/O APIC.  But it does not reject a table with an entry of
  another type: instead of reporting ``Didn't find a suitable machine'' it hangs, because the entry is never
  skipped.
\<close>

theorem mpinit_decodes:
  assumes "mpconfig m = Some (mp, conf)" and "ncpu i = 0" and "mp_table m (conf + 44) xs q"
    and "e = conf + ucast (ld16 m (conf + 4))"
  shows "(q = e \<longrightarrow> (\<exists>i'. mpinit m i = Ok i' \<and> ncpu i' = min NCPU (length (cpu_ids xs)) \<and>
        (\<forall>c < ncpu i'. apicid i' c = cpu_ids xs ! c) \<and>
        ioapicid i' = last (ioapicid i # ioapic_ids xs) \<and> lapic i' = ld32 m (conf + 36))) \<and>
    (q < e \<and> m q \<notin> {0, 1, 2, 3, 4} \<longrightarrow> mpinit m i = Diverges)"
proof -
  let ?i = "i\<lparr>lapic := ld32 m (conf + 36)\<rparr>"
  have run: "mpinit m i = mpinit_loop m q e (fold add_entry xs ?i)" if "q \<le> e"
    using mpinit_loop_table [OF assms(3) that] by (simp add: mpinit_def assms(1,4) sizeof_mpconf_def)
  have "mpinit m i = Ok (fold add_entry xs ?i)" if "q = e"
    using run that by (simp add: mpinit_loop.simps)
  moreover have "mpinit m i = Diverges" if "q < e" "m q \<notin> {0, 1, 2, 3, 4}"
  proof -
    have "mpinit_loop m q e j = Diverges" for j
      using that by (subst mpinit_loop.simps) (simp add: mp_types)
    with run that show ?thesis by simp
  qed
  moreover note fold_add_entry [of ?i xs]
  ultimately show ?thesis using assms(2) by auto
qed

text \<open>Firmware with two processors and an I/O APIC.\<close>

definition mp_bytes :: "uchar list" where
  "mp_bytes = [0x5F, 0x4D, 0x50, 0x5F, 0x00, 0x10, 0x09, 0x00, 1, 4, 0x87, 0, 0, 0, 0, 0]"

definition conf_bytes :: "nat \<Rightarrow> uchar" where
  "conf_bytes = (\<lambda>_. 0)(0 := 0x50, 1 := 0x43, 2 := 0x4D, 3 := 0x50, 4 := 92, 6 := 4, 7 := 0x81, 38 := 0xE0, 39 := 0xFE,
     65 := 6, 84 := 2, 85 := 9)"

definition firmware :: memory where
  "firmware = (\<lambda>a. if a = 0x8000040F then 0x90
     else if unat (a - 0x80090000) < 16 then mp_bytes ! unat (a - 0x80090000)
     else if unat (a - 0x80091000) < 92 then conf_bytes (unat (a - 0x80091000)) else 0)"


lemma firmware_mp: "mpsearch firmware = Some 0x80090000"
proof -
  have "(1024 + sizeof_mp - 1) div sizeof_mp = Suc 63" by (simp add: sizeof_mp_def)
  then have "mpsearch1 firmware 0x90000 1024 = Some 0x80090000"
    unfolding mpsearch1_def
    by (simp only: upt_conv_Cons zero_less_Suc list.map find.simps)
      (simp add: P2V_def KERNBASE_def signature_at_def firmware_def mp_bytes_def mp_sum_def sizeof_mp_def upt_conv_Cons)
  moreover have "firmware (P2V 0x400 + 0x0F) = 0x90" "firmware (P2V 0x400 + 0x0E) = 0"
    by (simp_all add: firmware_def P2V_def KERNBASE_def)
  ultimately show ?thesis by (simp add: mpsearch_def Let_def)
qed

lemma firmware_conf: "mpconfig firmware = Some (0x80090000, 0x80091000)"
  unfolding mpconfig_def firmware_mp
  by (simp add: Let_def P2V_def KERNBASE_def signature_at_def firmware_def ld32_def ld16_def mp_bytes_def conf_bytes_def mp_sum_def upt_conv_Cons)

theorem mpinit_decodes_witness:
  "\<exists>i'. mpinit firmware \<lparr>ncpu = 0, apicid = \<lambda>_. 0, ioapicid = 0, lapic = 0\<rparr> = Ok i' \<and>
     ncpu i' = 2 \<and> apicid i' 1 = 6 \<and> ioapicid i' = 9 \<and> lapic i' = 0xFEE00000"
proof -
  let ?xs = "[MpCpu 0, MpCpu 6, MpIoapic 9]"
  have l: "ld16 firmware 0x80091004 = 92" "ld32 firmware 0x80091024 = 0xFEE00000"
    by (simp_all add: ld16_def ld32_def firmware_def conf_bytes_def)
  have t: "mp_table firmware (0x80091000 + 44) ?xs 0x8009105C" by (simp add: firmware_def conf_bytes_def)
  show ?thesis
    using mpinit_decodes [OF firmware_conf _ t refl, of "\<lparr>ncpu = 0, apicid = \<lambda>_. 0, ioapicid = 0, lapic = 0\<rparr>"]
    by (auto simp: l NCPU_def)
qed

section \<open>Reading the clock\<close>

definition bcd :: "nat \<Rightarrow> uchar" where
  "bcd n = of_nat (16 * (n div 10) + n mod 10)"

lemma conv_bcd: "n < 100 \<Longrightarrow> conv (ucast (bcd n)) = of_nat n"
proof -
  have "\<forall>n \<in> set [0..<100]. conv (ucast (bcd n)) = of_nat n" by code_simp
  then show "n < 100 \<Longrightarrow> conv (ucast (bcd n)) = of_nat n" by simp
qed

definition date_of :: "nat \<times> nat \<times> nat \<times> nat \<times> nat \<times> nat \<Rightarrow> (nat \<Rightarrow> uint) \<Rightarrow> rtcdate" where
  "date_of = (\<lambda>(s, mi, h, d, mo, y) f. \<lparr>second = f s, minute = f mi, hour = f h, day = f d, month = f mo, year = f y\<rparr>)"

lemma cmos_loop_waits:
  "\<forall>j < u. cmos (k + 7 * j + 6) 0x0a AND 0x80 \<noteq> 0 \<Longrightarrow> cmos_loop cmos k = cmos_loop cmos (k + 7 * u)"
proof (induction u arbitrary: k)
  case 0
  then show ?case by simp
next
  case (Suc u)
  have "cmos (k + 6) 0x0a AND 0x80 \<noteq> 0" using Suc.prems [rule_format, of 0] by simp
  then have "cmos_loop cmos k = cmos_loop cmos (k + 7)" by (subst cmos_loop.simps) simp
  moreover have "cmos (k + 7 + 7 * j + 6) 0x0a AND 0x80 \<noteq> 0" if "j < u" for j
    using Suc.prems [rule_format, of "Suc j"] that by (simp add: algebra_simps)
  ultimately show ?case using Suc.IH [of "k + 7"] by (simp add: algebra_simps)
qed


definition clock0 :: "nat \<Rightarrow> nat \<Rightarrow> uchar" where
  "clock0 k reg = (if reg = 0x0a then if k < 10 then 0x80 else 0
     else if reg = 0 then if k < 8 then 0x58 else 0x59
     else if reg = 2 then 0x34 else if reg = 4 then 0x12 else if reg = 7 then 0x31 else if reg = 8 then 0x12
     else if reg = 9 then 0x24 else 0)"


end
