(* ===== verification/Trap.thy ===== *)
theory Trap
  imports Sysfile Kbd Mp
begin

text \<open>
  Traps and interrupts: \<^verbatim>\<open>trap.c\<close>, and the interrupt halves of the keyboard and the serial port.

  \<^item> The bytes a device delivers in one interrupt are an argument; so is the faulting address.
  \<^item> \<^verbatim>\<open>trap\<close> ends in one of three ways: it returns to the interrupted code, the process has exited, or the process
    has given up the CPU.  In the last case \<open>trap_return\<close> is what is left to do once it runs again.
  \<^item> The acknowledgement of the interrupt to the local APIC is a register write without effect on the rest of the kernel
    and is left to \<^verbatim>\<open>Mp\<close>.
\<close>

definition T_SYSCALL :: uint where "T_SYSCALL = 64"

definition tvinit :: "(nat \<Rightarrow> uint) \<Rightarrow> 'a kern_st_scheme \<Rightarrow> 'a kern_st_scheme" where
  "tvinit vectors s =
     (let k = unat T_SYSCALL
      in s\<lparr>idt := (\<lambda>i. if i < 256 then SETGATE False (push_bit 3 SEG_KCODE) (vectors i) 0 else idt s i)
             (k := SETGATE True (push_bit 3 SEG_KCODE) (vectors k) DPL_USER)\<rparr>)"

section \<open>Device interrupts\<close>

record devices_in =
  scan_codes :: "uchar list"
  serial_in :: "uchar list"
  fault_addr :: uint

primrec kbd_read :: "uchar list \<Rightarrow> uint \<Rightarrow> int list \<times> uint" where
  "kbd_read [] shift = ([], shift)"
| "kbd_read (d # ds) shift =
     (let (c, shift) = kbdgetc 1 d shift; (cs, shift) = kbd_read ds shift in (c # cs, shift))"

definition procdump_line :: "int \<times> string \<times> carray \<times> uint list \<Rightarrow> 'a fs_st_scheme \<Rightarrow> 'a fs_st_scheme result" where
  "procdump_line = (\<lambda>(pid, st, name, pcs) s.
     rbind (kprintf (\<lambda>a. if a = 1 then ascii st else c_chars name) ''%d %s %s'' [word_of_int pid, 1, 2] s) (\<lambda>s.
     rbind (for_each (\<lambda>pc. kprintf (\<lambda>_. []) '' %p'' [pc]) pcs s) (\<lambda>s.
     kprintf (\<lambda>_. []) [char_of (10::nat)] [] s)))"

definition console_intr :: "int list \<Rightarrow> 'a fs_st_scheme \<Rightarrow> 'a fs_st_scheme result" where
  "console_intr keys s =
     rbind (consoleintr keys s) (\<lambda>(dump, s). if dump then for_each procdump_line (procdump s) s else Ok s)"

definition kbdintr :: "uchar list \<Rightarrow> 'a kern_st_scheme \<Rightarrow> 'a kern_st_scheme result" where
  "kbdintr ds s = (let (keys, shift) = kbd_read ds (kbd_shift s) in console_intr keys (s\<lparr>kbd_shift := shift\<rparr>))"

definition uartintr :: "uchar list \<Rightarrow> 'a fs_st_scheme \<Rightarrow> 'a fs_st_scheme result" where
  "uartintr ds s = console_intr (takeWhile (\<lambda>c. c \<ge> 0) (map (\<lambda>d. uartgetc 1 d (con s)) ds)) s"

section \<open>Traps\<close>

datatype trap_end = Returned | Exited | Yielded

definition tf_cpl :: "uint \<Rightarrow> 'a kern_st_scheme \<Rightarrow> ushort" where
  "tf_cpl tf s = ld16 (mem s) (tf + tf_cs) AND 3"

definition interrupt :: "devices_in \<Rightarrow> uint \<Rightarrow> 'a kern_st_scheme \<Rightarrow> 'a kern_st_scheme result" where
  "interrupt dev tf s =
     (let no = ld32 (mem s) (tf + tf_trapno); eip = ld32 (mem s) (tf + tf_eip); cpu = of_nat (this_cpu s)
      in if no = T_IRQ0 + IRQ_TIMER
         then Ok (if this_cpu s = 0 then wakeup ChanTicks (s\<lparr>ticks := ticks s + 1\<rparr>) else s)
         else if no = T_IRQ0 + IRQ_IDE then ideintr s
         else if no = T_IRQ0 + IRQ_IDE + 1 then Ok s
         else if no = T_IRQ0 + IRQ_KBD then kbdintr (scan_codes dev) s
         else if no = T_IRQ0 + IRQ_COM1 then uartintr (serial_in dev) s
         else if no = T_IRQ0 + 7 \<or> no = T_IRQ0 + IRQ_SPURIOUS
         then kprintf (\<lambda>_. []) (''cpu%d: spurious interrupt at %x:%x'' @ [char_of (10::nat)])
                [cpu, ucast (ld16 (mem s) (tf + tf_cs)), eip] s
         else case (myproc s, tf_cpl tf s = 0) of
           (Some p, False) \<Rightarrow>
             rbind (kprintf (\<lambda>_. c_chars (p_name (ptable s p)))
                 (''pid %d %s: trap %d err %d on cpu %d eip 0x%x addr 0x%x--kill proc'' @ [char_of (10::nat)])
                 [word_of_int (p_pid (ptable s p)), 1, no, ld32 (mem s) (tf + tf_err), cpu, eip, fault_addr dev] s) (\<lambda>s.
             Ok (upd_proc p (\<lambda>q. q\<lparr>p_killed := True\<rparr>) s))
         | _ \<Rightarrow>
             rbind (kprintf (\<lambda>_. []) (''unexpected trap %d from cpu %d eip %x (cr2=0x%x)'' @ [char_of (10::nat)])
                 [no, cpu, eip, fault_addr dev] s) (\<lambda>s. Panic ''trap''))"

definition must_exit :: "uint \<Rightarrow> 'a kern_st_scheme \<Rightarrow> bool" where
  "must_exit tf s = (i_killed s \<and> tf_cpl tf s = ucast DPL_USER)"

definition exits :: "'a kern_st_scheme \<Rightarrow> (trap_end \<times> 'a kern_st_scheme) result" where
  "exits s = rbind (exit s) (\<lambda>s. Ok (Exited, s))"

definition trap_return :: "uint \<Rightarrow> 'a kern_st_scheme \<Rightarrow> (trap_end \<times> 'a kern_st_scheme) result" where
  "trap_return tf s = (if must_exit tf s then exits s else Ok (Returned, s))"

definition trap_syscall :: "uint \<Rightarrow> 'a kern_st_scheme \<Rightarrow> (trap_end \<times> 'a kern_st_scheme) result" where
  "trap_syscall tf s =
     rbind (curproc s) (\<lambda>p.
     if p_killed (ptable s p) then exits s
     else rbind (syscall (upd_proc p (\<lambda>q. q\<lparr>p_tf := tf\<rparr>) s)) (\<lambda>(goes_on, s).
          if \<not> goes_on then Ok (Exited, s)
          else rbind (curproc s) (\<lambda>p. if p_killed (ptable s p) then exits s else Ok (Returned, s))))"

definition trap :: "devices_in \<Rightarrow> uint \<Rightarrow> 'a kern_st_scheme \<Rightarrow> (trap_end \<times> 'a kern_st_scheme) result" where
  "trap dev tf s =
     (if ld32 (mem s) (tf + tf_trapno) = T_SYSCALL then trap_syscall tf s
      else rbind (interrupt dev tf s) (\<lambda>s.
           if must_exit tf s then exits s
           else if (case myproc s of Some p \<Rightarrow> p_state (ptable s p) = RUNNING | None \<Rightarrow> False) \<and>
                   ld32 (mem s) (tf + tf_trapno) = T_IRQ0 + IRQ_TIMER
           then rbind (yield s) (\<lambda>s. Ok (Yielded, s))
           else trap_return tf s))"

end
