(* ===== verification/Boot.thy ===== *)
theory Boot
  imports Trap
begin

text \<open>
  Starting the machine: the boot loader \<^verbatim>\<open>bootmain.c\<close> and the kernel's \<^verbatim>\<open>main.c\<close>.

  \<^item> The loader works on physical memory and on the sectors of the disk; a read waits until the disk is ready.
  \<^item> \<^verbatim>\<open>main\<close> runs the initialisation of every component in the order of the source.  What the probed hardware
    answers is collected in one record of inputs.  Another CPU is started by \<^verbatim>\<open>startothers\<close>, which waits until that CPU
    has announced itself in \<^verbatim>\<open>mpmain\<close>, so its initialisation is a part of the loop.  \<^verbatim>\<open>main\<close> ends where the
    scheduler starts.
\<close>

section \<open>Boot loader\<close>

definition SECTSIZE :: uint where "SECTSIZE = 512"

definition readsect :: "(uint \<Rightarrow> nat \<Rightarrow> uchar) \<Rightarrow> uint \<Rightarrow> uint \<Rightarrow> memory \<Rightarrow> memory" where
  "readsect sectors dst offset m = (\<lambda>a. if a - dst < SECTSIZE then sectors offset (unat (a - dst)) else m a)"

function readseg_loop :: "(uint \<Rightarrow> nat \<Rightarrow> uchar) \<Rightarrow> uint \<Rightarrow> uint \<Rightarrow> uint \<Rightarrow> memory \<Rightarrow> memory result" where
  "readseg_loop sectors pa epa offset m =
     (if pa < epa
      then if pa < pa + SECTSIZE
           then readseg_loop sectors (pa + SECTSIZE) epa (offset + 1) (readsect sectors pa offset m)
           else Diverges
      else Ok m)"
  by pat_completeness auto
termination
  by (relation "measure (\<lambda>(sectors, pa, epa, offset, m). unat epa - unat pa)") (auto simp: word_less_nat_alt)

declare readseg_loop.simps [simp del]

definition readseg :: "(uint \<Rightarrow> nat \<Rightarrow> uchar) \<Rightarrow> uint \<Rightarrow> uint \<Rightarrow> uint \<Rightarrow> memory \<Rightarrow> memory result" where
  "readseg sectors pa count offset m =
     readseg_loop sectors (pa - offset mod SECTSIZE) (pa + count) (offset div SECTSIZE + 1) m"

text \<open>One program segment, described by the header at address \<open>ph\<close>.\<close>

definition load_segment :: "(uint \<Rightarrow> nat \<Rightarrow> uchar) \<Rightarrow> uint \<Rightarrow> memory \<Rightarrow> memory result" where
  "load_segment sectors ph m =
     (let off = ld32 m (ph + 4); pa = ld32 m (ph + 12); filesz = ld32 m (ph + 16)
      in rbind (readseg sectors pa filesz off m) (\<lambda>m.
         let memsz = ld32 m (ph + 20); filesz = ld32 m (ph + 16)
         in Ok (if memsz > filesz then stosb m (pa + filesz) 0 (unat (memsz - filesz)) else m)))"

text \<open>The entry point to jump to, or \<^verbatim>\<open>None\<close> when the image is not an executable, and the memory.\<close>

definition bootmain :: "(uint \<Rightarrow> nat \<Rightarrow> uchar) \<Rightarrow> memory \<Rightarrow> (uint option \<times> memory) result" where
  "bootmain sectors m =
     (let elf = 0x10000
      in rbind (readseg sectors elf 4096 0 m) (\<lambda>m.
         if ld32 m elf \<noteq> ELF_MAGIC then Ok (None, m)
         else let ph = elf + ld32 m (elf + 28)
              in rbind (for_each (\<lambda>i. load_segment sectors (ph + of_nat (i * sizeof_proghdr))) [0..<unat (ld16 m (elf + 44))] m) (\<lambda>m.
                 Ok (Some (ld32 m (elf + 24)), m))))"

section \<open>Kernel initialisation\<close>

record boot_st = kern_st +
  mpi :: mpinfo
  apic :: apics

record hardware =
  hw_ioapic_ver :: uint
  hw_ioapic_id :: uint
  hw_lapic_ver :: uint
  hw_uart :: bool
  hw_disk1 :: "nat \<Rightarrow> uchar"
  hw_vectors :: "nat \<Rightarrow> uint"
  hw_entryother :: "uchar list"
  hw_mpenter :: uint
  hw_entrypgdir :: uint

definition entrypgdir :: "nat \<Rightarrow> uint" where
  "entrypgdir = (\<lambda>_. 0)(0 := 0 OR PTE_P OR PTE_W OR PTE_PS,
     unat (drop_bit PDXSHIFT KERNBASE) := 0 OR PTE_P OR PTE_W OR PTE_PS)"

definition mpmain :: "'a boot_st_scheme \<Rightarrow> 'a boot_st_scheme result" where
  "mpmain s =
     kprintf (\<lambda>_. []) (''cpu%d: starting %d'' @ [char_of (10::nat)]) [of_nat (this_cpu s), of_nat (this_cpu s)] s"

definition mpenter :: "hardware \<Rightarrow> 'a boot_st_scheme \<Rightarrow> 'a boot_st_scheme result" where
  "mpenter hw s = (let s = seginit (switchkvm s) in mpmain (s\<lparr>apic := lapicinit (hw_lapic_ver hw) (mpi s) (apic s)\<rparr>))"

definition start_cpu :: "hardware \<Rightarrow> nat \<Rightarrow> 'a boot_st_scheme \<Rightarrow> 'a boot_st_scheme result" where
  "start_cpu hw c s =
     (if c = this_cpu s then Ok s
      else let code = P2V 0x7000;
               (stack, s) = kalloc s;
               s = store32 (code - 4) (stack + KSTACKSIZE) s;
               s = store32 (code - 8) (hw_mpenter hw) s;
               s = store32 (code - 12) (V2P (hw_entrypgdir hw)) s;
               (m, a) = lapicstartap (apicid (mpi s) c) (V2P code) (mem s, apic s);
               me = this_cpu s
           in rbind (mpenter hw (s\<lparr>mem := m, apic := a, this_cpu := c\<rparr>)) (\<lambda>s. Ok (s\<lparr>this_cpu := me\<rparr>)))"

definition startothers :: "hardware \<Rightarrow> 'a boot_st_scheme \<Rightarrow> 'a boot_st_scheme result" where
  "startothers hw s =
     (let code = P2V 0x7000; img = hw_entryother hw;
          s = s\<lparr>mem := \<lambda>a. if unat (a - code) < length img then img ! unat (a - code) else mem s a\<rparr>
      in for_each (start_cpu hw) [0..<ncpu (mpi s)] s)"

definition main :: "hardware \<Rightarrow> 'a boot_st_scheme \<Rightarrow> 'a boot_st_scheme result" where
  "main hw s =
     rbind (kinit1 (kend s) (P2V (4 * 1024 * 1024)) s) (\<lambda>s.
     rbind (kvmalloc s) (\<lambda>s.
     rbind (mpinit (mem s) (mpi s)) (\<lambda>i.
     let s = s\<lparr>mpi := i\<rparr>;
         s = s\<lparr>apic := lapicinit (hw_lapic_ver hw) i (apic s)\<rparr>;
         s = seginit s;
         (differs, a) = ioapicinit (hw_ioapic_ver hw) (hw_ioapic_id hw) i (picinit (apic s));
         s = s\<lparr>apic := a\<rparr>
     in rbind (if differs then kprintf (\<lambda>_. []) (''ioapicinit: id isn'' @ [char_of (39::nat)] @ ''t equal to ioapicid; not a MP'' @ [char_of (10::nat)]) [] s
               else Ok s) (\<lambda>s.
        let s = consoleinit s;
            s = s\<lparr>apic := ioapicenable IRQ_KBD 0 (apic s)\<rparr>;
            s = s\<lparr>con := uartinit (hw_uart hw) (con s),
                   apic := if hw_uart hw then ioapicenable IRQ_COM1 0 (apic s) else apic s\<rparr>;
            s = binit (tvinit (hw_vectors hw) s);
            s = ideinit (hw_disk1 hw) s;
            s = s\<lparr>apic := ioapicenable IRQ_IDE (of_nat (ncpu i - 1)) (apic s)\<rparr>
        in rbind (startothers hw s) (\<lambda>s.
           rbind (kinit2 (P2V (4 * 1024 * 1024)) (P2V PHYSTOP) s) (\<lambda>s.
           rbind (userinit s) mpmain))))))"

section \<open>The loader\<close>

lemma unat_diff_shift:
  assumes "512 \<le> unat (a - pa :: uint)"
  shows "unat (a - (pa + 512)) = unat (a - pa) - 512"
proof -
  have d: "a - (pa + 512) = (a - pa) - 512" by simp
  show ?thesis unfolding d using assms unat_sub [of 512 "a - pa"] by (simp add: word_le_nat_alt)
qed

lemma readseg_loop_ok:
  "unat pa + 512 * n < 2 ^ 32 \<Longrightarrow> unat epa \<le> unat pa + 512 * n \<Longrightarrow> (n = 0 \<or> unat pa + 512 * (n - 1) < unat epa) \<Longrightarrow>
   readseg_loop sectors pa epa off m =
     Ok (\<lambda>a. if unat (a - pa) < 512 * n then sectors (off + of_nat (unat (a - pa) div 512)) (unat (a - pa) mod 512) else m a)"
proof (induction n arbitrary: pa off m)
  case 0
  then have "\<not> pa < epa" by (simp add: word_less_nat_alt)
  then show ?case by (simp add: readseg_loop.simps)
next
  case (Suc n)
  have lt: "pa < epa" using Suc.prems by (auto simp: word_less_nat_alt)
  have u: "unat (pa + 512) = unat pa + 512" using Suc.prems(1) by (simp add: unat_word_ariths)
  then have lt2: "pa < pa + SECTSIZE" by (simp add: SECTSIZE_def word_less_nat_alt)
  let ?m = "readsect sectors pa off m"
  have "readseg_loop sectors pa epa off m = readseg_loop sectors (pa + 512) epa (off + 1) ?m"
    using lt lt2 by (subst readseg_loop.simps) (simp add: SECTSIZE_def)
  also have "\<dots> = Ok (\<lambda>a. if unat (a - (pa + 512)) < 512 * n
      then sectors (off + 1 + of_nat (unat (a - (pa + 512)) div 512)) (unat (a - (pa + 512)) mod 512) else ?m a)"
    by (rule Suc.IH) (use Suc.prems u in auto)
  also have "\<dots> = Ok (\<lambda>a. if unat (a - pa) < 512 * Suc n then sectors (off + of_nat (unat (a - pa) div 512)) (unat (a - pa) mod 512) else m a)"
  proof -
    have "(if unat (a - (pa + 512)) < 512 * n then sectors (off + 1 + of_nat (unat (a - (pa + 512)) div 512)) (unat (a - (pa + 512)) mod 512) else ?m a) =
      (if unat (a - pa) < 512 * Suc n then sectors (off + of_nat (unat (a - pa) div 512)) (unat (a - pa) mod 512) else m a)" for a
    proof (cases "512 \<le> unat (a - pa)")
      case True
      note e' = unat_diff_shift [OF True]
      obtain k where k: "unat (a - pa) = k + 512" using True by (metis le_add_diff_inverse2)
      have "of_nat (unat (a - pa) div 512) = (1 :: uint) + of_nat ((unat (a - pa) - 512) div 512)"
        "unat (a - pa) mod 512 = (unat (a - pa) - 512) mod 512"
        using div_add_self2 [of "512 :: nat" k] by (simp_all add: k)
      moreover have "?m a = m a" using True by (simp add: readsect_def SECTSIZE_def word_less_nat_alt)
      ultimately show ?thesis using True by (auto simp: e' algebra_simps)
    next
      case False
      have "unat (a - (pa + 512)) = unat ((a - pa) - 512)" by (simp only: diff_diff_eq)
      also have "\<dots> = unat (a - pa) + 2 ^ 32 - 512" using False by (simp add: unat_sub_if_size word_size)
      finally have "unat (a - (pa + 512)) = unat (a - pa) + 2 ^ 32 - 512" .
      then have "\<not> unat (a - (pa + 512)) < 512 * n" using Suc.prems(1) by simp
      moreover have "?m a = sectors off (unat (a - pa))" using False by (simp add: readsect_def SECTSIZE_def word_less_nat_alt)
      ultimately show ?thesis using False by simp
    qed
    then show ?thesis by simp
  qed
  finally show ?case .
qed

text \<open>Byte \<open>k\<close> of the kernel image, which starts at sector 1.\<close>

definition image_byte :: "(uint \<Rightarrow> nat \<Rightarrow> uchar) \<Rightarrow> nat \<Rightarrow> uchar" where
  "image_byte sectors k = sectors (of_nat (k div 512 + 1)) (k mod 512)"

text \<open>
  The boot loader reads the right bytes (C20).  \<^verbatim>\<open>readseg\<close> ends, and every one of the \<open>count\<close> bytes at \<open>pa\<close> is the byte of the
  kernel image at the corresponding offset, for any alignment of the offset; memory below the sector that
  contains the first byte and above the sector that contains the last one is untouched.
\<close>

theorem readseg_loads:
  assumes "unat (offset mod 512) \<le> unat pa" and "unat pa + unat count + 512 \<le> 2 ^ 32"
    and "unat offset + unat count < 2 ^ 32"
  shows "\<exists>m'. readseg sectors pa count offset m = Ok m' \<and>
    (\<forall>i < unat count. m' (pa + of_nat i) = image_byte sectors (unat offset + i)) \<and>
    (\<forall>a. unat a < unat pa - unat offset mod 512 \<or> unat pa + unat count + 512 \<le> unat a \<longrightarrow> m' a = m a)"
proof -
  define r where "r = unat offset mod 512"
  have r: "unat (offset mod 512) = r" by (simp add: r_def unat_mod_distrib)
  have r512: "r < 512" by (simp add: r_def)
  define pa0 where "pa0 = pa - offset mod 512"
  have pa0: "unat pa0 = unat pa - r" using assms(1) r unat_sub [of "offset mod 512" pa] by (simp add: pa0_def word_le_nat_alt)
  have pa: "pa = pa0 + of_nat r" using r by (simp add: pa0_def flip: r)
  have epa: "unat (pa + count) = unat pa + unat count" using assms(2) by (simp add: unat_word_ariths)
  define n where "n = (r + unat count + 511) div 512"
  have n1: "r + unat count \<le> 512 * n" and n2: "512 * n \<le> r + unat count + 511" by (simp_all add: n_def)
  have rp: "r \<le> unat pa" using assms(1) r by simp
  let ?m' = "\<lambda>a. if unat (a - pa0) < 512 * n then sectors (offset div 512 + 1 + of_nat (unat (a - pa0) div 512)) (unat (a - pa0) mod 512) else m a"
  have loop: "readseg sectors pa count offset m = Ok ?m'"
    unfolding readseg_def SECTSIZE_def pa0_def [symmetric]
  proof (rule readseg_loop_ok)
    show "unat pa0 + 512 * n < 2 ^ 32" using n2 rp assms(2) by (simp add: pa0)
    show "unat (pa + count) \<le> unat pa0 + 512 * n" using n1 rp by (simp add: pa0 epa)
    show "n = 0 \<or> unat pa0 + 512 * (n - 1) < unat (pa + count)" using n2 rp by (auto simp: pa0 epa)
  qed
  have "?m' (pa + of_nat i) = image_byte sectors (unat offset + i)" if "i < unat count" for i
  proof -
    have "r + i < 2 ^ 32" using that assms(2) rp by linarith
    then have d: "unat (pa + of_nat i - pa0) = r + i" by (simp add: pa unat_of_nat flip: of_nat_add)
    have q: "offset div 512 = of_nat (unat offset div 512)" 
    proof -
      have "unat offset div 512 < 2 ^ 32" using unat_uint_less [of offset] by simp
      then have "unat offset div 512 mod 2 ^ 32 = unat offset div 512" by (rule mod_less)
      then show ?thesis by (subst word_unat_eq_iff) (simp add: unat_div_distrib unat_of_nat)
    qed
    have o: "unat offset = 512 * (unat offset div 512) + r" by (simp add: r_def)
    have "(unat offset + i) div 512 = unat offset div 512 + (r + i) div 512"
      by (subst o) (simp add: div_add1_eq [symmetric] add.assoc)
    moreover have "(unat offset + i) mod 512 = (r + i) mod 512" by (subst o) (simp add: add.assoc)
    ultimately show ?thesis using n1 that by (simp add: d q image_byte_def ac_simps)
  qed
  moreover have "?m' a = m a" if "unat a < unat pa - r \<or> unat pa + unat count + 512 \<le> unat a" for a
  proof -
    have "512 * n \<le> unat (a - pa0)"
    proof (cases "unat a < unat pa - r")
      case True
      then have "unat (a - pa0) = unat a + 2 ^ 32 - unat pa0" by (simp add: unat_sub_if_size word_size pa0)
      then show ?thesis using n2 rp assms(2) by (simp add: pa0)
    next
      case False
      with that have ge: "unat pa + unat count + 512 \<le> unat a" by simp
      then have "unat (a - pa0) = unat a - (unat pa - r)" using pa0 by (subst unat_sub) (auto simp: word_le_nat_alt)
      with ge n2 rp show ?thesis by linarith
    qed
    then show ?thesis by simp
  qed
  ultimately show ?thesis using loop r_def by blast
qed

theorem readseg_loads_witness:
  "\<exists>m'. readseg (\<lambda>k i. of_nat (unat k + i)) 0x100000 1000 600 (\<lambda>_. 0) = Ok m' \<and> m' (0x100000 + 500) = 79"
proof -
  let ?sectors = "\<lambda>k i. of_nat (unat k + i) :: uchar"
  obtain m' where m': "readseg ?sectors 0x100000 1000 600 (\<lambda>_. 0) = Ok m'"
    "\<forall>i < unat (1000 :: uint). m' (0x100000 + of_nat i) = image_byte ?sectors (unat (600 :: uint) + i)"
    using readseg_loads [of 600 "0x100000" 1000 ?sectors "\<lambda>_. 0"] by auto
  from m'(2) [rule_format, of 500] have "m' (0x100000 + 500) = image_byte ?sectors 1100" by simp
  also have "\<dots> = 79" by (simp add: image_byte_def)
  finally show ?thesis using m'(1) by blast
qed

end
