(* ===== verification/Pagetable.thy ===== *)
theory Pagetable
  imports Vm
begin

text \<open>
  The two-level page tables that \<^verbatim>\<open>walkpgdir\<close> and \<^verbatim>\<open>mappages\<close> of \<^verbatim>\<open>vm.c\<close> build in memory: the entry \<open>pte\<close> a directory
  gives an address, the pages a table occupies, the invariant \<open>pt_inv\<close> that they are distinct managed pages and not
  free, and what a walk and a run of \<^verbatim>\<open>mappages\<close> do to them.
\<close>

section \<open>Aligned words in memory\<close>

lemma unat_mod4_add: "(a :: uint) mod 4 = 0 \<Longrightarrow> k < 4 \<Longrightarrow> unat (a + of_nat k) mod 4 = k"
proof -
  assume a: "a mod 4 = 0" and k: "k < 4"
  have "unat a mod 4 = 0" using a by (simp add: word_unat_eq_iff unat_mod_distrib)
  then have "(unat a + k) mod 4 = k" using k by (metis add.left_neutral mod_add_left_eq mod_less)
  moreover have "unat (a + of_nat k) mod 4 = (unat a + k) mod 4"
    by (simp add: unat_add_of_nat mod_mod_cancel)
  ultimately show ?thesis by simp
qed

lemma aligned4_neq:
  fixes a b :: uint
  assumes "a mod 4 = 0" and "b mod 4 = 0" and "a \<noteq> b" and "j < 4" and "k < 4"
  shows "b + of_nat j \<noteq> a + of_nat k"
proof
  assume e: "b + of_nat j = a + of_nat k"
  then have "j = k" using unat_mod4_add [OF assms(1,5)] unat_mod4_add [OF assms(2,4)] by simp
  with e assms(3) show False by simp
qed

lemma st32_other: "\<forall>k < 4. x \<noteq> a + of_nat k \<Longrightarrow> st32 m a v x = m x"
proof -
  assume h: "\<forall>k < 4. x \<noteq> a + of_nat k"
  show ?thesis using h [rule_format, of 0] h [rule_format, of 1] h [rule_format, of 2] h [rule_format, of 3]
    by (simp add: st32_def)
qed

lemma ld32_st32_aligned:
  fixes a b :: uint
  assumes "a mod 4 = 0" and "b mod 4 = 0" and "a \<noteq> b"
  shows "ld32 (st32 m a v) b = ld32 m b"
  by (rule ld32_cong) (rule st32_other, use aligned4_neq [OF assms] in blast)

section \<open>Slots of a page\<close>

lemma slot_small: "(i :: uint) < 1024 \<Longrightarrow> 4 * i < PGSIZE - 3"
  by (simp add: PGSIZE_def word_less_nat_alt unat_word_ariths)

lemma slot_page: "d mod PGSIZE = 0 \<Longrightarrow> i < 1024 \<Longrightarrow> PGROUNDDOWN (d + 4 * i) = d"
  by (rule PGROUNDDOWN_add_small) (auto simp: PGSIZE_def word_less_nat_alt unat_word_ariths)

lemma slot_aligned4: "d mod PGSIZE = 0 \<Longrightarrow> (d + 4 * i) mod 4 = (0 :: uint)"
proof -
  assume "d mod PGSIZE = 0"
  then obtain q where "unat d = 4096 * q" by (rule aligned_unat)
  then have "unat (d + 4 * i) mod 4 = 0" by (simp add: unat_word_ariths mod_mod_cancel mod_add_right_eq mod_add_left_eq)
  then show ?thesis by (simp add: word_unat_eq_iff unat_mod_distrib)
qed

lemma slot_eq_iff:
  assumes "d mod PGSIZE = 0" and "d' mod PGSIZE = 0" and "i < 1024" and "j < 1024"
  shows "d + 4 * i = d' + 4 * j \<longleftrightarrow> d = d' \<and> i = (j :: uint)"
proof
  assume e: "d + 4 * i = d' + 4 * j"
  then have "d = d'" using slot_page [OF assms(1,3)] slot_page [OF assms(2,4)] by simp
  with e have "4 * i = 4 * j" by simp
  then have "unat (4 * i) = unat (4 * j)" by simp
  then have "i = j" using assms(3,4) by (simp add: word_unat_eq_iff word_less_nat_alt unat_word_ariths)
  with \<open>d = d'\<close> show "d = d' \<and> i = j" by simp
qed simp

lemma ld32_st32_slot:
  assumes "d mod PGSIZE = 0" and "d' mod PGSIZE = 0" and "i < 1024" and "j < 1024"
  shows "ld32 (st32 m (d + 4 * i) v) (d' + 4 * j) = (if d = d' \<and> i = j then v else ld32 m (d' + 4 * j))"
  using ld32_st32_aligned [OF slot_aligned4 [OF assms(1)] slot_aligned4 [OF assms(2)]] slot_eq_iff [OF assms]
  by auto

lemma ld32_same_slot: "same_page m m' d \<Longrightarrow> d mod PGSIZE = 0 \<Longrightarrow> i < 1024 \<Longrightarrow> ld32 m' (d + 4 * i) = ld32 m (d + 4 * i)"
  using ld32_same_page [of m m' d "4 * i"] slot_small by simp

lemma PDX_less: "PDX va < 1024" and PTX_less: "PTX va < 1024"
proof -
  have "x AND mask 10 < (1024 :: uint)" for x :: uint
    using and_mask_less' [of 10 x] by simp
  then show "PDX va < 1024" "PTX va < 1024" by (simp_all add: PDX_def PTX_def mask10)
qed

lemma st32_slot_other_page:
  "d mod PGSIZE = 0 \<Longrightarrow> i < 1024 \<Longrightarrow> x \<noteq> d \<Longrightarrow> same_page m (st32 m (d + 4 * i) v) x"
  using st32_page_other [OF _ _ slot_small] by simp

lemma bit_PGROUNDDOWN: "bit (PGROUNDDOWN v) n \<longleftrightarrow> 12 \<le> n \<and> bit v n"
proof -
  have "PGSIZE - 1 = mask 12" by (simp add: PGSIZE_def mask_eq_exp_minus_1)
  then show ?thesis by (auto simp: PGROUNDDOWN_def bit_simps dest: bit_imp_le_length)
qed

lemma same_vpage_iff: "PGROUNDDOWN va = PGROUNDDOWN va' \<longleftrightarrow> PDX va = PDX va' \<and> PTX va = PTX va'"
proof
  assume e: "PGROUNDDOWN va = PGROUNDDOWN va'"
  note b = bit_PGROUNDDOWN
  have "bit va n = bit va' n" if "12 \<le> n" for n using e that b [of va n] b [of va' n] by simp
  then have "bit (PDX va) n = bit (PDX va') n" "bit (PTX va) n = bit (PTX va') n" for n
    by (auto simp: bit_PDX bit_PTX)
  then show "PDX va = PDX va' \<and> PTX va = PTX va'" by (auto intro: bit_eqI)
next
  assume e: "PDX va = PDX va' \<and> PTX va = PTX va'"
  note b = bit_PGROUNDDOWN
  have "bit va n = bit va' n" if "12 \<le> n" "n < 32" for n
  proof (cases "n < 22")
    case True
    then have "n - 12 < 10" using that by simp
    with that e bit_PTX [of va "n - 12"] bit_PTX [of va' "n - 12"] show ?thesis by simp
  next
    case False
    then have "n - 22 < 10" using that by simp
    with that False e bit_PDX [of va "n - 22"] bit_PDX [of va' "n - 22"] show ?thesis by simp
  qed
  then show "PGROUNDDOWN va = PGROUNDDOWN va'" by (intro bit_word_eqI) (auto simp: b)
qed

section \<open>Page tables\<close>

definition present :: "uint \<Rightarrow> bool" where
  "present e \<longleftrightarrow> e AND PTE_P \<noteq> 0"

definition tab_of :: "uint \<Rightarrow> uint" where
  "tab_of e = P2V (PTE_ADDR e)"

definition pde :: "memory \<Rightarrow> uint \<Rightarrow> uint \<Rightarrow> uint" where
  "pde m d i = ld32 m (d + 4 * i)"

definition tables :: "memory \<Rightarrow> uint \<Rightarrow> uint set" where
  "tables m d = {tab_of (pde m d i) | i. i < 1024 \<and> present (pde m d i)}"

text \<open>The entry for the page of \<open>va\<close>; an entry of a missing table is as good as an empty one.\<close>

definition pte :: "memory \<Rightarrow> uint \<Rightarrow> uint \<Rightarrow> uint" where
  "pte m d va = (if present (pde m d (PDX va)) then ld32 m (tab_of (pde m d (PDX va)) + 4 * PTX va) else 0)"

text \<open>
  A page directory and its tables occupy distinct pages of the memory the allocator manages, and the directory entries
  grant every access.
\<close>

definition pt_ok :: "uint \<Rightarrow> memory \<Rightarrow> uint \<Rightarrow> bool" where
  "pt_ok e m d \<longleftrightarrow> kernel_page e d \<and> d \<notin> tables m d \<and> (\<forall>t \<in> tables m d. kernel_page e t) \<and>
     (\<forall>i < 1024. present (pde m d i) \<longrightarrow> PTE_FLAGS (pde m d i) = PTE_P OR PTE_W OR PTE_U) \<and>
     (\<forall>i < 1024. \<forall>j < 1024. present (pde m d i) \<longrightarrow> present (pde m d j) \<longrightarrow>
        tab_of (pde m d i) = tab_of (pde m d j) \<longrightarrow> i = j)"

definition pt_pages :: "memory \<Rightarrow> uint \<Rightarrow> uint set" where
  "pt_pages m d = insert d (tables m d)"

lemma pt_okD:
  assumes "pt_ok e m d"
  shows "kernel_page e d" "d mod PGSIZE = 0" "d \<notin> tables m d" "t \<in> tables m d \<Longrightarrow> kernel_page e t" "t \<in> tables m d \<Longrightarrow> t mod PGSIZE = 0"
    "x \<in> pt_pages m d \<Longrightarrow> kernel_page e x"
  using assms by (auto simp: pt_ok_def pt_pages_def kernel_page_aligned)

lemma table_in: "i < 1024 \<Longrightarrow> present (pde m d i) \<Longrightarrow> tab_of (pde m d i) \<in> tables m d"
  by (auto simp: tables_def)

lemma table_in_PDX: "present (pde m d (PDX va)) \<Longrightarrow> tab_of (pde m d (PDX va)) \<in> tables m d"
  by (rule table_in [OF PDX_less])

text \<open>A memory in which these pages are the same has the same page table.\<close>

lemma pde_same: "same_page m m' d \<Longrightarrow> d mod PGSIZE = 0 \<Longrightarrow> i < 1024 \<Longrightarrow> pde m' d i = pde m d i"
  by (simp add: pde_def ld32_same_slot)

lemma tables_same: "same_page m m' d \<Longrightarrow> d mod PGSIZE = 0 \<Longrightarrow> tables m' d = tables m d"
  unfolding tables_def by (rule Collect_cong) (metis pde_same)

lemma pt_same:
  assumes "pt_ok e m d" and "\<forall>x \<in> pt_pages m d. same_page m m' x"
  shows "pt_ok e m' d" "pt_pages m' d = pt_pages m d" "tables m' d = tables m d" "pte m' d va = pte m d va"
proof -
  have d: "d mod PGSIZE = 0" and s: "same_page m m' d" using assms by (auto simp: pt_okD pt_pages_def)
  note pde = pde_same [OF s d]
  show t: "tables m' d = tables m d" by (rule tables_same [OF s d])
  then show "pt_pages m' d = pt_pages m d" by (simp add: pt_pages_def)
  show "pt_ok e m' d" using assms(1) by (simp add: pt_ok_def t pde)
  have "ld32 m' (t + 4 * PTX va) = ld32 m (t + 4 * PTX va)" if "t \<in> tables m d" for t
    using assms that by (intro ld32_same_slot) (auto simp: pt_pages_def pt_okD PTX_less)
  then show "pte m' d va = pte m d va" using table_in_PDX by (simp add: pte_def pde PDX_less)
qed

section \<open>Walking\<close>

lemma walkpgdir_noalloc:
  "walkpgdir d va False s =
     ((if present (pde (mem s) d (PDX va)) then tab_of (pde (mem s) d (PDX va)) + 4 * PTX va else 0), s)"
  by (simp add: walkpgdir_def present_def tab_of_def pde_def)

text \<open>Writing the entry of \<open>va\<close> changes that entry only.\<close>

definition pte_addr :: "memory \<Rightarrow> uint \<Rightarrow> uint \<Rightarrow> uint" where
  "pte_addr m d va = tab_of (pde m d (PDX va)) + 4 * PTX va"

lemma store_pte:
  assumes ok: "pt_ok e m d" and p: "present (pde m d (PDX va))"
    and m'_def: "m' = st32 m (pte_addr m d va) v"
  shows "pt_ok e m' d" "tables m' d = tables m d" "pt_pages m' d = pt_pages m d"
    "pte m' d va' = (if PGROUNDDOWN va' = PGROUNDDOWN va then v else pte m d va')"
    "x \<noteq> tab_of (pde m d (PDX va)) \<Longrightarrow> same_page m m' x" "i < 1024 \<Longrightarrow> pde m' d i = pde m d i"
proof -
  let ?t = "tab_of (pde m d (PDX va))"
  have t: "?t \<in> tables m d" by (rule table_in_PDX [OF p])
  have al: "?t mod PGSIZE = 0" "d mod PGSIZE = 0" using ok t by (auto dest: pt_okD)
  have other: "same_page m m' x" if "x \<noteq> ?t" for x
    unfolding m'_def pte_addr_def by (rule st32_slot_other_page [OF al(1) PTX_less that])
  then show "x \<noteq> ?t \<Longrightarrow> same_page m m' x" .
  have "d \<noteq> ?t" using ok t by (auto dest: pt_okD)
  then have s: "same_page m m' d" by (rule other)
  note pde = pde_same [OF s al(2)]
  then show "i < 1024 \<Longrightarrow> pde m' d i = pde m d i" .
  show tb: "tables m' d = tables m d" by (rule tables_same [OF s al(2)])
  then show "pt_pages m' d = pt_pages m d" by (simp add: pt_pages_def)
  show "pt_ok e m' d" using ok by (simp add: pt_ok_def tb pde)
  show "pte m' d va' = (if PGROUNDDOWN va' = PGROUNDDOWN va then v else pte m d va')"
  proof (cases "present (pde m d (PDX va'))")
    case True
    let ?t' = "tab_of (pde m d (PDX va'))"
    have "?t' mod PGSIZE = 0" using ok table_in_PDX [OF True] by (auto dest: pt_okD)
    then have "ld32 m' (?t' + 4 * PTX va') = (if ?t = ?t' \<and> PTX va = PTX va' then v else ld32 m (?t' + 4 * PTX va'))"
      unfolding m'_def pte_addr_def by (intro ld32_st32_slot al PTX_less) 
    moreover have "?t = ?t' \<longleftrightarrow> PDX va = PDX va'"
      using ok p True PDX_less [of va] PDX_less [of va'] by (auto simp: pt_ok_def)
    ultimately show ?thesis using True by (auto simp: pte_def pde PDX_less same_vpage_iff)
  next
    case False
    then have "PDX va' \<noteq> PDX va" using p by auto
    with False show ?thesis by (simp add: pte_def pde PDX_less same_vpage_iff)
  qed
qed

section \<open>Growing a page table\<close>

text \<open>
  A page table beside the free list; the operations that extend it take pages from the list and write
  only pages of the table.
\<close>

definition pt_inv :: "uint \<Rightarrow> 'a kmem_st_scheme \<Rightarrow> uint list \<Rightarrow> bool" where
  "pt_inv d s xs \<longleftrightarrow> kmem_inv s xs \<and> pt_ok (kend s) (mem s) d \<and> set xs \<inter> pt_pages (mem s) d = {}"

text \<open>Only the memory and the free list have changed.\<close>

definition only_mem :: "'a kmem_st_scheme \<Rightarrow> 'a kmem_st_scheme \<Rightarrow> bool" where
  "only_mem s s' \<longleftrightarrow> s' = s\<lparr>mem := mem s', freelist := freelist s'\<rparr>"

lemma only_mem_refl [simp]: "only_mem s s"
  by (simp add: only_mem_def)

lemma only_mem_trans: "only_mem s t \<Longrightarrow> only_mem t u \<Longrightarrow> only_mem s u"
  unfolding only_mem_def by (metis kmem_st.surjective kmem_st.update_convs(1,2))

lemma only_mem_upd [simp]:
  "only_mem s (s\<lparr>mem := m, freelist := f\<rparr>)" "only_mem s (s\<lparr>mem := m\<rparr>)" "only_mem s (s\<lparr>freelist := f\<rparr>)"
  "only_mem s (store32 a v s)" "only_mem s (zero_page a s)"
  by (simp_all add: only_mem_def store32_def zero_page_def)

lemma only_mem_kend: "only_mem s s' \<Longrightarrow> kend s' = kend s"
  unfolding only_mem_def by (metis kmem_st.select_convs(4) kmem_st.surjective kmem_st.update_convs(1,2))

definition pt_step :: "uint \<Rightarrow> 'a kmem_st_scheme \<Rightarrow> uint list \<Rightarrow> 'a kmem_st_scheme \<Rightarrow> uint list \<Rightarrow> bool" where
  "pt_step d s xs s' ys \<longleftrightarrow> pt_inv d s' ys \<and> only_mem s s' \<and> set ys \<subseteq> set xs \<and>
     pt_pages (mem s') d = pt_pages (mem s) d \<union> (set xs - set ys) \<and>
     (\<forall>x. x \<notin> pt_pages (mem s') d \<longrightarrow> same_page (mem s) (mem s') x)"

lemma pt_step_refl: "pt_inv d s xs \<Longrightarrow> pt_step d s xs s xs"
  by (auto simp: pt_step_def)

lemma pt_step_trans:
  assumes a: "pt_step d s xs t ys" and b: "pt_step d t ys u zs"
  shows "pt_step d s xs u zs"
proof -
  have "only_mem s u" using a b only_mem_trans unfolding pt_step_def by blast
  moreover have "same_page (mem s) (mem u) x" if "x \<notin> pt_pages (mem u) d" for x
  proof -
    have "x \<notin> pt_pages (mem t) d" using that b unfolding pt_step_def by blast
    then have "same_page (mem s) (mem t) x" using a unfolding pt_step_def by blast
    moreover have "same_page (mem t) (mem u) x" using that b unfolding pt_step_def by blast
    ultimately show ?thesis by (rule same_page_trans)
  qed
  moreover have "pt_pages (mem u) d = pt_pages (mem s) d \<union> (set xs - set zs)" "set zs \<subseteq> set xs" "pt_inv d u zs"
    using a b unfolding pt_step_def by blast+
  ultimately show ?thesis unfolding pt_step_def by blast
qed

lemma pt_step_kend: "pt_step d s xs s' ys \<Longrightarrow> kend s' = kend s"
  by (auto simp: pt_step_def only_mem_kend)

lemma pt_inv_store:
  assumes i: "pt_inv d s xs" and p: "present (pde (mem s) d (PDX va))"
    and s'_def: "s' = store32 (pte_addr (mem s) d va) v s"
  shows "pt_step d s xs s' xs"
    "pte (mem s') d va' = (if PGROUNDDOWN va' = PGROUNDDOWN va then v else pte (mem s) d va')"
proof -
  have ok: "pt_ok (kend s) (mem s) d" using i by (simp add: pt_inv_def)
  have m': "mem s' = st32 (mem s) (pte_addr (mem s) d va) v" by (simp add: s'_def store32_def)
  note st = store_pte [OF ok p m']
  show "pte (mem s') d va' = (if PGROUNDDOWN va' = PGROUNDDOWN va then v else pte (mem s) d va')" by (rule st(4))
  let ?t = "tab_of (pde (mem s) d (PDX va))"
  have t: "?t \<in> pt_pages (mem s) d" using table_in_PDX [OF p] by (simp add: pt_pages_def)
  have frame: "same_page (mem s) (mem s') x" if "x \<notin> pt_pages (mem s) d" for x
  proof (rule st(5))
    show "x \<noteq> ?t" using t that by auto
  qed
  have "kmem_inv s' xs"
    by (rule kmem_inv_same_pages [of s]) (use i frame in \<open>auto simp: pt_inv_def s'_def store32_def\<close>)
  then have "pt_inv d s' xs" using i st(1,3) by (simp add: pt_inv_def s'_def store32_def)
  then show "pt_step d s xs s' xs"
    using frame st(3) by (auto simp: pt_step_def s'_def)
qed

lemma flags_or_aligned: "a mod PGSIZE = 0 \<Longrightarrow> f < 4096 \<Longrightarrow> PTE_ADDR (a OR f) = a \<and> PTE_FLAGS (a OR f) = f"
proof -
  assume a: "a mod PGSIZE = 0" and f: "f < 4096"
  have "a AND 0xFFF = 0" using a by (simp add: and_mask12 PGSIZE_def)
  then have za: "bit (a AND mask 12) n = bit (0 :: uint) n" for n by (simp only: mask12)
  have an: "\<not> bit a n" if "n < 12" for n using za [of n] that by (simp add: bit_simps)
  have "f AND 0xFFF = f" using f by (simp add: and_mask12 word_unat_eq_iff unat_mod_distrib word_less_nat_alt)
  then have zf: "bit (f AND mask 12) n = bit f n" for n by (simp only: mask12)
  have fn: "\<not> bit f n" if "\<not> n < 12" for n using zf [of n] that by (simp add: bit_simps)
  have "PTE_ADDR (a OR f) = a"
    unfolding PTE_ADDR_def mask12 by (rule bit_word_eqI) (auto simp: bit_simps dest: an fn)
  moreover have "PTE_FLAGS (a OR f) = f"
    unfolding PTE_FLAGS_def mask12 by (rule bit_word_eqI) (use an fn in \<open>auto simp: bit_simps\<close>)
  ultimately show ?thesis by simp
qed

lemma V2P_aligned: "kernel_page e v \<Longrightarrow> V2P v mod PGSIZE = 0"
proof -
  assume v: "kernel_page e v"
  then obtain q where q: "unat v = 4096 * q" using aligned_unat kernel_page_aligned by metis
  have "unat (V2P v) = unat v - 0x80000000"
    using unat_kernel_page [OF v] unat_sub [of "0x80000000" v] by (simp add: V2P_def KERNBASE_def word_le_nat_alt)
  then show ?thesis using q by (simp add: aligned_iff)
qed

lemma new_pde:
  assumes "kernel_page e t"
  shows "present (V2P t OR PTE_P OR PTE_W OR PTE_U)" "tab_of (V2P t OR PTE_P OR PTE_W OR PTE_U) = t"
    "PTE_FLAGS (V2P t OR PTE_P OR PTE_W OR PTE_U) = PTE_P OR PTE_W OR PTE_U"
proof -
  have "PTE_P OR PTE_W OR PTE_U = 7" by (simp add: PTE_P_def PTE_W_def PTE_U_def)
  then have "PTE_ADDR (V2P t OR PTE_P OR PTE_W OR PTE_U) = V2P t \<and> PTE_FLAGS (V2P t OR PTE_P OR PTE_W OR PTE_U) = PTE_P OR PTE_W OR PTE_U"
    using flags_or_aligned [OF V2P_aligned [OF assms], of 7] by (simp add: or.assoc)
  then show "tab_of (V2P t OR PTE_P OR PTE_W OR PTE_U) = t"
    "PTE_FLAGS (V2P t OR PTE_P OR PTE_W OR PTE_U) = PTE_P OR PTE_W OR PTE_U" by (simp_all add: tab_of_def)
  have "(V2P t OR PTE_P OR PTE_W OR PTE_U) AND PTE_P = PTE_P" by (rule bit_word_eqI) (auto simp: bit_simps)
  then show "present (V2P t OR PTE_P OR PTE_W OR PTE_U)" by (simp add: present_def PTE_P_def)
qed

lemma zero_page_slots:
  assumes "t mod PGSIZE = 0" and "j < 1024"
  shows "ld32 (memset m t 0 PGSIZE) (t + 4 * j) = 0"
proof -
  have "memset m t 0 PGSIZE (t + (4 * j + of_nat k)) = 0" if "k < 4" for k :: nat
  proof -
    have "unat (4 * j) = 4 * unat j" using assms(2) by (simp add: unat_word_ariths word_less_nat_alt)
    then have "4 * j + of_nat k < PGSIZE"
      using that assms(2) by (simp add: PGSIZE_def word_less_nat_alt unat_add_of_nat)
    then show ?thesis by (simp add: memset_fills mem_fill_def)
  qed
  from this [of 0] this [of 1] this [of 2] this [of 3] show ?thesis by (simp add: ld32_def add.assoc)
qed

text \<open>\<^verbatim>\<open>walkpgdir\<close> adds an empty table when there is none: no mapping changes.\<close>

lemma walkpgdir_new:
  assumes i: "pt_inv d s (t # ys)" and np: "\<not> present (pde (mem s) d (PDX va))"
  defines "s' \<equiv> store32 (d + 4 * PDX va) (V2P t OR PTE_P OR PTE_W OR PTE_U) (zero_page t (s\<lparr>freelist := ld32 (mem s) t\<rparr>))"
  shows "walkpgdir d va True s = (t + 4 * PTX va, s')" "pt_step d s (t # ys) s' ys"
    "present (pde (mem s') d (PDX va))" "tab_of (pde (mem s') d (PDX va)) = t" "pte (mem s') d va' = pte (mem s) d va'"
proof -
  have inv: "kmem_inv s (t # ys)" and ok: "pt_ok (kend s) (mem s) d" and dj: "set (t # ys) \<inter> pt_pages (mem s) d = {}"
    using i by (simp_all add: pt_inv_def)
  have kt: "kernel_page (kend s) t" using inv by (simp add: kmem_inv_def)
  have t0: "t \<noteq> 0" by (rule kernel_page_nonzero [OF kt])
  note ka = kalloc_head [OF inv]
  show "walkpgdir d va True s = (t + 4 * PTX va, s')"
    using np t0 by (simp add: walkpgdir_def ka(1) s'_def present_def pde_def)
  have td: "t \<noteq> d" "t \<notin> tables (mem s) d" using dj by (auto simp: pt_pages_def)
  have al: "t mod PGSIZE = 0" "d mod PGSIZE = 0" using kernel_page_aligned [OF kt] pt_okD(2) [OF ok] by simp_all
  let ?e = "V2P t OR PTE_P OR PTE_W OR PTE_U"
  let ?z = "memset (mem s) t 0 PGSIZE"
  have m': "mem s' = st32 ?z (d + 4 * PDX va) ?e" by (simp add: s'_def store32_def zero_page_def)
  have frame: "same_page (mem s) (mem s') x" if "x \<noteq> t" "x \<noteq> d" for x
    unfolding m' using same_page_trans [OF memset_page_other [OF al(1) that(1)] st32_slot_other_page [OF al(2) PDX_less that(2)]] .
  have pde': "pde (mem s') d j = (if j = PDX va then ?e else pde (mem s) d j)" if "j < 1024" for j
    using ld32_st32_slot [OF al(2) al(2) PDX_less that, where m = ?z and v = ?e and va1 = va]
      ld32_same_slot [OF memset_page_other [OF al(1), of d] al(2) that] td(1)
    by (auto simp: pde_def m')
  show p': "present (pde (mem s') d (PDX va))" "tab_of (pde (mem s') d (PDX va)) = t"
    by (simp_all add: pde' PDX_less new_pde [OF kt])
  have tb: "tables (mem s') d = insert t (tables (mem s) d)"
  proof (intro set_eqI iffI)
    fix x assume "x \<in> tables (mem s') d"
    then obtain j where "j < 1024" "present (pde (mem s') d j)" "x = tab_of (pde (mem s') d j)" by (auto simp: tables_def)
    then show "x \<in> insert t (tables (mem s) d)"
      by (cases "j = PDX va") (auto simp: pde' new_pde(2) [OF kt] intro: table_in)
  next
    fix x assume x: "x \<in> insert t (tables (mem s) d)"
    show "x \<in> tables (mem s') d"
    proof (cases "x = t")
      case True
      then show ?thesis using table_in [OF PDX_less p'(1)] p'(2) by simp
    next
      case False
      with x obtain j where j: "j < 1024" "present (pde (mem s) d j)" "x = tab_of (pde (mem s) d j)" by (auto simp: tables_def)
      then have "j \<noteq> PDX va" using np by auto
      then show ?thesis using table_in [of j "mem s'" d] j by (simp add: pde')
    qed
  qed
  have pg: "pt_pages (mem s') d = insert t (pt_pages (mem s) d)" using tb by (auto simp: pt_pages_def)
  have ok': "pt_ok (kend s) (mem s') d"
    unfolding pt_ok_def
  proof (intro conjI allI impI ballI)
    show "kernel_page (kend s) d" by (rule pt_okD(1) [OF ok])
    show "d \<notin> tables (mem s') d" using td pt_okD(3) [OF ok] by (simp add: tb)
    show "kernel_page (kend s) x" if "x \<in> tables (mem s') d" for x using that kt pt_okD(4) [OF ok] by (auto simp: tb)
    show "PTE_FLAGS (pde (mem s') d j) = PTE_P OR PTE_W OR PTE_U" if "j < 1024" "present (pde (mem s') d j)" for j
      using that ok new_pde(3) [OF kt] by (auto simp: pde' pt_ok_def split: if_splits)
    fix j k assume jk: "j < 1024" "k < 1024" "present (pde (mem s') d j)" "present (pde (mem s') d k)"
      "tab_of (pde (mem s') d j) = tab_of (pde (mem s') d k)"
    have old: "tab_of (pde (mem s) d h) \<noteq> t" if "h < 1024" "present (pde (mem s) d h)" for h
      using table_in [OF that] td(2) by auto
    show "j = k"
      using jk ok old new_pde(2) [OF kt] by (auto simp: pde' pt_ok_def split: if_splits)
  qed
  have "kmem_inv s' ys"
  proof (rule kmem_inv_same_pages [OF ka(2)])
    show "same_page (mem (s\<lparr>freelist := ld32 (mem s) t\<rparr>)) (mem s') x" if "x \<in> set ys" for x
    proof -
      have "x \<noteq> t" "x \<noteq> d" using that inv dj by (auto simp: kmem_inv_def pt_pages_def)
      then show ?thesis using frame by simp
    qed
  qed (simp_all add: s'_def store32_def zero_page_def)
  moreover have "kend s' = kend s" by (simp add: s'_def store32_def zero_page_def)
  moreover have "set ys \<inter> pt_pages (mem s') d = {}" using dj inv by (auto simp: pg kmem_inv_def)
  ultimately have "pt_inv d s' ys" using ok' by (simp add: pt_inv_def)
  moreover have "only_mem s s'" by (simp add: only_mem_def s'_def store32_def zero_page_def)
  moreover have "t \<notin> set ys" using inv by (simp add: kmem_inv_def)
  ultimately show "pt_step d s (t # ys) s' ys" using frame unfolding pt_step_def pg by (auto simp: pt_pages_def)
  show "pte (mem s') d va' = pte (mem s) d va'"
  proof (cases "PDX va' = PDX va")
    case True
    then have "pte (mem s') d va' = ld32 (mem s') (t + 4 * PTX va')" using p' by (simp add: pte_def)
    also have "\<dots> = ld32 ?z (t + 4 * PTX va')"
      unfolding m' using ld32_st32_slot [OF al(2,1) PDX_less PTX_less] td(1) by auto
    also have "\<dots> = 0" by (rule zero_page_slots [OF al(1) PTX_less])
    finally show ?thesis using True np by (simp add: pte_def)
  next
    case False
    then have e: "pde (mem s') d (PDX va') = pde (mem s) d (PDX va')" by (simp add: pde' PDX_less)
    have "ld32 (mem s') (x + 4 * PTX va') = ld32 (mem s) (x + 4 * PTX va')" if "x \<in> tables (mem s) d" for x
      using that td pt_okD(3,5) [OF ok] by (intro ld32_same_slot frame PTX_less) auto
    then show ?thesis using table_in_PDX by (simp add: pte_def e)
  qed
qed

section \<open>\<^verbatim>\<open>mappages\<close>\<close>

text \<open>The number of the page of \<open>va\<close>, counted from the page at \<open>a\<close> and around the end of the address space.\<close>

definition vidx :: "uint \<Rightarrow> uint \<Rightarrow> nat" where
  "vidx a va = unat (PGROUNDDOWN va - a) div 4096"

lemma diff_aligned:
  assumes "(x :: uint) mod PGSIZE = 0" and "a mod PGSIZE = 0"
  shows "(x - a) mod PGSIZE = 0"
proof -
  have "PGROUNDDOWN x = x" "PGROUNDDOWN a = a" using assms by (simp_all add: PGROUNDDOWN_eq)
  obtain p q where "unat x = 4096 * p" "unat a = 4096 * q" using assms by (metis aligned_unat)
  then show ?thesis by (simp add: aligned_iff unat_sub_if_size word_size)
qed

lemma unat_vidx: "a mod PGSIZE = 0 \<Longrightarrow> unat (PGROUNDDOWN va - a) = 4096 * vidx a va"
  using diff_aligned [of "PGROUNDDOWN va" a] mult_div_mod_eq [of 4096 "unat (PGROUNDDOWN va - a)"]
  by (simp add: vidx_def aligned_iff)

lemma vidx_0_iff: "a mod PGSIZE = 0 \<Longrightarrow> vidx a va = 0 \<longleftrightarrow> PGROUNDDOWN va = a"
  using unat_vidx [of a va] unat_eq_0 [of "PGROUNDDOWN va - a"] by auto

lemma vidx_less: "vidx a va < 2 ^ 20"
proof -
  have "unat (PGROUNDDOWN va - a) < 4096 * 2 ^ 20" using unat_uint_less [of "PGROUNDDOWN va - a"] by simp
  then show ?thesis by (simp add: vidx_def less_mult_imp_div_less)
qed

lemma vidx_next:
  assumes "a mod PGSIZE = 0"
  shows "vidx (a + PGSIZE) va = (if vidx a va = 0 then 2 ^ 20 - 1 else vidx a va - 1)"
proof -
  let ?w = "PGROUNDDOWN va - a"
  have w: "unat ?w = 4096 * vidx a va" by (rule unat_vidx [OF assms])
  have "unat (PGROUNDDOWN va - (a + PGSIZE)) = unat (?w - 4096)" by (simp add: PGSIZE_def diff_diff_eq)
  also have "\<dots> = (if vidx a va = 0 then 2 ^ 32 - 4096 else 4096 * (vidx a va - 1))"
    using w by (auto simp: unat_sub_if_size word_size right_diff_distrib')
  finally show ?thesis by (simp add: vidx_def)
qed

text \<open>The entries after the first \<open>j\<close> pages from \<open>a\<close> have been mapped to the frames from \<open>pa\<close>.\<close>

definition map_entries :: "nat \<Rightarrow> uint \<Rightarrow> uint \<Rightarrow> uint \<Rightarrow> (uint \<Rightarrow> uint) \<Rightarrow> uint \<Rightarrow> uint" where
  "map_entries j a pa perm f va =
     (if vidx a va < j then (pa + (PGROUNDDOWN va - a)) OR perm OR PTE_P else f va)"

lemma map_entries_0 [simp]: "map_entries 0 a pa perm f = f"
  by (simp add: map_entries_def fun_eq_iff)

lemma map_entries_Suc:
  assumes "a mod PGSIZE = 0" and "j < 2 ^ 20"
  shows "map_entries j (a + PGSIZE) (pa + PGSIZE) perm (\<lambda>va. if PGROUNDDOWN va = a then pa OR perm OR PTE_P else f va) =
    map_entries (Suc j) a pa perm f"
proof
  fix va
  show "map_entries j (a + PGSIZE) (pa + PGSIZE) perm (\<lambda>va. if PGROUNDDOWN va = a then pa OR perm OR PTE_P else f va) va =
    map_entries (Suc j) a pa perm f va"
    using vidx_next [OF assms(1), of va] vidx_0_iff [OF assms(1), of va] assms(2)
    by (auto simp: map_entries_def)
qed

lemma pte_addr_nonzero:
  assumes ok: "pt_ok e m d" and p: "present (pde m d (PDX va))"
  shows "pte_addr m d va \<noteq> 0"
proof
  assume z: "pte_addr m d va = 0"
  have kt: "kernel_page e (tab_of (pde m d (PDX va)))" using pt_okD(4) [OF ok table_in_PDX [OF p]] .
  then have "PGROUNDDOWN 0 = tab_of (pde m d (PDX va))"
    using slot_page [OF kernel_page_aligned [OF kt] PTX_less, of va] z by (simp add: pte_addr_def)
  then show False using kernel_page_nonzero [OF kt] by (simp add: PGROUNDDOWN_def)
qed

lemma pte_addr_pte: "present (pde m d (PDX va)) \<Longrightarrow> ld32 m (pte_addr m d va) = pte m d va"
  by (simp add: pte_def pte_addr_def)

lemma store_at:
  assumes i: "pt_inv d t ys" and p: "present (pde (mem t) d (PDX a))" and a: "a mod PGSIZE = 0"
    and np: "\<not> present (pte (mem t) d a)" and t': "t' = store32 (pte_addr (mem t) d a) v t"
  shows "pte_addr (mem t) d a \<noteq> 0" "\<not> present (ld32 (mem t) (pte_addr (mem t) d a))" "pt_step d t ys t' ys"
    "pte (mem t') d va = (if PGROUNDDOWN va = a then v else pte (mem t) d va)"
proof -
  have ok: "pt_ok (kend t) (mem t) d" using i by (simp add: pt_inv_def)
  show "pte_addr (mem t) d a \<noteq> 0" by (rule pte_addr_nonzero [OF ok p])
  show "\<not> present (ld32 (mem t) (pte_addr (mem t) d a))" using np by (simp add: pte_addr_pte [OF p])
  have "PGROUNDDOWN a = a" using a by (simp add: PGROUNDDOWN_eq)
  then show "pte (mem t') d va = (if PGROUNDDOWN va = a then v else pte (mem t) d va)"
    using pt_inv_store(2) [OF i p t'] by simp
  show "pt_step d t ys t' ys" by (rule pt_inv_store(1) [OF i p t'])
qed

lemma mappages_first:
  assumes i: "pt_inv d s xs" and np: "\<not> present (pte (mem s) d a)" and a: "a mod PGSIZE = 0"
  shows "(xs = [] \<and> walkpgdir d a True s = (0, s)) \<or>
    (\<exists>p t ys. walkpgdir d a True s = (p, t) \<and> p \<noteq> 0 \<and> \<not> present (ld32 (mem t) p) \<and>
       pt_step d s xs (store32 p v t) ys \<and>
       (\<forall>va. pte (mem (store32 p v t)) d va = (if PGROUNDDOWN va = a then v else pte (mem s) d va)))"
proof (cases "present (pde (mem s) d (PDX a))")
  case True
  have "walkpgdir d a True s = (pte_addr (mem s) d a, s)"
    using True by (simp add: walkpgdir_def present_def tab_of_def pde_def pte_addr_def)
  then show ?thesis using store_at [OF i True a np refl] by blast
next
  case False
  show ?thesis
  proof (cases xs)
    case Nil
    then have "kmem_inv s []" using i by (simp add: pt_inv_def)
    then show ?thesis using False Nil by (simp add: walkpgdir_def kalloc_empty present_def pde_def)
  next
    case (Cons t ys)
    note new = walkpgdir_new [OF i [unfolded Cons] False]
    define u where "u = snd (walkpgdir d a True s)"
    have w: "walkpgdir d a True s = (t + 4 * PTX a, u)" and step: "pt_step d s (t # ys) u ys"
      and pr: "present (pde (mem u) d (PDX a))" and ad: "pte_addr (mem u) d a = t + 4 * PTX a"
      and same: "\<And>va. pte (mem u) d va = pte (mem s) d va"
      using new by (simp_all add: u_def pte_addr_def)
    have iu: "pt_inv d u ys" using step by (simp add: pt_step_def)
    have np': "\<not> present (pte (mem u) d a)" using np same by simp
    note st = store_at [where v = v, OF iu pr a np' refl, unfolded ad]
    have "pt_step d s xs (store32 (t + 4 * PTX a) v u) ys" unfolding Cons by (rule pt_step_trans [OF step st(3)])
    moreover have "\<forall>va. pte (mem (store32 (t + 4 * PTX a) v u)) d va = (if PGROUNDDOWN va = a then v else pte (mem s) d va)"
      using st(4) same by simp
    ultimately show ?thesis using w st(1,2) by blast
  qed
qed

text \<open>
  The loop of \<^verbatim>\<open>mappages\<close> over \<open>n + 1\<close> unmapped pages: it maps all of them, or the first few when the
  allocator has no page left for a table.
\<close>

lemma mappages_loop_ok:
  assumes "pt_inv d s xs" and "a mod PGSIZE = 0" and "n < 2 ^ 20"
    and "\<forall>va. vidx a va \<le> n \<longrightarrow> \<not> present (pte (mem s) d va)"
  shows "\<exists>r s' ys j. mappages_loop n d a pa perm s = Ok (r, s') \<and> pt_step d s xs s' ys \<and>
    pte (mem s') d = map_entries j a pa perm (pte (mem s) d) \<and> (r = 0 \<and> j = Suc n \<or> r = -1 \<and> j \<le> n \<and> ys = [])"
  using assms
proof (induction n arbitrary: a pa s xs)
  case 0
  have np: "\<not> present (pte (mem s) d a)" using 0(4) vidx_0_iff [OF 0(2), of a] 0(2) by (simp add: PGROUNDDOWN_eq)
  from mappages_first [OF 0(1) np 0(2), of "pa OR perm OR PTE_P"] show ?case
  proof (elim disjE exE conjE)
    assume "xs = []" "walkpgdir d a True s = (0, s)"
    then show ?thesis using pt_step_refl [OF 0(1)] by (intro exI [of _ "-1"] exI [of _ s] exI [of _ "[]"] exI [of _ 0]) simp
  next
    fix p t ys
    assume w: "walkpgdir d a True s = (p, t)" "p \<noteq> 0" "\<not> present (ld32 (mem t) p)"
      and st: "pt_step d s xs (store32 p (pa OR perm OR PTE_P) t) ys"
      and e: "\<forall>va. pte (mem (store32 p (pa OR perm OR PTE_P) t)) d va = (if PGROUNDDOWN va = a then pa OR perm OR PTE_P else pte (mem s) d va)"
    have "pte (mem (store32 p (pa OR perm OR PTE_P) t)) d = map_entries (Suc 0) a pa perm (pte (mem s) d)"
      using e map_entries_Suc [OF 0(2), of 0 pa perm "pte (mem s) d"] by (simp add: fun_eq_iff)
    then show ?thesis using w st by (auto simp: present_def Let_def)
  qed
next
  case (Suc n)
  note a = Suc.prems(2)
  have np: "\<not> present (pte (mem s) d a)" using Suc.prems(4) vidx_0_iff [OF a, of a] a by (simp add: PGROUNDDOWN_eq)
  let ?v = "pa OR perm OR PTE_P"
  from mappages_first [OF Suc.prems(1) np a, of ?v] show ?case
  proof (elim disjE exE conjE)
    assume "xs = []" "walkpgdir d a True s = (0, s)"
    then show ?thesis using pt_step_refl [OF Suc.prems(1)] by (intro exI [of _ "-1"] exI [of _ s] exI [of _ "[]"] exI [of _ 0]) simp
  next
    fix p t ys
    assume w: "walkpgdir d a True s = (p, t)" "p \<noteq> 0" "\<not> present (ld32 (mem t) p)"
      and st: "pt_step d s xs (store32 p ?v t) ys"
      and e: "\<forall>va. pte (mem (store32 p ?v t)) d va = (if PGROUNDDOWN va = a then ?v else pte (mem s) d va)"
    let ?u = "store32 p ?v t"
    have run: "mappages_loop (Suc n) d a pa perm s = mappages_loop n d (a + PGSIZE) (pa + PGSIZE) perm ?u"
      using w by (simp add: present_def)
    have "\<exists>r s' zs j. mappages_loop n d (a + PGSIZE) (pa + PGSIZE) perm ?u = Ok (r, s') \<and> pt_step d ?u ys s' zs \<and>
      pte (mem s') d = map_entries j (a + PGSIZE) (pa + PGSIZE) perm (pte (mem ?u) d) \<and> (r = 0 \<and> j = Suc n \<or> r = -1 \<and> j \<le> n \<and> zs = [])"
    proof (rule Suc.IH)
      show "pt_inv d ?u ys" using st by (simp add: pt_step_def)
      show "(a + PGSIZE) mod PGSIZE = 0" by (rule aligned_add_PGSIZE [OF a])
      show "n < 2 ^ 20" using Suc.prems(3) by simp
      show "\<forall>va. vidx (a + PGSIZE) va \<le> n \<longrightarrow> \<not> present (pte (mem ?u) d va)"
        using Suc.prems(3,4) vidx_next [OF a] vidx_0_iff [OF a] e by (auto split: if_splits)
    qed
    then obtain r s' zs j where r: "mappages_loop n d (a + PGSIZE) (pa + PGSIZE) perm ?u = Ok (r, s')" "pt_step d ?u ys s' zs"
      "pte (mem s') d = map_entries j (a + PGSIZE) (pa + PGSIZE) perm (pte (mem ?u) d)" "r = 0 \<and> j = Suc n \<or> r = -1 \<and> j \<le> n \<and> zs = []"
      by blast
    have pu: "pte (mem ?u) d = (\<lambda>va. if PGROUNDDOWN va = a then ?v else pte (mem s) d va)" using e by (simp add: fun_eq_iff)
    have "j < 2 ^ 20" using r(4) Suc.prems(3) by auto
    then have "pte (mem s') d = map_entries (Suc j) a pa perm (pte (mem s) d)"
      unfolding r(3) pu by (rule map_entries_Suc [OF a])
    moreover have "pt_step d s xs s' zs" by (rule pt_step_trans [OF st r(2)])
    ultimately show ?thesis using run r(1,4) by (intro exI [of _ r] exI [of _ s'] exI [of _ zs] exI [of _ "Suc j"]) auto
  qed
qed

end
