(* ===== verification/Uvm.thy ===== *)
theory Uvm
  imports Pagetable
begin

text \<open>
  User address spaces, on the page tables of \<^verbatim>\<open>Pagetable\<close>.  \<open>umem\<close> is what an address space is to a process, a partial
  map from addresses to bytes; \<open>space\<close> is the invariant that the pages an address space owns and the free pages are
  disjoint; \<^verbatim>\<open>deallocuvm\<close>, \<^verbatim>\<open>allocuvm\<close> and \<^verbatim>\<open>freevm\<close> of \<^verbatim>\<open>vm.c\<close> keep it and move pages without losing one.
\<close>

section \<open>Frames\<close>

text \<open>
  The page frames the entries for addresses in \<open>P\<close> map, and the condition that they are ordinary pages, one for each
  entry, and not pages of the table itself.
\<close>

definition frame_of :: "memory \<Rightarrow> uint \<Rightarrow> uint \<Rightarrow> uint" where
  "frame_of m d va = tab_of (pte m d va)"

definition frames :: "memory \<Rightarrow> uint \<Rightarrow> uint set \<Rightarrow> uint set" where
  "frames m d P = {frame_of m d va | va. va \<in> P \<and> present (pte m d va)}"

definition user_ok :: "uint \<Rightarrow> memory \<Rightarrow> uint \<Rightarrow> uint set \<Rightarrow> bool" where
  "user_ok e m d P \<longleftrightarrow> (\<forall>f \<in> frames m d P. kernel_page e f) \<and> frames m d P \<inter> pt_pages m d = {} \<and>
     (\<forall>va \<in> P. \<forall>vb \<in> P. present (pte m d va) \<longrightarrow> present (pte m d vb) \<longrightarrow> frame_of m d va = frame_of m d vb \<longrightarrow>
        PGROUNDDOWN va = PGROUNDDOWN vb)"

text \<open>The addresses of the pages from \<open>a\<close> up to the one that holds the last byte below \<open>b\<close>.\<close>

definition pages_in :: "uint \<Rightarrow> uint \<Rightarrow> uint set" where
  "pages_in a b = {va. a \<le> PGROUNDDOWN va \<and> PGROUNDDOWN va < b}"

definition clear_entries :: "uint set \<Rightarrow> (uint \<Rightarrow> uint) \<Rightarrow> uint \<Rightarrow> uint" where
  "clear_entries P f va = (if va \<in> P \<and> present (f va) then 0 else f va)"

lemma frameI: "va \<in> P \<Longrightarrow> present (pte m d va) \<Longrightarrow> frame_of m d va \<in> frames m d P"
  by (auto simp: frames_def)

lemma pte_page: "PGROUNDDOWN va = PGROUNDDOWN vb \<Longrightarrow> pte m d va = pte m d vb"
  by (simp add: pte_def same_vpage_iff)

lemma frame_nonzero_addr:
  assumes "kernel_page e (tab_of x)" and "KERNBASE < e"
  shows "PTE_ADDR x \<noteq> 0"
proof
  assume "PTE_ADDR x = 0"
  then have "tab_of x = KERNBASE" by (simp add: tab_of_def P2V_def)
  with assms show False by (auto simp: kernel_page_def)
qed

lemma pages_in_split:
  assumes "a mod PGSIZE = 0" and "a < b" and "a + PGSIZE \<noteq> 0"
  shows "pages_in a b = {va. PGROUNDDOWN va = a} \<union> pages_in (a + PGSIZE) b"
proof -
  have "a \<le> x \<longleftrightarrow> x = a \<or> a + PGSIZE \<le> x" if al: "x mod PGSIZE = 0" for x
  proof -
    obtain p where p: "unat a = 4096 * p" using assms(1) by (rule aligned_unat)
    obtain q where q: "unat x = 4096 * q" using al by (rule aligned_unat)
    have "unat a + 4096 \<noteq> 2 ^ 32"
    proof
      assume "unat a + 4096 = 2 ^ 32"
      then have "unat (a + PGSIZE) = 0" by (simp add: PGSIZE_def unat_word_ariths)
      with assms(3) show False by (simp add: unat_eq_0)
    qed
    then have "unat (a + PGSIZE) = unat a + 4096"
      using p unat_uint_less [of a] by (simp add: PGSIZE_def unat_word_ariths)
    then show ?thesis using p q by (auto simp: word_le_nat_alt word_unat_eq_iff)
  qed
  then have "a \<le> PGROUNDDOWN va \<longleftrightarrow> PGROUNDDOWN va = a \<or> a + PGSIZE \<le> PGROUNDDOWN va" for va by simp
  then show ?thesis using assms(2) by (auto simp: pages_in_def)
qed

text \<open>
  The memory around a step that frees pages: what remains of the table, the free list and all pages that are not freed.
\<close>

definition pt_free :: "uint \<Rightarrow> uint set \<Rightarrow> 'a kmem_st_scheme \<Rightarrow> uint list \<Rightarrow> 'a kmem_st_scheme \<Rightarrow> uint list \<Rightarrow> bool" where
  "pt_free d F s xs s' ys \<longleftrightarrow> pt_inv d s' ys \<and> only_mem s s' \<and> set ys = set xs \<union> F \<and>
     pt_pages (mem s') d = pt_pages (mem s) d \<and> (\<forall>i < 1024. pde (mem s') d i = pde (mem s) d i) \<and>
     (\<forall>x. x \<notin> pt_pages (mem s) d \<longrightarrow> x \<notin> F \<longrightarrow> same_page (mem s) (mem s') x)"

lemma pt_free_refl: "pt_inv d s xs \<Longrightarrow> pt_free d {} s xs s xs"
  by (auto simp: pt_free_def)

lemma pt_free_trans:
  assumes a: "pt_free d F s xs t ys" and b: "pt_free d G t ys u zs"
  shows "pt_free d (F \<union> G) s xs u zs"
proof -
  have "only_mem s u" using a b only_mem_trans unfolding pt_free_def by blast
  moreover have "same_page (mem s) (mem u) x" if "x \<notin> pt_pages (mem s) d" "x \<notin> F \<union> G" for x
  proof (rule same_page_trans)
    show "same_page (mem s) (mem t) x" using that a unfolding pt_free_def by blast
    show "same_page (mem t) (mem u) x" using that a b unfolding pt_free_def by blast
  qed
  ultimately show ?thesis using a b unfolding pt_free_def by auto
qed

text \<open>Freeing the frame of one page and clearing its entry.\<close>

lemma free_one:
  assumes i: "pt_inv d s xs" and u: "user_ok (kend s) (mem s) d P" and va: "va \<in> P" and pr: "present (pte (mem s) d va)"
    and new: "frames (mem s) d P \<inter> set xs = {}"
  shows "\<exists>s'. rbind (kfree (frame_of (mem s) d va) s) (\<lambda>t. Ok (store32 (pte_addr (mem s) d va) 0 t)) = Ok s' \<and>
    pt_free d {frame_of (mem s) d va} s xs s' (frame_of (mem s) d va # xs) \<and>
    (\<forall>vb. pte (mem s') d vb = (if PGROUNDDOWN vb = PGROUNDDOWN va then 0 else pte (mem s) d vb))"
proof -
  let ?f = "frame_of (mem s) d va"
  have f: "?f \<in> frames (mem s) d P" by (rule frameI [OF va pr])
  have kf: "kernel_page (kend s) ?f" using u f by (simp add: user_ok_def)
  have fx: "?f \<notin> set xs" and fp: "?f \<notin> pt_pages (mem s) d" using f new u by (auto simp: user_ok_def)
  have inv: "kmem_inv s xs" and ok: "pt_ok (kend s) (mem s) d" using i by (simp_all add: pt_inv_def)
  obtain t where t: "kfree ?f s = Ok t" "kmem_inv t (?f # xs)" "kend t = kend s" "\<forall>x. x \<noteq> ?f \<longrightarrow> same_page (mem s) (mem t) x"
    using kfree_pushes [OF inv kf fx] by blast
  have tf: "only_mem s t" using t(1) kf by (auto simp: kfree_alt)
  have sp: "\<forall>x \<in> pt_pages (mem s) d. same_page (mem s) (mem t) x" using t(4) fp by metis
  note same = pt_same [OF ok sp]
  have ds: "same_page (mem s) (mem t) d" using sp by (simp add: pt_pages_def)
  note pdet = pde_same [OF ds pt_okD(2) [OF ok]]
  have it: "pt_inv d t (?f # xs)" using t(2,3) same i fp by (auto simp: pt_inv_def)
  have prt: "present (pde (mem t) d (PDX va))" using pr by (auto simp: pte_def pdet PDX_less present_def split: if_splits)
  have ad: "pte_addr (mem t) d va = pte_addr (mem s) d va" by (simp add: pte_addr_def pdet PDX_less)
  define s' where "s' = store32 (pte_addr (mem t) d va) 0 t"
  note st = pt_inv_store [OF it prt s'_def] 
  have ok': "pt_ok (kend t) (mem t) d" using it by (simp add: pt_inv_def)
  have m': "mem s' = st32 (mem t) (pte_addr (mem t) d va) 0" by (simp add: s'_def store32_def)
  note st2 = store_pte [OF ok' prt m']
  have "pt_free d {?f} s xs s' (?f # xs)"
    unfolding pt_free_def
  proof (intro conjI allI impI)
    show "pt_inv d s' (?f # xs)" using st(1) by (simp add: pt_step_def)
    show "only_mem s s'" unfolding s'_def by (rule only_mem_trans [OF tf]) simp
    show "set (?f # xs) = set xs \<union> {?f}" by auto
    show "pt_pages (mem s') d = pt_pages (mem s) d" using st2(3) same(2) by simp
    show "pde (mem s') d j = pde (mem s) d j" if "j < 1024" for j using st2(6) pdet that by simp
    show "same_page (mem s) (mem s') x" if "x \<notin> pt_pages (mem s) d" "x \<notin> {?f}" for x
    proof (rule same_page_trans)
      show "same_page (mem s) (mem t) x" using t(4) that by simp
      have "x \<noteq> tab_of (pde (mem t) d (PDX va))" using table_in_PDX [OF prt] that(1) same(2) by (auto simp: pt_pages_def)
      then show "same_page (mem t) (mem s') x" by (rule st2(5))
    qed
  qed
  moreover have "pte (mem s') d vb = (if PGROUNDDOWN vb = PGROUNDDOWN va then 0 else pte (mem s) d vb)" for vb
    using st(2) same(4) by simp
  ultimately show ?thesis using t(1) by (auto simp: s'_def ad)
qed

section \<open>\<^verbatim>\<open>deallocuvm\<close>\<close>

lemma PDX_unat: "unat (PDX va) = unat va div 2 ^ 22"
proof -
  have "PDX va = drop_bit 22 va"
    unfolding PDX_def PDXSHIFT_def mask10 by (rule bit_word_eqI) (auto simp: bit_simps dest: bit_imp_le_length)
  then have "unat (PDX va) = drop_bit 22 (unat va)" by (simp only: unat_drop_bit_eq)
  then show ?thesis by (simp only: drop_bit_eq_div)
qed

lemma next_table:
  assumes "unat a < 2 ^ 31"
  shows "unat (PGADDR (PDX a + 1) 0 0) = (unat a div 2 ^ 22 + 1) * 2 ^ 22" "a < PGADDR (PDX a + 1) 0 0"
    "PGADDR (PDX a + 1) 0 0 mod PGSIZE = 0"
    "a \<le> x \<Longrightarrow> x < PGADDR (PDX a + 1) 0 0 \<Longrightarrow> PDX x = PDX a"
proof -
  let ?n = "PGADDR (PDX a + 1) 0 0"
  let ?q = "unat a div 2 ^ 22"
  have q: "?q < 512" using assms by simp
  have "unat (PDX a + 1) = ?q + 1" using q by (simp add: PDX_unat unat_word_ariths)
  then show n: "unat ?n = (?q + 1) * 2 ^ 22"
    using q by (simp add: PGADDR_def PDXSHIFT_def push_bit_eq_mult PDX_unat unat_word_ariths mod_simps)
  have "unat a < (?q + 1) * 2 ^ 22" by (simp add: dividend_less_times_div)
  then show "a < ?n" by (simp add: word_less_nat_alt n)
  show "?n mod PGSIZE = 0" using n by (simp add: aligned_iff)
  show "PDX x = PDX a" if "a \<le> x" "x < ?n"
  proof -
    have "unat a \<le> unat x" "unat x < (?q + 1) * 2 ^ 22" using that n by (simp_all add: word_le_nat_alt word_less_nat_alt)
    then have "unat x div 2 ^ 22 = ?q" using div_le_mono [of "unat a" "unat x" "2 ^ 22"] less_mult_imp_div_less [of "unat x" "?q + 1" "2 ^ 22"]
      by linarith
    then show ?thesis by (simp add: word_unat_eq_iff PDX_unat)
  qed
qed

lemma PDX_rounddown: "PDX (PGROUNDDOWN va) = PDX va"
proof -
  have "PGROUNDDOWN (PGROUNDDOWN va) = PGROUNDDOWN va" by (simp add: PGROUNDDOWN_eq [of "PGROUNDDOWN va"])
  then show ?thesis by (simp add: same_vpage_iff)
qed

lemma absent_0 [simp]: "\<not> present 0"
  by (simp add: present_def)

lemma frames_mono: "P \<subseteq> Q \<Longrightarrow> frames m d P \<subseteq> frames m d Q"
  by (auto simp: frames_def)

lemma user_ok_mono: "user_ok e m d Q \<Longrightarrow> P \<subseteq> Q \<Longrightarrow> user_ok e m d P"
  using frames_mono [of P Q m d] unfolding user_ok_def by blast

lemma frames_absent: "\<forall>va \<in> Q. \<not> present (pte m d va) \<Longrightarrow> frames m d (Q \<union> P) = frames m d P"
  by (auto simp: frames_def)

lemma clear_absent: "\<forall>va \<in> Q. \<not> present (f va) \<Longrightarrow> clear_entries (Q \<union> P) f = clear_entries P f"
  by (auto simp: clear_entries_def fun_eq_iff)

text \<open>Tables that agree on the entries in \<open>P\<close> have the same frames there.\<close>

lemma frames_cong: "(\<And>va. va \<in> P \<Longrightarrow> pte m' d' va = pte m d va) \<Longrightarrow> frames m' d' P = frames m d P"
  unfolding frames_def frame_of_def by (rule Collect_cong) (metis (no_types))

lemma user_ok_cong:
  assumes "\<And>va. va \<in> P \<Longrightarrow> pte m' d va = pte m d va" and "pt_pages m' d = pt_pages m d" and "user_ok e m d P"
  shows "user_ok e m' d P"
proof -
  have "frames m' d P = frames m d P" by (rule frames_cong) (rule assms(1))
  moreover have "frame_of m' d va = frame_of m d va" if "va \<in> P" for va using assms(1) [OF that] by (simp add: frame_of_def)
  ultimately show ?thesis using assms unfolding user_ok_def by (metis (no_types, lifting))
qed

lemma deallocuvm_loop_ok:
  fixes s :: "'a kmem_st_scheme"
  assumes "pt_inv d s xs" and "user_ok (kend s) (mem s) d (pages_in a oldsz)"
    and "frames (mem s) d (pages_in a oldsz) \<inter> set xs = {}" and "a mod PGSIZE = 0" and "oldsz \<le> KERNBASE" and "KERNBASE < kend s"
  shows "\<exists>s' ys. deallocuvm_loop d oldsz a s = Ok s' \<and> pt_free d (frames (mem s) d (pages_in a oldsz)) s xs s' ys \<and>
    pte (mem s') d = clear_entries (pages_in a oldsz) (pte (mem s) d)"
  using assms
proof (induction "unat oldsz - unat a" arbitrary: a s xs rule: less_induct)
  case less
  note i = less.prems(1) and u = less.prems(2) and new = less.prems(3) and al = less.prems(4)
  show ?case
  proof (cases "a < oldsz")
    case False
    then have "pages_in a oldsz = {}" by (auto simp: pages_in_def)
    moreover have "clear_entries {} f = f" for f by (simp add: clear_entries_def fun_eq_iff)
    ultimately show ?thesis using False pt_free_refl [OF i] by (subst deallocuvm_loop.simps) (auto simp: frames_def)
  next
    case True
    then have a31: "unat a < 2 ^ 31" using less.prems(5) by (simp add: word_less_nat_alt word_le_nat_alt KERNBASE_def)
    have ok: "pt_ok (kend s) (mem s) d" using i by (simp add: pt_inv_def)
    have da: "PGROUNDDOWN a = a" using al by (simp add: PGROUNDDOWN_eq)
    show ?thesis
    proof (cases "present (pde (mem s) d (PDX a))")
      case np: False
      let ?b = "PGADDR (PDX a + 1) 0 0"
      note nt = next_table [OF a31]
      have run: "deallocuvm_loop d oldsz a s = deallocuvm_loop d oldsz ?b s"
        using True np nt(2) by (subst deallocuvm_loop.simps) (simp add: walkpgdir_noalloc)
      let ?Q = "{va \<in> pages_in a oldsz. PGROUNDDOWN va < ?b}"
      have Q: "\<forall>va \<in> ?Q. \<not> present (pte (mem s) d va)"
      proof
        fix va assume "va \<in> ?Q"
        then have "PDX (PGROUNDDOWN va) = PDX a" by (intro nt(4)) (auto simp: pages_in_def)
        then show "\<not> present (pte (mem s) d va)" using np by (simp add: PDX_rounddown pte_def)
      qed
      have split: "pages_in a oldsz = ?Q \<union> pages_in ?b oldsz"
        using nt(2) by (auto simp: pages_in_def intro: order_trans less_imp_le)
      have "\<exists>s' ys. deallocuvm_loop d oldsz ?b s = Ok s' \<and> pt_free d (frames (mem s) d (pages_in ?b oldsz)) s xs s' ys \<and>
        pte (mem s') d = clear_entries (pages_in ?b oldsz) (pte (mem s) d)"
      proof (rule less.hyps)
        show "unat oldsz - unat ?b < unat oldsz - unat a" using True nt(2) by (simp add: word_less_nat_alt)
        show "user_ok (kend s) (mem s) d (pages_in ?b oldsz)" by (rule user_ok_mono [OF u]) (subst split, blast)
        show "frames (mem s) d (pages_in ?b oldsz) \<inter> set xs = {}" using new frames_mono [of "pages_in ?b oldsz" "pages_in a oldsz" "mem s" d] split by blast
      qed (rule i nt(3) less.prems(5) less.prems(6))+
      moreover have "frames (mem s) d (pages_in a oldsz) = frames (mem s) d (pages_in ?b oldsz)"
        "clear_entries (pages_in a oldsz) (pte (mem s) d) = clear_entries (pages_in ?b oldsz) (pte (mem s) d)"
        using frames_absent [OF Q, of "pages_in ?b oldsz"] clear_absent [OF Q, of "pages_in ?b oldsz"] unfolding split [symmetric] by simp_all
      ultimately show ?thesis unfolding run by presburger
    next
      case pd: True
      have a0: "a + PGSIZE \<noteq> 0" using a31 by (auto simp: PGSIZE_def word_unat_eq_iff unat_word_ariths)
      have un: "unat (a + PGSIZE) = unat a + 4096" using a31 by (simp add: PGSIZE_def unat_word_ariths)
      then have lt: "a < a + PGSIZE" by (simp add: word_less_nat_alt)
      let ?P = "pages_in (a + PGSIZE) oldsz" and ?Q = "{va. PGROUNDDOWN va = a}"
      note split = pages_in_split [OF al True a0]
      have aP: "a \<in> pages_in a oldsz" using split da by auto
      have pa: "fst (walkpgdir d a False s) = pte_addr (mem s) d a" "pte_addr (mem s) d a \<noteq> 0"
        using pd pte_addr_nonzero [OF ok pd] by (simp_all add: walkpgdir_noalloc pte_addr_def)
      have ih: "\<exists>s' ys. deallocuvm_loop d oldsz (a + PGSIZE) t = Ok s' \<and> pt_free d (frames (mem t) d ?P) t zs s' ys \<and>
        pte (mem s') d = clear_entries ?P (pte (mem t) d)"
        if "pt_inv d t zs" "user_ok (kend t) (mem t) d ?P" "frames (mem t) d ?P \<inter> set zs = {}" "KERNBASE < kend t" for t :: "'a kmem_st_scheme" and zs
        by (rule less.hyps) (use that True less.prems un aligned_add_PGSIZE [OF al] in \<open>simp_all add: word_less_nat_alt\<close>)
      have sub: "user_ok (kend s) (mem s) d ?P" "frames (mem s) d ?P \<inter> set xs = {}"
        using user_ok_mono [OF u, of ?P] frames_mono [of ?P "pages_in a oldsz" "mem s" d] new split by blast+
      show ?thesis
      proof (cases "present (pte (mem s) d a)")
        case False
        have run: "deallocuvm_loop d oldsz a s = deallocuvm_loop d oldsz (a + PGSIZE) s"
          using True False lt pa pte_addr_pte [OF pd] by (subst deallocuvm_loop.simps) (simp add: present_def)
        have Q: "\<forall>va \<in> ?Q. \<not> present (pte (mem s) d va)" 
        proof
          fix va assume "va \<in> ?Q"
          then have "PGROUNDDOWN va = PGROUNDDOWN a" using da by simp
          from pte_page [OF this] False show "\<not> present (pte (mem s) d va)" by simp
        qed
        from ih [OF i sub less.prems(6)] show ?thesis
          unfolding run split frames_absent [OF Q] clear_absent [OF Q] .
      next
        case pr: True
        let ?f = "frame_of (mem s) d a"
        obtain t where t: "rbind (kfree ?f s) (\<lambda>t. Ok (store32 (pte_addr (mem s) d a) 0 t)) = Ok t"
          "pt_free d {?f} s xs t (?f # xs)" "\<forall>vb. pte (mem t) d vb = (if PGROUNDDOWN vb = a then 0 else pte (mem s) d vb)"
          using free_one [OF i u aP pr new] unfolding da by blast
        have kf: "kernel_page (kend s) ?f" using u frameI [OF aP pr] by (simp add: user_ok_def)
        have pa0: "PTE_ADDR (pte (mem s) d a) \<noteq> 0"
          using frame_nonzero_addr [of "kend s" "pte (mem s) d a"] kf less.prems(6) by (simp add: frame_of_def)
        have run: "deallocuvm_loop d oldsz a s = deallocuvm_loop d oldsz (a + PGSIZE) t"
          using True pr lt pa pa0 t(1) pte_addr_pte [OF pd]
          by (subst deallocuvm_loop.simps) (auto simp: present_def frame_of_def tab_of_def Let_def rbind_assoc)
        have same: "pte (mem t) d va = pte (mem s) d va" if "va \<in> ?P" for va
        proof -
          have "PGROUNDDOWN va \<noteq> a" using that lt by (auto simp: pages_in_def)
          then show ?thesis using t(3) by simp
        qed
        have kt: "kend t = kend s" using t(2) only_mem_kend by (auto simp: pt_free_def)
        have pg: "pt_pages (mem t) d = pt_pages (mem s) d" and it: "pt_inv d t (?f # xs)" using t(2) by (simp_all add: pt_free_def)
        have fn: "?f \<notin> frames (mem s) d ?P"
        proof
          assume "?f \<in> frames (mem s) d ?P"
          then obtain vb where vb: "vb \<in> ?P" "present (pte (mem s) d vb)" "frame_of (mem s) d vb = ?f" by (auto simp: frames_def)
          then have "PGROUNDDOWN vb = a" using u pr aP split da unfolding user_ok_def by (metis UnI2)
          with vb(1) lt show False by (auto simp: pages_in_def)
        qed
        have fr: "frames (mem t) d ?P = frames (mem s) d ?P" by (rule frames_cong) (rule same)
        have "user_ok (kend t) (mem t) d ?P" unfolding kt by (rule user_ok_cong [OF same pg sub(1)])
        moreover have "frames (mem t) d ?P \<inter> set (?f # xs) = {}" using fn sub(2) by (simp add: fr)
        ultimately obtain s' ys where s': "deallocuvm_loop d oldsz (a + PGSIZE) t = Ok s'" "pt_free d (frames (mem t) d ?P) t (?f # xs) s' ys"
          "pte (mem s') d = clear_entries ?P (pte (mem t) d)"
          using ih [OF it] less.prems(6) kt by auto
        have "frames (mem s) d (pages_in a oldsz) = {?f} \<union> frames (mem s) d ?P"
        proof -
          have "frame_of (mem s) d va = ?f \<and> present (pte (mem s) d va)" if "PGROUNDDOWN va = a" for va
            using pte_page [of va a "mem s" d] that da pr by (simp add: frame_of_def)
          then show ?thesis using da unfolding split frames_def by blast
        qed
        moreover have "pt_free d ({?f} \<union> frames (mem s) d ?P) s xs s' ys" using pt_free_trans [OF t(2) s'(2)] by (simp add: fr)
        moreover have "pte (mem s') d = clear_entries (pages_in a oldsz) (pte (mem s) d)"
        proof
          fix va
          have "present (pte (mem s) d va)" if "PGROUNDDOWN va = a" using pte_page [of va a "mem s" d] that da pr by simp
          then show "pte (mem s') d va = clear_entries (pages_in a oldsz) (pte (mem s) d) va"
            using t(3) same unfolding s'(3) split by (auto simp: clear_entries_def)
        qed
        ultimately show ?thesis using run s'(1) by auto
      qed
    qed
  qed
qed

section \<open>User address spaces\<close>

text \<open>
  The user half of a page table, the pages an address space owns (its directory, tables and user frames), and the bytes a
  process sees.  \<open>space\<close> is the invariant: what the address space owns and what is free are disjoint sets of managed pages.
\<close>

definition user_half :: "uint set" where
  "user_half = {va. va < KERNBASE}"

definition owned :: "memory \<Rightarrow> uint \<Rightarrow> uint set" where
  "owned m d = pt_pages m d \<union> frames m d user_half"

definition umem :: "memory \<Rightarrow> uint \<Rightarrow> uint \<Rightarrow> uchar option" where
  "umem m d va = (if va < KERNBASE \<and> present (pte m d va) then Some (m (frame_of m d va + va mod PGSIZE)) else None)"

definition space :: "uint \<Rightarrow> 'a kmem_st_scheme \<Rightarrow> uint list \<Rightarrow> bool" where
  "space d s xs \<longleftrightarrow> pt_inv d s xs \<and> user_ok (kend s) (mem s) d user_half \<and> frames (mem s) d user_half \<inter> set xs = {}"

text \<open>A step that only moves pages between an address space and the free list, and writes no other page.\<close>

definition space_step :: "uint \<Rightarrow> 'a kmem_st_scheme \<Rightarrow> uint list \<Rightarrow> 'a kmem_st_scheme \<Rightarrow> uint list \<Rightarrow> bool" where
  "space_step d s xs s' ys \<longleftrightarrow> space d s' ys \<and> only_mem s s' \<and> set ys \<union> owned (mem s') d = set xs \<union> owned (mem s) d \<and>
     (\<forall>x. x \<notin> set xs \<longrightarrow> x \<notin> owned (mem s) d \<longrightarrow> same_page (mem s) (mem s') x)"

lemma space_step_refl: "space d s xs \<Longrightarrow> space_step d s xs s xs"
  by (simp add: space_step_def)

lemma space_step_trans:
  assumes a: "space_step d s xs t ys" and b: "space_step d t ys u zs"
  shows "space_step d s xs u zs"
proof -
  have "only_mem s u" using a b only_mem_trans unfolding space_step_def by blast
  moreover have "same_page (mem s) (mem u) x" if "x \<notin> set xs" "x \<notin> owned (mem s) d" for x
  proof -
    have "x \<notin> set ys" "x \<notin> owned (mem t) d" using that a unfolding space_step_def by blast+
    then show ?thesis using that a b same_page_trans unfolding space_step_def by blast
  qed
  moreover have "set zs \<union> owned (mem u) d = set xs \<union> owned (mem s) d" using a b unfolding space_step_def by simp
  ultimately show ?thesis using b unfolding space_step_def by blast
qed

lemma space_step_space: "space_step d s xs s' ys \<Longrightarrow> space d s' ys"
  by (simp add: space_step_def)

lemma space_step_kend: "space_step d s xs s' ys \<Longrightarrow> kend s' = kend s"
  by (simp add: space_step_def only_mem_kend)

lemma spaceD:
  assumes "space d s xs"
  shows "pt_inv d s xs" "kmem_inv s xs" "pt_ok (kend s) (mem s) d" "user_ok (kend s) (mem s) d user_half"
    "owned (mem s) d \<inter> set xs = {}" "x \<in> owned (mem s) d \<Longrightarrow> kernel_page (kend s) x"
    "frames (mem s) d user_half \<inter> pt_pages (mem s) d = {}"
proof -
  show i: "pt_inv d s xs" and u: "user_ok (kend s) (mem s) d user_half" using assms by (simp_all add: space_def)
  show "kmem_inv s xs" and ok: "pt_ok (kend s) (mem s) d" using i by (simp_all add: pt_inv_def)
  show "owned (mem s) d \<inter> set xs = {}" using i assms unfolding space_def pt_inv_def owned_def by blast
  show "kernel_page (kend s) x" if "x \<in> owned (mem s) d" using that pt_okD(6) [OF ok] u unfolding owned_def user_ok_def by blast
  show "frames (mem s) d user_half \<inter> pt_pages (mem s) d = {}" using u by (simp add: user_ok_def)
qed

lemma frame_pages: "va < KERNBASE \<Longrightarrow> present (pte m d va) \<Longrightarrow> frame_of m d va \<in> frames m d user_half"
  by (rule frameI) (simp_all add: user_half_def)

lemma rounddown_le: "PGROUNDDOWN a \<le> a"
proof -
  have "PGROUNDDOWN a = a div PGSIZE * PGSIZE" by (simp add: PGROUNDDOWN_eq minus_mod_eq_div_mult)
  then show ?thesis by (simp add: PGSIZE_def word_le_nat_alt unat_word_ariths unat_div_distrib)
qed

lemma rounddown_less:
  assumes "b mod PGSIZE = 0"
  shows "PGROUNDDOWN a < b \<longleftrightarrow> a < b" "b \<le> PGROUNDDOWN a \<longleftrightarrow> b \<le> a"
proof -
  obtain q where q: "unat b = 4096 * q" using aligned_unat [OF assms] by metis
  have un: "unat (PGROUNDDOWN a) = unat a div 4096 * 4096"
  proof -
    have "unat a div 4096 * 4096 < 2 ^ 32" using unat_uint_less [of a] by (simp add: div_less_iff_less_mult)
    then show ?thesis by (simp add: PGROUNDDOWN_eq minus_mod_eq_div_mult PGSIZE_def unat_word_ariths unat_div_distrib)
  qed
  have "unat a div 4096 * 4096 < 4096 * q \<longleftrightarrow> unat a < 4096 * q" by (auto simp: div_less_iff_less_mult mult.commute)
  then show lt: "PGROUNDDOWN a < b \<longleftrightarrow> a < b" by (simp add: word_less_nat_alt un q)
  then show "b \<le> PGROUNDDOWN a \<longleftrightarrow> b \<le> a" by (simp add: not_less [symmetric])
qed

lemma KERNBASE_aligned [simp]: "KERNBASE mod PGSIZE = 0"
  by (simp add: KERNBASE_def PGSIZE_def)

lemma user_half_pages: "pages_in 0 KERNBASE = user_half"
  by (simp add: pages_in_def user_half_def rounddown_less)

lemma pages_in_user: "b \<le> KERNBASE \<Longrightarrow> pages_in a b \<subseteq> user_half"
  unfolding user_half_pages [symmetric] pages_in_def by (auto intro: order_less_le_trans)

lemma tab_of_aligned [simp]: "tab_of e mod PGSIZE = 0"
proof -
  have "PTE_ADDR e = PGROUNDDOWN e" by (simp add: PTE_ADDR_def PGROUNDDOWN_def PGSIZE_def)
  then have "PTE_ADDR e mod PGSIZE = 0" by simp
  then obtain q where "unat (PTE_ADDR e) = 4096 * q" by (metis aligned_unat)
  then have "unat (tab_of e) = (q + 524288) mod 1048576 * 4096"
    using mod_mult_mult1 [of 4096 "q + 524288" 1048576] by (simp add: tab_of_def P2V_def KERNBASE_def unat_word_ariths)
  then show ?thesis by (simp add: aligned_iff)
qed

lemma mod_PGSIZE_less [simp]: "(a :: uint) mod PGSIZE < PGSIZE"
  by (rule word_mod_less_divisor) (simp add: PGSIZE_def)

lemma in_frame [simp]: "PGROUNDDOWN (frame_of m d va + a mod PGSIZE) = frame_of m d va"
  unfolding frame_of_def by (rule PGROUNDDOWN_add_small) simp_all

text \<open>The bytes of a mapping depend on the pages the address space owns only.\<close>

lemma umem_same:
  assumes "pt_ok e m d" and "\<forall>x \<in> owned m d. same_page m m' x"
  shows "umem m' d = umem m d" "pte m' d = pte m d" "owned m' d = owned m d" "pt_ok e m' d" "frames m' d P = frames m d P"
    "pt_pages m' d = pt_pages m d"
proof -
  have sp: "\<forall>x \<in> pt_pages m d. same_page m m' x" using assms(2) by (auto simp: owned_def)
  note same = pt_same [OF assms(1) sp]
  show p: "pte m' d = pte m d" using same by (simp add: fun_eq_iff)
  show fr: "frames m' d P = frames m d P" for P by (rule frames_cong) (simp add: p)
  show pg: "pt_pages m' d = pt_pages m d" using same by (simp add: pt_pages_def)
  show "owned m' d = owned m d" by (simp add: owned_def fr pg)
  show "pt_ok e m' d" using same by simp
  show "umem m' d = umem m d"
  proof
    fix va
    have "m' (frame_of m d va + va mod PGSIZE) = m (frame_of m d va + va mod PGSIZE)" if "va < KERNBASE" "present (pte m d va)"
    proof -
      have "same_page m m' (frame_of m d va)" using assms(2) frame_pages [OF that] by (simp add: owned_def)
      moreover have "PGROUNDDOWN (frame_of m d va + va mod PGSIZE) = frame_of m d va"
        by (simp add: in_frame)
      ultimately show ?thesis by (simp add: same_page_def)
    qed
    then show "umem m' d va = umem m d va" by (simp add: umem_def p frame_of_def)
  qed
qed

lemma space_same:
  assumes "space d s xs" and "\<forall>x \<in> owned (mem s) d. same_page (mem s) (mem s') x" and "kmem_inv s' ys"
    and "kend s' = kend s" and "set ys \<inter> owned (mem s) d = {}"
  shows "space d s' ys"
proof -
  note same = umem_same [OF spaceD(3) [OF assms(1)] assms(2)]
  have "user_ok (kend s) (mem s') d user_half"
    by (rule user_ok_cong [where m = "mem s"]) (use same spaceD(4) [OF assms(1)] in \<open>simp_all\<close>)
  then show ?thesis
    using assms(3-5) same by (auto simp: space_def pt_inv_def owned_def)
qed

section \<open>Shrinking and growing an address space\<close>

lemma pages_in_closed: "PGROUNDDOWN va = PGROUNDDOWN vb \<Longrightarrow> va \<in> pages_in a b \<longleftrightarrow> vb \<in> pages_in a b"
  by (simp add: pages_in_def)

lemma frames_clear:
  assumes u: "user_ok e m d user_half" and P: "P \<subseteq> user_half" and c: "\<And>va vb. PGROUNDDOWN va = PGROUNDDOWN vb \<Longrightarrow> va \<in> P \<longleftrightarrow> vb \<in> P"
    and pte: "pte m' d = clear_entries P (pte m d)"
  shows "frames m' d user_half = frames m d user_half - frames m d P"
proof (intro set_eqI iffI)
  fix x assume "x \<in> frames m' d user_half"
  then obtain va where va: "va \<in> user_half" "present (pte m' d va)" "x = frame_of m' d va" by (auto simp: frames_def)
  have np: "va \<notin> P" "pte m' d va = pte m d va" using va(2) by (auto simp: pte clear_entries_def split: if_splits)
  have "x \<notin> frames m d P"
  proof
    assume "x \<in> frames m d P"
    then obtain vb where vb: "vb \<in> P" "present (pte m d vb)" "x = frame_of m d vb" by (auto simp: frames_def)
    then have "PGROUNDDOWN va = PGROUNDDOWN vb"
      using u va np P unfolding user_ok_def by (metis frame_of_def subsetD)
    with c np vb(1) show False by blast
  qed
  then show "x \<in> frames m d user_half - frames m d P" using va np frameI [OF va(1), of m d] by (simp add: frame_of_def)
next
  fix x assume "x \<in> frames m d user_half - frames m d P"
  then obtain va where va: "va \<in> user_half" "present (pte m d va)" "x = frame_of m d va" "va \<notin> P" by (auto simp: frames_def)
  then have "pte m' d va = pte m d va" by (simp add: pte clear_entries_def)
  then show "x \<in> frames m' d user_half" using va frameI [OF va(1), of m' d] by (simp add: frame_of_def)
qed

lemma dealloc_space:
  assumes sp: "space d s xs" and al: "a mod PGSIZE = 0" and le: "oldsz \<le> KERNBASE" and k: "KERNBASE < kend s"
  shows "\<exists>s' ys. deallocuvm_loop d oldsz a s = Ok s' \<and> space_step d s xs s' ys \<and>
    pte (mem s') d = clear_entries (pages_in a oldsz) (pte (mem s) d) \<and>
    umem (mem s') d = (\<lambda>va. if va \<in> pages_in a oldsz then None else umem (mem s) d va) \<and>
    pt_pages (mem s') d = pt_pages (mem s) d \<and> set ys = set xs \<union> frames (mem s) d (pages_in a oldsz)"
proof -
  let ?P = "pages_in a oldsz" and ?F = "frames (mem s) d (pages_in a oldsz)"
  note sd = spaceD [OF sp]
  have P: "?P \<subseteq> user_half" by (rule pages_in_user [OF le])
  have FU: "?F \<subseteq> frames (mem s) d user_half" by (rule frames_mono [OF P])
  have new: "?F \<inter> set xs = {}" using FU sd(5) by (auto simp: owned_def)
  obtain s' ys where s': "deallocuvm_loop d oldsz a s = Ok s'" "pt_free d ?F s xs s' ys"
    "pte (mem s') d = clear_entries ?P (pte (mem s) d)"
    using deallocuvm_loop_ok [OF sd(1) user_ok_mono [OF sd(4) P] new al le k] by blast
  have i': "pt_inv d s' ys" and om: "only_mem s s'" and ys: "set ys = set xs \<union> ?F" and pg: "pt_pages (mem s') d = pt_pages (mem s) d"
    and same: "\<And>x. x \<notin> pt_pages (mem s) d \<Longrightarrow> x \<notin> ?F \<Longrightarrow> same_page (mem s) (mem s') x"
    using s'(2) by (simp_all add: pt_free_def)
  have fr: "frames (mem s') d user_half = frames (mem s) d user_half - ?F"
    by (rule frames_clear [OF sd(4) P pages_in_closed s'(3)])
  have kend: "kend s' = kend s" by (rule only_mem_kend [OF om])
  have eq: "pte (mem s') d va = pte (mem s) d va \<and> present (pte (mem s) d va)" if "present (pte (mem s') d va)" for va
    using that by (auto simp: s'(3) clear_entries_def split: if_splits)
  have "user_ok (kend s') (mem s') d user_half"
    unfolding user_ok_def kend pg fr
  proof (intro conjI ballI impI)
    fix va vb assume v: "va \<in> user_half" "vb \<in> user_half" "present (pte (mem s') d va)" "present (pte (mem s') d vb)"
      "frame_of (mem s') d va = frame_of (mem s') d vb"
    then show "PGROUNDDOWN va = PGROUNDDOWN vb" using sd(4) eq unfolding user_ok_def frame_of_def by metis
  qed (use sd(4) in \<open>auto simp: user_ok_def\<close>)
  moreover have "frames (mem s') d user_half \<inter> set ys = {}" using fr ys sd(5) by (auto simp: owned_def)
  ultimately have sp': "space d s' ys" using i' by (simp add: space_def)
  have "set ys \<union> owned (mem s') d = set xs \<union> owned (mem s) d" using FU by (auto simp: ys owned_def fr pg)
  then have "space_step d s xs s' ys" using sp' om same FU unfolding space_step_def by (auto simp: owned_def)
  moreover have "umem (mem s') d = (\<lambda>va. if va \<in> ?P then None else umem (mem s) d va)"
  proof
    fix va
    show "umem (mem s') d va = (if va \<in> ?P then None else umem (mem s) d va)"
    proof (cases "va < KERNBASE \<and> present (pte (mem s') d va)")
      case True
      then have e: "pte (mem s') d va = pte (mem s) d va" "present (pte (mem s) d va)" using eq by blast+
      then have np: "va \<notin> ?P" using True by (auto simp: s'(3) clear_entries_def split: if_splits)
      have "frame_of (mem s') d va \<in> frames (mem s') d user_half" using True by (simp add: frame_pages)
      then have "frame_of (mem s) d va \<notin> ?F" "frame_of (mem s) d va \<notin> pt_pages (mem s) d"
        using fr sd(7) e by (auto simp: frame_of_def)
      then have "same_page (mem s) (mem s') (frame_of (mem s) d va)" by (intro same)
      then have "mem s (frame_of (mem s) d va + va mod PGSIZE) = mem s' (frame_of (mem s) d va + va mod PGSIZE)"
        by (simp add: same_page_def)
      then show ?thesis using True e np by (simp add: umem_def frame_of_def)
    next
      case False
      then have "umem (mem s') d va = None" by (auto simp: umem_def)
      moreover have "umem (mem s) d va = None" if "va \<notin> ?P" using False that by (auto simp: umem_def s'(3) clear_entries_def)
      ultimately show ?thesis by simp
    qed
  qed
  ultimately show ?thesis using s' ys pg by blast
qed

lemma deallocuvm_ok:
  assumes sp: "space d s xs" and le: "oldsz \<le> KERNBASE" and k: "KERNBASE < kend s" and lt: "newsz < oldsz"
  shows "\<exists>s' ys. deallocuvm d oldsz newsz s = Ok (newsz, s') \<and> space_step d s xs s' ys \<and>
    pte (mem s') d = clear_entries (pages_in (PGROUNDUP newsz) oldsz) (pte (mem s) d) \<and>
    umem (mem s') d = (\<lambda>va. if va \<in> pages_in (PGROUNDUP newsz) oldsz then None else umem (mem s) d va)"
proof -
  have "PGROUNDUP newsz mod PGSIZE = 0" by (simp add: PGROUNDUP_DOWN)
  from dealloc_space [OF sp this le k] lt show ?thesis by (auto simp: deallocuvm_def)
qed

text \<open>A page taken from the free list and filled, and a page given back, leave the address space alone.\<close>

lemma take_page:
  assumes sp: "space d s (f # xs)" and om: "only_mem s t" and fl: "freelist t = ld32 (mem s) f"
    and sm: "\<forall>x. x \<noteq> f \<longrightarrow> same_page (mem s) (mem t) x"
  shows "space d t xs" "owned (mem t) d = owned (mem s) d" "pte (mem t) d = pte (mem s) d" "umem (mem t) d = umem (mem s) d"
    "kernel_page (kend t) f" "f \<notin> set xs" "f \<notin> owned (mem s) d" "f \<noteq> 0" "pt_pages (mem t) d = pt_pages (mem s) d"
proof -
  note sd = spaceD [OF sp]
  show fo: "f \<notin> owned (mem s) d" using sd(5) by auto
  have ko: "kend t = kend s" by (rule only_mem_kend [OF om])
  have kf: "kernel_page (kend s) f" and fx: "f \<notin> set xs" using sd(2) by (simp_all add: kmem_inv_def)
  show "kernel_page (kend t) f" "f \<notin> set xs" using kf fx ko by simp_all
  show "f \<noteq> 0" by (rule kernel_page_nonzero [OF kf])
  have own: "\<forall>x \<in> owned (mem s) d. same_page (mem s) (mem t) x" using sm fo by metis
  note same = umem_same [OF sd(3) own]
  show "owned (mem t) d = owned (mem s) d" "pte (mem t) d = pte (mem s) d" "umem (mem t) d = umem (mem s) d"
    "pt_pages (mem t) d = pt_pages (mem s) d" by (rule same)+
  have "kmem_inv t xs"
  proof (rule kmem_inv_same_pages [OF kalloc_head(2) [OF sd(2)]])
    show "same_page (mem (s\<lparr>freelist := ld32 (mem s) f\<rparr>)) (mem t) x" if "x \<in> set xs" for x
      using sm fx that by (metis kmem_st.select_convs(1) kmem_st.surjective kmem_st.update_convs(2))
  qed (simp_all add: fl ko)
  then show "space d t xs" by (rule space_same [OF sp own _ ko]) (use sd(5) in auto)
qed

lemma give_page:
  assumes sp: "space d s xs" and kf: "kernel_page (kend s) f" and fx: "f \<notin> set xs" and fo: "f \<notin> owned (mem s) d"
  shows "\<exists>t. kfree f s = Ok t \<and> space d t (f # xs) \<and> only_mem s t \<and> owned (mem t) d = owned (mem s) d \<and>
    pte (mem t) d = pte (mem s) d \<and> umem (mem t) d = umem (mem s) d \<and> (\<forall>x. x \<noteq> f \<longrightarrow> same_page (mem s) (mem t) x)"
proof -
  note sd = spaceD [OF sp]
  obtain t where t: "kfree f s = Ok t" "kmem_inv t (f # xs)" "kend t = kend s" "\<forall>x. x \<noteq> f \<longrightarrow> same_page (mem s) (mem t) x"
    using kfree_pushes [OF sd(2) kf fx] by blast
  have om: "only_mem s t" using t(1) kf by (auto simp: kfree_alt)
  have own: "\<forall>x \<in> owned (mem s) d. same_page (mem s) (mem t) x" using t(4) fo by metis
  have "space d t (f # xs)" by (rule space_same [OF sp own t(2,3)]) (use fo sd(5) in auto)
  then show ?thesis using t om umem_same [OF sd(3) own] by blast
qed

lemma mappages_one:
  assumes "a mod PGSIZE = 0"
  shows "mappages d a PGSIZE pa perm s = mappages_loop 0 d a pa perm s"
proof -
  have "PGROUNDDOWN a = a" using assms by (simp add: PGROUNDDOWN_eq)
  moreover have "PGROUNDDOWN (a + (PGSIZE - 1)) = a" by (rule PGROUNDDOWN_add_small [OF assms]) (simp add: PGSIZE_def)
  moreover have "a + PGSIZE - 1 = a + (PGSIZE - 1)" by simp
  ultimately show ?thesis by (simp only: mappages_def Let_def) simp
qed

lemma or_less_4096: "(x :: uint) < 4096 \<Longrightarrow> y < 4096 \<Longrightarrow> x OR y < 4096"
proof -
  have iff: "(z :: uint) < 4096 \<longleftrightarrow> z AND 0xFFF = z" for z
    using word_mod_less_divisor [of 4096 z] by (auto simp: and_mask12 word_unat_eq_iff unat_mod_distrib word_less_nat_alt)
  assume "x < 4096" "y < 4096"
  then show ?thesis by (simp add: iff bit.conj_disj_distrib2)
qed

lemma new_frame:
  assumes "kernel_page e f" and "perm < 4096"
  shows "present (V2P f OR perm OR PTE_P)" "tab_of (V2P f OR perm OR PTE_P) = f" "PTE_FLAGS (V2P f OR perm OR PTE_P) = perm OR PTE_P"
proof -
  have "perm OR PTE_P < 4096" using or_less_4096 [OF assms(2), of PTE_P] by (simp add: PTE_P_def)
  from flags_or_aligned [OF V2P_aligned [OF assms(1)] this]
  have "PTE_ADDR (V2P f OR perm OR PTE_P) = V2P f \<and> PTE_FLAGS (V2P f OR perm OR PTE_P) = perm OR PTE_P" by (simp add: or.assoc)
  then show "tab_of (V2P f OR perm OR PTE_P) = f" "PTE_FLAGS (V2P f OR perm OR PTE_P) = perm OR PTE_P" by (simp_all add: tab_of_def)
  have "(V2P f OR perm OR PTE_P) AND PTE_P = PTE_P" by (rule bit_word_eqI) (auto simp: bit_simps)
  then show "present (V2P f OR perm OR PTE_P)" by (simp add: present_def PTE_P_def)
qed

text \<open>A step takes as many pages from the free list as it adds tables, of which a directory has at most 1024.\<close>

lemma finite_tables: "finite (tables m d)" "card (tables m d) \<le> 1024"
proof -
  have t: "tables m d \<subseteq> (\<lambda>i. tab_of (pde m d (of_nat i))) ` {0..<1024}"
  proof
    fix x assume "x \<in> tables m d"
    then obtain i where i: "i < 1024" "x = tab_of (pde m d i)" by (auto simp: tables_def)
    then have "unat i \<in> {0..<1024}" "i = of_nat (unat i)" by (simp_all add: word_less_nat_alt)
    then show "x \<in> (\<lambda>i. tab_of (pde m d (of_nat i))) ` {0..<1024}" using i(2) by (intro image_eqI [of _ _ "unat i"]) simp_all
  qed
  then show "finite (tables m d)" by (rule finite_subset) simp
  have "card (tables m d) \<le> card ((\<lambda>i. tab_of (pde m d (of_nat i))) ` {0..<1024})" by (rule card_mono [OF _ t]) simp
  also have "\<dots> \<le> card {0..<1024 :: nat}" by (rule card_image_le) simp
  finally show "card (tables m d) \<le> 1024" by simp
qed

lemma finite_pt_pages [simp]: "finite (pt_pages m d)"
  by (simp add: pt_pages_def finite_tables)

lemma card_pt_pages: "card (pt_pages m d) \<le> 1025"
  using finite_tables [of m d] by (simp add: pt_pages_def card_insert_if)

lemma pt_step_length:
  assumes i: "pt_inv d s xs" and st: "pt_step d s xs s' ys"
  shows "length xs + card (pt_pages (mem s) d) = length ys + card (pt_pages (mem s') d)"
proof -
  have dx: "distinct xs" "set xs \<inter> pt_pages (mem s) d = {}" using i by (simp_all add: pt_inv_def kmem_inv_def)
  have dy: "distinct ys" "set ys \<subseteq> set xs" "pt_pages (mem s') d = pt_pages (mem s) d \<union> (set xs - set ys)"
    using st by (simp_all add: pt_step_def pt_inv_def kmem_inv_def)
  have "card (pt_pages (mem s') d) = card (pt_pages (mem s) d) + card (set xs - set ys)"
    unfolding dy(3) using dx(2) by (intro card_Un_disjoint) auto
  moreover have "card (set xs - set ys) = length xs - length ys" "length ys \<le> length xs"
    using dx(1) dy(1,2) card_mono [OF _ dy(2)] by (simp_all add: card_Diff_subset distinct_card)
  ultimately show ?thesis by simp
qed

text \<open>Mapping one more user page: either the page joins the address space, or the free list is empty and no mapping changes.\<close>

lemma map_user:
  assumes sp: "space d s xs" and kf: "kernel_page (kend s) f" and fx: "f \<notin> set xs" and fo: "f \<notin> owned (mem s) d"
    and al: "a mod PGSIZE = 0" and lt: "a < KERNBASE" and np: "\<not> present (pte (mem s) d a)" and pm: "perm < 4096"
  shows "\<exists>r s' ys. mappages d a PGSIZE (V2P f) perm s = Ok (r, s') \<and> space d s' ys \<and> only_mem s s' \<and> f \<notin> set ys \<and>
    length xs + card (pt_pages (mem s) d) = length ys + card (pt_pages (mem s') d) \<and>
    (\<forall>x. x \<notin> set xs \<longrightarrow> x \<notin> pt_pages (mem s) d \<longrightarrow> same_page (mem s) (mem s') x) \<and>
    (r = 0 \<and> set ys \<union> owned (mem s') d = insert f (set xs \<union> owned (mem s) d) \<and>
       pte (mem s') d = (\<lambda>va. if PGROUNDDOWN va = a then V2P f OR perm OR PTE_P else pte (mem s) d va) \<and>
       umem (mem s') d = (\<lambda>va. if PGROUNDDOWN va = a then Some (mem s (f + va mod PGSIZE)) else umem (mem s) d va) \<or>
     r = -1 \<and> ys = [] \<and> set ys \<union> owned (mem s') d = set xs \<union> owned (mem s) d \<and> f \<notin> owned (mem s') d \<and>
       pte (mem s') d = pte (mem s) d \<and> umem (mem s') d = umem (mem s) d)"
proof -
  note sd = spaceD [OF sp]
  let ?e = "V2P f OR perm OR PTE_P"
  have un: "\<forall>va. vidx a va \<le> 0 \<longrightarrow> \<not> present (pte (mem s) d va)"
    using vidx_0_iff [OF al] np pte_page [of _ a "mem s" d] al by (metis PGROUNDDOWN_eq diff_zero le_zero_eq)
  obtain r s' ys j where m: "mappages d a PGSIZE (V2P f) perm s = Ok (r, s')" and st: "pt_step d s xs s' ys"
    and pte': "pte (mem s') d = map_entries j a (V2P f) perm (pte (mem s) d)"
    and rj: "r = 0 \<and> j = Suc 0 \<or> r = -1 \<and> j \<le> 0 \<and> ys = []"
    using mappages_loop_ok [OF sd(1) al _ un, of "V2P f" perm] unfolding mappages_one [OF al] by auto
  have i': "pt_inv d s' ys" and om: "only_mem s s'" and ys: "set ys \<subseteq> set xs"
    and pg: "pt_pages (mem s') d = pt_pages (mem s) d \<union> (set xs - set ys)"
    and same: "\<And>x. x \<notin> pt_pages (mem s') d \<Longrightarrow> same_page (mem s) (mem s') x" using st by (simp_all add: pt_step_def)
  have len: "length xs + card (pt_pages (mem s) d) = length ys + card (pt_pages (mem s') d)" by (rule pt_step_length [OF sd(1) st])
  have same2: "\<forall>x. x \<notin> set xs \<longrightarrow> x \<notin> pt_pages (mem s) d \<longrightarrow> same_page (mem s) (mem s') x" using same pg by blast
  have kend: "kend s' = kend s" by (rule only_mem_kend [OF om])
  let ?FU = "frames (mem s) d user_half"
  have FU: "?FU \<inter> set xs = {}" "?FU \<inter> pt_pages (mem s) d = {}" "f \<notin> ?FU" "f \<notin> pt_pages (mem s) d" using sd(5,7) fo by (auto simp: owned_def)
  have byte: "mem s' (x + va mod PGSIZE) = mem s (x + va mod PGSIZE)" if "x = f \<or> x \<in> ?FU" "x mod PGSIZE = 0" for x va
  proof -
    have "same_page (mem s) (mem s') x" using that FU fx same2 by blast
    moreover have "PGROUNDDOWN (x + va mod PGSIZE) = x" using that(2) by (simp add: PGROUNDDOWN_add_small)
    ultimately show ?thesis by (simp add: same_page_def)
  qed
  have byteF: "mem s' (frame_of (mem s) d va + va mod PGSIZE) = mem s (frame_of (mem s) d va + va mod PGSIZE)"
    if "va < KERNBASE" "present (pte (mem s) d va)" for va
    using byte [of "frame_of (mem s) d va"] frame_pages [OF that] by (simp add: frame_of_def)
  from rj show ?thesis
  proof (elim disjE conjE)
    assume r: "r = -1" "j \<le> 0" "ys = []"
    then have p: "pte (mem s') d = pte (mem s) d" using pte' by simp
    have fr: "frames (mem s') d P = frames (mem s) d P" for P by (rule frames_cong) (simp add: p)
    have "user_ok (kend s) (mem s') d user_half"
      using sd(4) FU unfolding user_ok_def fr frame_of_def p pg by blast
    then have "space d s' ys" using i' r by (simp add: space_def kend)
    moreover have "set ys \<union> owned (mem s') d = set xs \<union> owned (mem s) d" using pg ys by (auto simp: owned_def fr)
    moreover have "umem (mem s') d = umem (mem s) d" using byteF by (auto simp: umem_def p frame_of_def fun_eq_iff)
    moreover have "f \<notin> owned (mem s') d" using fo fx by (auto simp: owned_def fr pg)
    ultimately show ?thesis using m om same2 r p len by auto
  next
    assume r: "r = 0" "j = Suc 0"
    have p: "pte (mem s') d = (\<lambda>va. if PGROUNDDOWN va = a then ?e else pte (mem s) d va)"
      using vidx_0_iff [OF al] unfolding pte' r by (auto simp: map_entries_def fun_eq_iff)
    note nf = new_frame [OF kf pm]
    have ua: "va \<in> user_half" if "PGROUNDDOWN va = a" for va
      using that lt rounddown_less(1) [OF KERNBASE_aligned, of va] by (simp add: user_half_def)
    have fo': "frame_of (mem s') d va = (if PGROUNDDOWN va = a then f else frame_of (mem s) d va)" for va
      using nf(2) by (simp add: frame_of_def p)
    have pa: "PGROUNDDOWN a = a" using al by (simp add: PGROUNDDOWN_eq)
    have old: "\<not> present (pte (mem s) d va)" if "PGROUNDDOWN va = a" for va using np pte_page [of va a "mem s" d] that pa by simp
    have fr: "frames (mem s') d user_half = insert f ?FU"
    proof (intro set_eqI iffI)
      fix x assume "x \<in> frames (mem s') d user_half"
      then obtain va where "va \<in> user_half" "present (pte (mem s') d va)" "x = frame_of (mem s') d va" by (auto simp: frames_def)
      then show "x \<in> insert f ?FU" using frameI [of va user_half "mem s" d] by (auto simp: p fo' split: if_splits)
    next
      fix x assume "x \<in> insert f ?FU"
      then consider "x = f" | va where "va \<in> user_half" "present (pte (mem s) d va)" "x = frame_of (mem s) d va" by (auto simp: frames_def)
      then show "x \<in> frames (mem s') d user_half"
      proof cases
        case 1
        then show ?thesis using frameI [OF ua [OF pa], of "mem s'" d] nf(1) pa by (simp add: fo' p)
      next
        case 2
        then have "PGROUNDDOWN va \<noteq> a" using old by auto
        then show ?thesis using frameI [OF 2(1), of "mem s'" d] 2 by (simp add: fo' p)
      qed
    qed
    have "user_ok (kend s) (mem s') d user_half"
      unfolding user_ok_def fr pg
    proof (intro conjI ballI impI)
      fix va vb assume v: "va \<in> user_half" "vb \<in> user_half" "present (pte (mem s') d va)" "present (pte (mem s') d vb)"
        "frame_of (mem s') d va = frame_of (mem s') d vb"
      have nf': "frame_of (mem s) d v \<noteq> f" if "v \<in> user_half" "present (pte (mem s) d v)" for v using frameI [OF that] FU(3) by auto
      have inj: "PGROUNDDOWN va = PGROUNDDOWN vb" if "present (pte (mem s) d va)" "present (pte (mem s) d vb)"
        "frame_of (mem s) d va = frame_of (mem s) d vb"
        using that v(1,2) sd(4) unfolding user_ok_def by blast
      show "PGROUNDDOWN va = PGROUNDDOWN vb"
        using v inj nf' [of va] nf' [of vb] by (cases "PGROUNDDOWN va = a"; cases "PGROUNDDOWN vb = a") (simp_all add: fo' p)
    qed (use sd(4) kf FU fx in \<open>auto simp: user_ok_def\<close>)
    then have "space d s' ys" using i' FU fx ys fr by (auto simp: space_def kend)
    moreover have "set ys \<union> owned (mem s') d = insert f (set xs \<union> owned (mem s) d)" using pg ys by (auto simp: owned_def fr)
    moreover have "umem (mem s') d = (\<lambda>va. if PGROUNDDOWN va = a then Some (mem s (f + va mod PGSIZE)) else umem (mem s) d va)"
    proof
      fix va
      show "umem (mem s') d va = (if PGROUNDDOWN va = a then Some (mem s (f + va mod PGSIZE)) else umem (mem s) d va)"
        using ua [of va] nf(1) byte [of f va] kernel_page_aligned [OF kf] byteF [of va]
        by (simp add: umem_def fo' p user_half_def)
    qed
    ultimately show ?thesis using m om same2 r p fx ys len by auto
  qed
qed

section \<open>\<^verbatim>\<open>allocuvm\<close>\<close>

definition fresh_pte :: "uint \<Rightarrow> bool" where
  "fresh_pte e \<longleftrightarrow> present e \<and> PTE_FLAGS e = PTE_W OR PTE_U OR PTE_P"

lemma memset_zero_page: "f mod PGSIZE = 0 \<Longrightarrow> memset m f 0 PGSIZE (f + va mod PGSIZE) = 0"
  by (simp add: memset_fills mem_fill_def)

lemma kalloc_zero:
  assumes sp: "space d s (f # xs)"
  defines "t \<equiv> zero_page f (s\<lparr>freelist := ld32 (mem s) f\<rparr>)"
  shows "kalloc s = (f, s\<lparr>freelist := ld32 (mem s) f\<rparr>)" "only_mem s t" "freelist t = ld32 (mem s) f"
    "\<forall>x. x \<noteq> f \<longrightarrow> same_page (mem s) (mem t) x" "mem t (f + va mod PGSIZE) = 0"
proof -
  note sd = spaceD [OF sp]
  have kf: "kernel_page (kend s) f" using sd(2) by (simp add: kmem_inv_def)
  note al = kernel_page_aligned [OF kf]
  show "kalloc s = (f, s\<lparr>freelist := ld32 (mem s) f\<rparr>)" by (rule kalloc_head(1) [OF sd(2)])
  show "only_mem s t" by (simp add: t_def only_mem_def zero_page_def)
  show "freelist t = ld32 (mem s) f" by (simp add: t_def zero_page_def)
  show "\<forall>x. x \<noteq> f \<longrightarrow> same_page (mem s) (mem t) x" using memset_page_other [OF al] by (simp add: t_def zero_page_def)
  show "mem t (f + va mod PGSIZE) = 0" by (simp add: t_def zero_page_def memset_zero_page [OF al])
qed

definition npages :: "uint \<Rightarrow> uint \<Rightarrow> nat" where
  "npages a b = (unat b - unat a + 4095) div 4096"

lemma npages_step:
  assumes "a < b" and "unat (a + PGSIZE) = unat a + 4096"
  shows "npages a b = Suc (npages (a + PGSIZE) b)"
proof -
  have "unat a < unat b" using assms(1) by (simp add: word_less_nat_alt)
  then obtain k where k: "unat b = unat a + Suc k" using less_imp_Suc_add by (metis add_Suc_right)
  show ?thesis
  proof (cases "k < 4096")
    case True
    then have "(Suc k + 4095) div 4096 = 1" by (simp add: div_add_self2)
    with True show ?thesis by (simp add: npages_def k assms(2))
  next
    case False
    then obtain j where "k = j + 4096" by (metis le_add_diff_inverse2 not_less)
    then show ?thesis by (simp add: npages_def k assms(2))
  qed
qed

lemma roundup_le:
  assumes "a mod PGSIZE = 0" and "x \<le> a"
  shows "PGROUNDUP x \<le> a"
proof -
  obtain q where q: "unat a = 4096 * q" using aligned_unat [OF assms(1)] by metis
  then have q': "q < 1048576" using unat_uint_less [of a] by simp
  have "unat x \<le> 4096 * q" using assms(2) q by (simp add: word_le_nat_alt)
  moreover have "unat x + 4096 \<le> 2 ^ 32" using calculation q' by simp
  ultimately show ?thesis using round_up_le [of "unat x" q] by (simp add: word_le_nat_alt PGROUNDUP_unat q)
qed

lemma allocuvm_loop_ok:
  fixes s :: "'a kmem_st_scheme"
  assumes "space d s xs" and "\<forall>va \<in> pages_in a newsz. \<not> present (pte (mem s) d va)" and "a mod PGSIZE = 0" and "newsz < KERNBASE"
    and "KERNBASE < kend s" and "oldsz \<le> a"
  shows "\<exists>r s' ys. allocuvm_loop d oldsz newsz a s = Ok (r, s') \<and> space_step d s xs s' ys \<and>
    (r = newsz \<and> umem (mem s') d = (\<lambda>va. if va \<in> pages_in a newsz then Some 0 else umem (mem s) d va) \<and>
       (\<forall>va. if va \<in> pages_in a newsz then fresh_pte (pte (mem s') d va) else pte (mem s') d va = pte (mem s) d va) \<or>
     r = 0 \<and> length xs + card (pt_pages (mem s) d) \<le> 1025 + npages a newsz \<and>
       umem (mem s') d = (\<lambda>va. if va \<in> pages_in (PGROUNDUP oldsz) newsz then None else umem (mem s) d va) \<and>
       (\<forall>va. if va \<in> pages_in (PGROUNDUP oldsz) newsz then \<not> present (pte (mem s') d va) else pte (mem s') d va = pte (mem s) d va))"
  using assms
proof (induction "unat newsz - unat a" arbitrary: a s xs rule: less_induct)
  case less
  note sp = less.prems(1) and np = less.prems(2) and al = less.prems(3) and k = less.prems(5)
  show ?case
  proof (cases "a < newsz")
    case False
    then have "pages_in a newsz = {}" by (auto simp: pages_in_def)
    then show ?thesis using False space_step_refl [OF sp] by (subst allocuvm_loop.simps) (auto simp: fun_eq_iff)
  next
    case lt: True
    have a31: "unat a < 2 ^ 31" using lt less.prems(4) by (simp add: word_less_nat_alt KERNBASE_def)
    have an: "unat (a + PGSIZE) = unat a + 4096" "a + PGSIZE \<noteq> 0" using a31 by (auto simp: PGSIZE_def word_unat_eq_iff unat_word_ariths)
    have old: "oldsz < newsz" "newsz \<le> KERNBASE" using less.prems(4,6) lt by auto
    let ?P = "pages_in a newsz" and ?D = "pages_in (PGROUNDUP oldsz) newsz"
    have dealloc: "\<exists>s' ys. deallocuvm d newsz oldsz t = Ok (oldsz, s') \<and> space_step d t zs s' ys \<and>
        pte (mem s') d = clear_entries ?D (pte (mem t) d) \<and> umem (mem s') d = (\<lambda>va. if va \<in> ?D then None else umem (mem t) d va)"
      if "space d t zs" "kend t = kend s" for t :: "'a kmem_st_scheme" and zs
      using deallocuvm_ok [OF that(1) old(2) _ old(1)] k that(2) by simp
    have cleared: "if va \<in> ?D then \<not> present (clear_entries ?D g va) else clear_entries ?D g va = g va" for va g
      by (simp add: clear_entries_def)
    show ?thesis
    proof (cases xs)
      case Nil
      have ka: "kalloc s = (0, s)" using spaceD(2) [OF sp] Nil by (simp add: kalloc_empty)
      from dealloc [OF sp refl] obtain s' ys where "deallocuvm d newsz oldsz s = Ok (oldsz, s')" "space_step d s xs s' ys"
        "pte (mem s') d = clear_entries ?D (pte (mem s) d)" "umem (mem s') d = (\<lambda>va. if va \<in> ?D then None else umem (mem s) d va)" by blast
      moreover have "length xs + card (pt_pages (mem s) d) \<le> 1025 + npages a newsz" using Nil card_pt_pages [of "mem s" d] by simp
      ultimately show ?thesis using lt ka cleared by (subst allocuvm_loop.simps) auto
    next
      case (Cons f fs)
      let ?t = "zero_page f (s\<lparr>freelist := ld32 (mem s) f\<rparr>)"
      have spc: "space d s (f # fs)" using sp Cons by simp
      note kz = kalloc_zero [OF spc] and tp = take_page [OF spc kalloc_zero(2-4) [OF spc]]
      have aP: "a \<in> ?P" using lt al by (simp add: pages_in_def PGROUNDDOWN_eq)
      have npa: "\<not> present (pte (mem ?t) d a)" using np aP tp(3) by simp
      have "a < KERNBASE" using lt old(2) by simp
      from map_user [OF tp(1) tp(5,6) _ al this npa, of "PTE_W OR PTE_U"] tp(7)
      obtain r u ys where u: "mappages d a PGSIZE (V2P f) (PTE_W OR PTE_U) ?t = Ok (r, u)" "space d u ys" "only_mem ?t u" "f \<notin> set ys"
        "length fs + card (pt_pages (mem ?t) d) = length ys + card (pt_pages (mem u) d)"
        "\<forall>x. x \<notin> set fs \<longrightarrow> x \<notin> pt_pages (mem ?t) d \<longrightarrow> same_page (mem ?t) (mem u) x"
        "r = 0 \<and> set ys \<union> owned (mem u) d = insert f (set fs \<union> owned (mem ?t) d) \<and>
           pte (mem u) d = (\<lambda>va. if PGROUNDDOWN va = a then V2P f OR (PTE_W OR PTE_U) OR PTE_P else pte (mem ?t) d va) \<and>
           umem (mem u) d = (\<lambda>va. if PGROUNDDOWN va = a then Some (mem ?t (f + va mod PGSIZE)) else umem (mem ?t) d va) \<or>
         r = -1 \<and> ys = [] \<and> set ys \<union> owned (mem u) d = set fs \<union> owned (mem ?t) d \<and> f \<notin> owned (mem u) d \<and>
           pte (mem u) d = pte (mem ?t) d \<and> umem (mem u) d = umem (mem ?t) d"
        unfolding tp(2) by (auto simp: PTE_W_def PTE_U_def)
      have pgt: "pt_pages (mem ?t) d = pt_pages (mem s) d" by (rule tp(9))
      have om: "only_mem s u" by (rule only_mem_trans [OF kz(2) u(3)])
      have ku: "kend u = kend s" by (rule only_mem_kend [OF om])
      have frame: "same_page (mem s) (mem u) x" if "x \<notin> set xs" "x \<notin> owned (mem s) d" for x
      proof -
        have "x \<noteq> f" "x \<notin> set fs" "x \<notin> pt_pages (mem ?t) d" using that Cons tp(2) by (auto simp: owned_def)
        then show ?thesis using kz(4) u(6) same_page_trans by blast
      qed
      from u(7) show ?thesis
      proof (elim disjE conjE)
        assume r: "r = 0" and own: "set ys \<union> owned (mem u) d = insert f (set fs \<union> owned (mem ?t) d)"
          and p: "pte (mem u) d = (\<lambda>va. if PGROUNDDOWN va = a then V2P f OR (PTE_W OR PTE_U) OR PTE_P else pte (mem ?t) d va)"
          and m: "umem (mem u) d = (\<lambda>va. if PGROUNDDOWN va = a then Some (mem ?t (f + va mod PGSIZE)) else umem (mem ?t) d va)"
        have st: "space_step d s xs u ys" using u(2) om own frame tp(2) Cons by (simp add: space_step_def)
        have split: "?P = {va. PGROUNDDOWN va = a} \<union> pages_in (a + PGSIZE) newsz" by (rule pages_in_split [OF al lt an(2)])
        have ge: "PGROUNDDOWN va \<noteq> a" if "va \<in> pages_in (a + PGSIZE) newsz" for va
          using that an(1) by (auto simp: pages_in_def word_le_nat_alt)
        have "\<forall>va \<in> pages_in (a + PGSIZE) newsz. \<not> present (pte (mem u) d va)" using np ge by (simp add: p tp(3) split)
        moreover have "unat newsz - unat (a + PGSIZE) < unat newsz - unat a" "KERNBASE < kend u" "oldsz \<le> a + PGSIZE"
          using an(1) k ku lt less.prems(6) by (simp_all add: word_less_nat_alt word_le_nat_alt)
        ultimately obtain r' s' zs where s': "allocuvm_loop d oldsz newsz (a + PGSIZE) u = Ok (r', s')" "space_step d u ys s' zs"
          "r' = newsz \<and> umem (mem s') d = (\<lambda>va. if va \<in> pages_in (a + PGSIZE) newsz then Some 0 else umem (mem u) d va) \<and>
            (\<forall>va. if va \<in> pages_in (a + PGSIZE) newsz then fresh_pte (pte (mem s') d va) else pte (mem s') d va = pte (mem u) d va) \<or>
           r' = 0 \<and> length ys + card (pt_pages (mem u) d) \<le> 1025 + npages (a + PGSIZE) newsz \<and> umem (mem s') d = (\<lambda>va. if va \<in> ?D then None else umem (mem u) d va) \<and>
            (\<forall>va. if va \<in> ?D then \<not> present (pte (mem s') d va) else pte (mem s') d va = pte (mem u) d va)"
          using less.hyps [OF _ u(2) _ aligned_add_PGSIZE [OF al] less.prems(4)] by blast
        have run: "allocuvm_loop d oldsz newsz a s = Ok (r', s')"
          using lt kz(1) tp(8) u(1) r s'(1) an(1) by (subst allocuvm_loop.simps) (simp add: word_less_nat_alt)
        have stt: "space_step d s xs s' zs" by (rule space_step_trans [OF st s'(2)])
        from s'(3) show ?thesis
        proof (elim disjE conjE)
          assume g: "r' = newsz" "umem (mem s') d = (\<lambda>va. if va \<in> pages_in (a + PGSIZE) newsz then Some 0 else umem (mem u) d va)"
            "\<forall>va. if va \<in> pages_in (a + PGSIZE) newsz then fresh_pte (pte (mem s') d va) else pte (mem s') d va = pte (mem u) d va"
          have "umem (mem s') d = (\<lambda>va. if va \<in> ?P then Some 0 else umem (mem s) d va)"
            by (simp add: g(2) m tp(4) kz(5) split fun_eq_iff)
          moreover have "\<forall>va. if va \<in> ?P then fresh_pte (pte (mem s') d va) else pte (mem s') d va = pte (mem s) d va"
          proof
            fix va
            have "fresh_pte (V2P f OR (PTE_W OR PTE_U) OR PTE_P)"
              using new_frame [OF tp(5), of "PTE_W OR PTE_U"] by (simp add: fresh_pte_def PTE_W_def PTE_U_def PTE_P_def)
            then show "if va \<in> ?P then fresh_pte (pte (mem s') d va) else pte (mem s') d va = pte (mem s) d va"
              using g(3) [rule_format, of va] by (auto simp: p tp(3) split split: if_splits)
          qed
          ultimately show ?thesis using run stt g(1) by blast
        next
          assume g: "r' = 0" and ln: "length ys + card (pt_pages (mem u) d) \<le> 1025 + npages (a + PGSIZE) newsz" and g2: "umem (mem s') d = (\<lambda>va. if va \<in> ?D then None else umem (mem u) d va)"
            and g3: "\<forall>va. if va \<in> ?D then \<not> present (pte (mem s') d va) else pte (mem s') d va = pte (mem u) d va"
          have aD: "va \<in> ?D" if "PGROUNDDOWN va = a" for va
            using that lt roundup_le [OF al less.prems(6)] by (simp add: pages_in_def)
          have "umem (mem s') d = (\<lambda>va. if va \<in> ?D then None else umem (mem s) d va)"
            using aD by (auto simp: g2 m tp(4) fun_eq_iff)
          moreover have "\<forall>va. if va \<in> ?D then \<not> present (pte (mem s') d va) else pte (mem s') d va = pte (mem s) d va"
          proof
            fix va
            show "if va \<in> ?D then \<not> present (pte (mem s') d va) else pte (mem s') d va = pte (mem s) d va"
              using g3 [rule_format, of va] aD [of va] by (auto simp: p tp(3) split: if_splits)
          qed
          moreover have "length xs + card (pt_pages (mem s) d) \<le> 1025 + npages a newsz"
            using ln u(5) pgt npages_step [OF lt an(1)] Cons by simp
          ultimately show ?thesis using run stt g by blast
        qed
      next
        assume r: "r = -1" and y0: "ys = []" and own: "set ys \<union> owned (mem u) d = set fs \<union> owned (mem ?t) d" and fo: "f \<notin> owned (mem u) d"
          and p: "pte (mem u) d = pte (mem ?t) d" and m: "umem (mem u) d = umem (mem ?t) d"
        obtain v zs where v: "deallocuvm d newsz oldsz u = Ok (oldsz, v)" "space_step d u ys v zs"
          "pte (mem v) d = clear_entries ?D (pte (mem u) d)" "umem (mem v) d = (\<lambda>va. if va \<in> ?D then None else umem (mem u) d va)"
          using dealloc [OF u(2) ku] by blast
        have kv: "kend v = kend s" using space_step_kend [OF v(2)] ku by simp
        have fv: "f \<notin> set zs" "f \<notin> owned (mem v) d" using v(2) u(4) fo by (auto simp: space_step_def)
        have "kernel_page (kend v) f" using tp(5) only_mem_kend [OF kz(2)] kv by simp
        from give_page [OF space_step_space [OF v(2)] this fv] obtain w where w: "kfree f v = Ok w" "space d w (f # zs)" "only_mem v w"
          "owned (mem w) d = owned (mem v) d" "pte (mem w) d = pte (mem v) d" "umem (mem w) d = umem (mem v) d"
          "\<forall>x. x \<noteq> f \<longrightarrow> same_page (mem v) (mem w) x" by blast
        have run: "allocuvm_loop d oldsz newsz a s = Ok (0, w)"
          using lt kz(1) tp(8) u(1) r v(1) w(1) by (subst allocuvm_loop.simps) simp
        have "only_mem s w" using om v(2) w(3) only_mem_trans unfolding space_step_def by blast
        moreover have "set (f # zs) \<union> owned (mem w) d = set xs \<union> owned (mem s) d"
          using v(2) own by (simp add: space_step_def w(4) Cons tp(2))
        moreover have "same_page (mem s) (mem w) x" if "x \<notin> set xs" "x \<notin> owned (mem s) d" for x
        proof -
          have "x \<noteq> f" "x \<notin> set ys" "x \<notin> owned (mem u) d" using that own Cons tp(2) by auto
          then have "same_page (mem u) (mem v) x" "same_page (mem v) (mem w) x" using v(2) w(7) by (auto simp: space_step_def)
          then show ?thesis using frame [OF that] same_page_trans by blast
        qed
        ultimately have "space_step d s xs w (f # zs)" using w(2) by (simp add: space_step_def)
        moreover have "length xs + card (pt_pages (mem s) d) \<le> 1025 + npages a newsz"
          using u(5) y0 pgt npages_step [OF lt an(1)] Cons card_pt_pages [of "mem u" d] by simp
        ultimately show ?thesis using run v(3,4) w(5,6) p m tp(3,4) cleared by auto
      qed
    qed
  qed
qed

section \<open>\<^verbatim>\<open>freevm\<close>\<close>

text \<open>The loop over the directory frees the tables of the entries it passes.\<close>

definition tables_of :: "memory \<Rightarrow> uint \<Rightarrow> nat set \<Rightarrow> uint set" where
  "tables_of m d I = {tab_of (pde m d (of_nat i)) | i. i \<in> I \<and> present (pde m d (of_nat i))}"

lemma tables_of_all: "tables_of m d {0..<1024} = tables m d"
proof -
  have "\<exists>k. k < 1024 \<and> i = of_nat k" if "i < (1024 :: uint)" for i
    using that by (intro exI [of _ "unat i"]) (simp add: word_less_nat_alt)
  moreover have "of_nat k < (1024 :: uint)" if "k < 1024" for k
    using that by (simp add: word_less_nat_alt unat_of_nat)
  ultimately show ?thesis unfolding tables_of_def tables_def by fastforce
qed

lemma of_nat_small: "j < 1024 \<Longrightarrow> k < 1024 \<Longrightarrow> (of_nat j :: uint) = of_nat k \<longleftrightarrow> j = k" "j < 1024 \<Longrightarrow> (of_nat j :: uint) < 1024"
  by (simp_all add: word_unat_eq_iff word_less_nat_alt unat_of_nat)

lemma freevm_entries:
  fixes s :: "'a kmem_st_scheme"
  assumes "kmem_inv s xs" and "distinct is" and "set is \<subseteq> {0..<1024}" and "d mod PGSIZE = 0"
    and "\<forall>t \<in> tables_of (mem s) d (set is). kernel_page (kend s) t \<and> t \<noteq> d \<and> t \<notin> set xs"
    and "\<forall>i \<in> set is. \<forall>j \<in> set is. present (pde (mem s) d (of_nat i)) \<longrightarrow> present (pde (mem s) d (of_nat j)) \<longrightarrow>
        tab_of (pde (mem s) d (of_nat i)) = tab_of (pde (mem s) d (of_nat j)) \<longrightarrow> i = j"
  shows "\<exists>s' ys. for_each (freevm_entry d) is s = Ok s' \<and> kmem_inv s' ys \<and> only_mem s s' \<and>
    set ys = set xs \<union> tables_of (mem s) d (set is) \<and>
    (\<forall>x. x \<notin> tables_of (mem s) d (set is) \<longrightarrow> same_page (mem s) (mem s') x)"
  using assms
proof (induction "is" arbitrary: s xs)
  case Nil
  then show ?case by (auto simp: tables_of_def)
next
  case (Cons i "is")
  let ?e = "pde (mem s) d (of_nat i)"
  have e: "ld32 (mem s) (d + 4 * of_nat i) = ?e" by (simp add: pde_def)
  show ?case
  proof (cases "present ?e")
    case False
    have T: "tables_of (mem s) d (insert i (set is)) = tables_of (mem s) d (set is)" using False by (auto simp: tables_of_def)
    have "freevm_entry d i s = Ok s" using False by (simp add: freevm_entry_def e present_def)
    moreover have "\<exists>s' ys. for_each (freevm_entry d) is s = Ok s' \<and> kmem_inv s' ys \<and> only_mem s s' \<and>
      set ys = set xs \<union> tables_of (mem s) d (set is) \<and> (\<forall>x. x \<notin> tables_of (mem s) d (set is) \<longrightarrow> same_page (mem s) (mem s') x)"
      by (rule Cons.IH) (use Cons.prems in \<open>simp_all add: T\<close>)
    ultimately show ?thesis by (simp add: T)
  next
    case True
    let ?t = "tab_of ?e"
    have T: "tables_of (mem s) d (insert i (set is)) = insert ?t (tables_of (mem s) d (set is))" using True by (auto simp: tables_of_def)
    have kt: "kernel_page (kend s) ?t" "?t \<noteq> d" "?t \<notin> set xs" using Cons.prems(5) by (simp_all add: T)
    obtain u where u: "kfree ?t s = Ok u" "kmem_inv u (?t # xs)" "kend u = kend s" "\<forall>x. x \<noteq> ?t \<longrightarrow> same_page (mem s) (mem u) x"
      using kfree_pushes [OF Cons.prems(1) kt(1,3)] by blast
    have om: "only_mem s u" using u(1) kt by (auto simp: kfree_alt)
    have pd: "pde (mem u) d (of_nat j) = pde (mem s) d (of_nat j)" if "j \<in> set is" for j
      using pde_same [of "mem s" "mem u" d] u(4) kt(2) Cons.prems(3,4) that of_nat_small(2) [of j] by (auto simp: subset_eq)
    have Tu: "tables_of (mem u) d (set is) = tables_of (mem s) d (set is)"
      unfolding tables_of_def by (rule Collect_cong) (use pd in metis)
    have nt: "?t \<notin> tables_of (mem s) d (set is)"
    proof
      assume "?t \<in> tables_of (mem s) d (set is)"
      then obtain j where j: "j \<in> set is" "present (pde (mem s) d (of_nat j))" "?t = tab_of (pde (mem s) d (of_nat j))"
        by (auto simp: tables_of_def)
      then have "i = j" using Cons.prems(6) True by auto
      with j(1) Cons.prems(2) show False by simp
    qed
    have "\<exists>s' ys. for_each (freevm_entry d) is u = Ok s' \<and> kmem_inv s' ys \<and> only_mem u s' \<and>
      set ys = set (?t # xs) \<union> tables_of (mem u) d (set is) \<and> (\<forall>x. x \<notin> tables_of (mem u) d (set is) \<longrightarrow> same_page (mem u) (mem s') x)"
    proof (rule Cons.IH [OF u(2)])
      show "\<forall>t \<in> tables_of (mem u) d (set is). kernel_page (kend u) t \<and> t \<noteq> d \<and> t \<notin> set (?t # xs)"
        using Cons.prems(5) nt by (auto simp: Tu u(3) T)
      show "\<forall>i \<in> set is. \<forall>j \<in> set is. present (pde (mem u) d (of_nat i)) \<longrightarrow> present (pde (mem u) d (of_nat j)) \<longrightarrow>
        tab_of (pde (mem u) d (of_nat i)) = tab_of (pde (mem u) d (of_nat j)) \<longrightarrow> i = j"
        using Cons.prems(6) pd by simp
    qed (use Cons.prems in simp_all)
    then obtain s' ys where s': "for_each (freevm_entry d) is u = Ok s'" "kmem_inv s' ys" "only_mem u s'"
      "set ys = set (?t # xs) \<union> tables_of (mem s) d (set is)"
      "\<forall>x. x \<notin> tables_of (mem s) d (set is) \<longrightarrow> same_page (mem u) (mem s') x" unfolding Tu by blast
    have "for_each (freevm_entry d) (i # is) s = Ok s'"
      using True u(1) s'(1) by (simp add: freevm_entry_def e present_def tab_of_def)
    moreover have "\<forall>x. x \<notin> tables_of (mem s) d (set (i # is)) \<longrightarrow> same_page (mem s) (mem s') x"
      using u(4) s'(5) same_page_trans unfolding list.set T by blast
    moreover have "set ys = set xs \<union> tables_of (mem s) d (set (i # is))" using s'(4) by (simp add: T)
    ultimately show ?thesis using s'(2) only_mem_trans [OF om s'(3)] by blast
  qed
qed

lemma freevm_ok:
  assumes sp: "space d s xs" and k: "KERNBASE < kend s"
  shows "\<exists>s' ys. freevm d s = Ok s' \<and> kmem_inv s' ys \<and> only_mem s s' \<and> set ys = set xs \<union> owned (mem s) d \<and>
    (\<forall>x. x \<notin> owned (mem s) d \<longrightarrow> x \<notin> set xs \<longrightarrow> same_page (mem s) (mem s') x)"
proof -
  obtain t ys where t: "deallocuvm_loop d KERNBASE 0 s = Ok t" "space_step d s xs t ys" "pt_pages (mem t) d = pt_pages (mem s) d"
    "set ys = set xs \<union> frames (mem s) d user_half"
    using dealloc_space [OF sp, of 0 KERNBASE] k unfolding user_half_pages by auto
  note td = spaceD [OF space_step_space [OF t(2)]]
  have de: "deallocuvm d KERNBASE 0 s = Ok (0, t)" using t(1) by (simp add: deallocuvm_def KERNBASE_def PGROUNDUP_def PGSIZE_def)
  have d: "kernel_page (kend t) d" "d mod PGSIZE = 0" "d \<notin> tables (mem t) d" by (rule pt_okD [OF td(3)])+
  have "\<exists>u zs. for_each (freevm_entry d) [0..<1024] t = Ok u \<and> kmem_inv u zs \<and> only_mem t u \<and>
    set zs = set ys \<union> tables_of (mem t) d (set [0..<1024]) \<and>
    (\<forall>x. x \<notin> tables_of (mem t) d (set [0..<1024]) \<longrightarrow> same_page (mem t) (mem u) x)"
  proof (rule freevm_entries [OF td(2) _ _ d(2)])
    show "\<forall>x \<in> tables_of (mem t) d (set [0..<1024]). kernel_page (kend t) x \<and> x \<noteq> d \<and> x \<notin> set ys"
      using pt_okD(4) [OF td(3)] d(3) td(5) by (auto simp: tables_of_all owned_def pt_pages_def simp del: upt_def)
    show "\<forall>i \<in> set [0..<1024]. \<forall>j \<in> set [0..<1024]. present (pde (mem t) d (of_nat i)) \<longrightarrow> present (pde (mem t) d (of_nat j)) \<longrightarrow>
        tab_of (pde (mem t) d (of_nat i)) = tab_of (pde (mem t) d (of_nat j)) \<longrightarrow> i = j"
    proof (intro ballI impI)
      fix i j assume "i \<in> set [0..<1024]" "j \<in> set [0..<1024]" and pr: "present (pde (mem t) d (of_nat i))" "present (pde (mem t) d (of_nat j))"
        "tab_of (pde (mem t) d (of_nat i)) = tab_of (pde (mem t) d (of_nat j))"
      then have ij: "i < 1024" "j < 1024" by simp_all
      have "(of_nat i :: uint) = of_nat j"
        using td(3) pr of_nat_small(2) [OF ij(1)] of_nat_small(2) [OF ij(2)] unfolding pt_ok_def by blast
      then show "i = j" using of_nat_small(1) [OF ij] by simp
    qed
  qed simp_all
  then obtain u zs where u: "for_each (freevm_entry d) [0..<1024] t = Ok u" "kmem_inv u zs" "only_mem t u"
    "set zs = set ys \<union> tables (mem t) d" "\<forall>x. x \<notin> tables (mem t) d \<longrightarrow> same_page (mem t) (mem u) x"
    unfolding set_upt tables_of_all by blast
  have ku: "kend u = kend t" by (rule only_mem_kend [OF u(3)])
  have dz: "d \<notin> set zs" using d(3) td(5) u(4) by (auto simp: owned_def pt_pages_def)
  have kd: "kernel_page (kend u) d" using d(1) ku by simp
  obtain v where v: "kfree d u = Ok v" "kmem_inv v (d # zs)" "\<forall>x. x \<noteq> d \<longrightarrow> same_page (mem u) (mem v) x"
    using kfree_pushes [OF u(2) kd dz] by blast
  have "for_each (freevm_entry d) [0..<NPDENTRIES] t = Ok u" using u(1) unfolding NPDENTRIES_def .
  then have "freevm d s = Ok v" using kernel_page_nonzero [OF d(1)] de v(1) by (simp add: freevm_def)
  moreover have "only_mem s v"
  proof -
    have "only_mem u v" using v(1) kd by (auto simp: kfree_alt)
    then show ?thesis using t(2) u(3) only_mem_trans unfolding space_step_def by blast
  qed
  moreover have "set (d # zs) = set xs \<union> owned (mem s) d" using u(4) t(3,4) by (auto simp: owned_def pt_pages_def)
  moreover have "same_page (mem s) (mem v) x" if "x \<notin> owned (mem s) d" "x \<notin> set xs" for x
  proof -
    have "x \<notin> tables (mem t) d" "x \<noteq> d" using that(1) t(3) by (auto simp: owned_def pt_pages_def)
    then have "same_page (mem t) (mem u) x" "same_page (mem u) (mem v) x" using u(5) v(3) by simp_all
    moreover have "same_page (mem s) (mem t) x" using t(2) that by (simp add: space_step_def)
    ultimately show ?thesis using same_page_trans by blast
  qed
  ultimately show ?thesis using v(2) by blast
qed

end
