(* ===== verification/Kvm.thy ===== *)
theory Kvm
  imports Uvm Kernel
begin

text \<open>
  \<^verbatim>\<open>setupkvm\<close>, \<^verbatim>\<open>copyuvm\<close> and \<^verbatim>\<open>copyout\<close> of \<^verbatim>\<open>vm.c\<close>: the kernel's half of an address space as the hardware translates it,
  the copy of an address space that \<^verbatim>\<open>fork\<close> gives the child, and the properties of the virtual memory code.
\<close>

section \<open>\<^verbatim>\<open>setupkvm\<close>\<close>

lemma vidx_range:
  assumes al: "a mod PGSIZE = 0" and fit: "unat a + 4096 * N \<le> 2 ^ 32"
  shows "vidx a va < N \<longleftrightarrow> unat a \<le> unat va \<and> unat va < unat a + 4096 * N"
proof -
  obtain q where q: "unat a = 4096 * q" using aligned_unat [OF al] by metis
  have un: "unat (PGROUNDDOWN va) = 4096 * (unat va div 4096)"
  proof -
    have "unat va div 4096 * 4096 < 2 ^ 32" using unat_uint_less [of va] by (simp add: div_less_iff_less_mult)
    then show ?thesis by (simp add: PGROUNDDOWN_eq minus_mod_eq_div_mult PGSIZE_def unat_word_ariths unat_div_distrib)
  qed
  have v: "unat va div 4096 < 1048576" using unat_uint_less [of va] by (simp add: div_less_iff_less_mult)
  have qN: "q + N \<le> 1048576" using fit q by simp
  let ?p = "unat va div 4096"
  have lo: "unat a \<le> unat va \<longleftrightarrow> q \<le> ?p" by (simp add: q less_eq_div_iff_mult_less_eq mult.commute)
  have hi: "unat va < unat a + 4096 * N \<longleftrightarrow> ?p < q + N" by (auto simp: q div_less_iff_less_mult)
  have "vidx a va = (if q \<le> ?p then ?p - q else 1048576 + ?p - q)"
    using v by (auto simp: vidx_def unat_sub_if_size word_size un q word_le_nat_alt)
  then show ?thesis using lo hi qN v by auto
qed

definition in_range :: "uint \<Rightarrow> uint \<Rightarrow> uint \<Rightarrow> bool" where
  "in_range a sz va \<longleftrightarrow> unat a \<le> unat va \<and> unat va < unat a + unat sz"

definition range_ok :: "uint \<Rightarrow> uint \<Rightarrow> bool" where
  "range_ok a sz \<longleftrightarrow> a mod PGSIZE = 0 \<and> sz mod PGSIZE = 0 \<and> sz \<noteq> 0 \<and> unat a + unat sz \<le> 2 ^ 32"

definition enter_range :: "uint \<Rightarrow> uint \<Rightarrow> uint \<Rightarrow> uint \<Rightarrow> (uint \<Rightarrow> uint) \<Rightarrow> uint \<Rightarrow> uint" where
  "enter_range a sz pa perm f va = (if in_range a sz va then (pa + (PGROUNDDOWN va - a)) OR perm OR PTE_P else f va)"

lemma mappages_range:
  assumes i: "pt_inv d s xs" and r: "range_ok a sz" and np: "\<forall>va. in_range a sz va \<longrightarrow> \<not> present (pte (mem s) d va)"
  shows "\<exists>r s' ys. mappages d a sz pa perm s = Ok (r, s') \<and> pt_step d s xs s' ys \<and>
    (r = 0 \<and> pte (mem s') d = enter_range a sz pa perm (pte (mem s) d) \<or>
     r = -1 \<and> ys = [] \<and> (\<forall>va. \<not> in_range a sz va \<longrightarrow> pte (mem s') d va = pte (mem s) d va))"
proof -
  have al: "a mod PGSIZE = 0" and fit: "unat a + unat sz \<le> 2 ^ 32" using r by (simp_all add: range_ok_def)
  obtain q where q: "unat a = 4096 * q" using aligned_unat [OF al] by metis
  obtain N where N: "unat sz = 4096 * N" using r aligned_unat unfolding range_ok_def by metis
  have "sz \<noteq> 0" using r by (simp add: range_ok_def)
  then have "N \<noteq> 0" using N by (auto simp: word_unat_eq_iff)
  then obtain n where n: "N = Suc n" by (cases N) auto
  have n20: "n < 2 ^ 20" using fit N n by simp
  have last: "PGROUNDDOWN (a + sz - 1) - a = of_nat (4096 * n)"
  proof -
    have "sz = of_nat (4096 * N)" using N by (metis of_nat_unat ucast_id)
    then have "a + sz - 1 = (a + of_nat (4096 * n)) + 4095" by (simp add: n)
    moreover have "(a + of_nat (4096 * n)) mod PGSIZE = 0"
    proof -
      have "unat (a + of_nat (4096 * n)) = 4096 * (q + n)" using fit q N n by (simp add: unat_add_of_nat del: of_nat_mult)
      then show ?thesis by (simp add: aligned_iff)
    qed
    moreover have "(4095 :: uint) < PGSIZE" by (simp add: PGSIZE_def)
    ultimately have "PGROUNDDOWN (a + sz - 1) = a + of_nat (4096 * n)" by (metis PGROUNDDOWN_add_small)
    then show ?thesis by simp
  qed
  have "unat ((PGROUNDDOWN (a + sz - 1) - a) div PGSIZE) = n"
    unfolding last using n20 by (simp add: PGSIZE_def unat_div_distrib unat_of_nat del: of_nat_mult)
  moreover have "PGROUNDDOWN a = a" using al by (simp add: PGROUNDDOWN_eq)
  ultimately have run: "mappages d a sz pa perm s = mappages_loop n d a pa perm s" by (simp add: mappages_def)
  have vr: "vidx a va < Suc n \<longleftrightarrow> in_range a sz va" for va
    using vidx_range [OF al, of "Suc n" va] fit N n by (simp add: in_range_def)
  have "\<forall>va. vidx a va \<le> n \<longrightarrow> \<not> present (pte (mem s) d va)" using np vr by (simp add: less_Suc_eq_le)
  from mappages_loop_ok [OF i al n20 this, of pa perm] obtain r s' ys j where m: "mappages_loop n d a pa perm s = Ok (r, s')" "pt_step d s xs s' ys"
    "pte (mem s') d = map_entries j a pa perm (pte (mem s) d)" "r = 0 \<and> j = Suc n \<or> r = -1 \<and> j \<le> n \<and> ys = []" by blast
  from m(4) have "r = 0 \<and> pte (mem s') d = enter_range a sz pa perm (pte (mem s) d) \<or>
     r = -1 \<and> ys = [] \<and> (\<forall>va. \<not> in_range a sz va \<longrightarrow> pte (mem s') d va = pte (mem s) d va)"
  proof (elim disjE conjE)
    assume "r = 0" "j = Suc n"
    then show ?thesis using vr by (simp add: m(3) map_entries_def enter_range_def fun_eq_iff)
  next
    assume j: "r = -1" "j \<le> n" "ys = []"
    have "pte (mem s') d va = pte (mem s) d va" if "\<not> in_range a sz va" for va
      using vr [of va] that j(2) by (simp add: m(3) map_entries_def)
    then show ?thesis using j(1,3) by simp
  qed
  then show ?thesis using run m(1,2) by auto
qed

text \<open>A new directory is empty.\<close>

lemma fresh_dir:
  assumes inv: "kmem_inv s (d # xs)"
  defines "t \<equiv> zero_page d (s\<lparr>freelist := ld32 (mem s) d\<rparr>)"
  shows "pt_inv d t xs" "pte (mem t) d = (\<lambda>va. 0)" "pt_pages (mem t) d = {d}" "only_mem s t" "kernel_page (kend s) d" "d \<noteq> 0"
    "\<forall>x. x \<noteq> d \<longrightarrow> same_page (mem s) (mem t) x"
proof -
  show kd: "kernel_page (kend s) d" using inv by (simp add: kmem_inv_def)
  show "d \<noteq> 0" by (rule kernel_page_nonzero [OF kd])
  note al = kernel_page_aligned [OF kd]
  have pd: "pde (mem t) d i = 0" if "i < 1024" for i
    using zero_page_slots [OF al that] by (simp add: t_def zero_page_def pde_def)
  have tb: "tables (mem t) d = {}" using pd by (auto simp: tables_def)
  show "pte (mem t) d = (\<lambda>va. 0)" by (simp add: pte_def pd PDX_less fun_eq_iff)
  show pg: "pt_pages (mem t) d = {d}" by (simp add: pt_pages_def tb)
  show "only_mem s t" by (simp add: t_def only_mem_def zero_page_def)
  then have kend: "kend t = kend s" by (rule only_mem_kend)
  show same: "\<forall>x. x \<noteq> d \<longrightarrow> same_page (mem s) (mem t) x" using memset_page_other [OF al] by (simp add: t_def zero_page_def)
  have "kmem_inv t xs"
  proof (rule kmem_inv_same_pages [OF kalloc_head(2) [OF inv]])
    show "same_page (mem (s\<lparr>freelist := ld32 (mem s) d\<rparr>)) (mem t) x" if "x \<in> set xs" for x
    proof -
      have "x \<noteq> d" using that inv by (auto simp: kmem_inv_def)
      then show ?thesis using same by simp
    qed
  qed (simp_all add: t_def zero_page_def)
  moreover have "pt_ok (kend s) (mem t) d" using kd pd tb by (simp add: pt_ok_def)
  ultimately show "pt_inv d t xs" using inv by (auto simp: pt_inv_def pg kend kmem_inv_def)
qed

lemma space_no_user:
  assumes "pt_inv d s xs" and "\<forall>va. va < KERNBASE \<longrightarrow> \<not> present (pte (mem s) d va)"
  shows "space d s xs" "owned (mem s) d = pt_pages (mem s) d"
proof -
  have "frames (mem s) d user_half = {}" using assms(2) by (auto simp: frames_def user_half_def)
  then show "space d s xs" "owned (mem s) d = pt_pages (mem s) d"
    using assms by (auto simp: space_def user_ok_def owned_def user_half_def)
qed

text \<open>
  The kernel's half of an address space: the linear map of the physical memory, read-only for the kernel's text, and the devices.
\<close>

definition kern_pte :: "uint \<Rightarrow> uint \<Rightarrow> uint" where
  "kern_pte dat va =
     (if va < KERNBASE then 0
      else if va < P2V PHYSTOP then V2P (PGROUNDDOWN va) OR (if KERNLINK \<le> va \<and> va < dat then 0 else PTE_W) OR PTE_P
      else if va < DEVSPACE then 0 else PGROUNDDOWN va OR PTE_W OR PTE_P)"

definition enter_kmap :: "kmap_entry \<Rightarrow> (uint \<Rightarrow> uint) \<Rightarrow> uint \<Rightarrow> uint" where
  "enter_kmap k = enter_range (km_virt k) (km_end k - km_start k) (km_start k) (km_perm k)"

definition kmap_in :: "kmap_entry \<Rightarrow> uint \<Rightarrow> bool" where
  "kmap_in k = in_range (km_virt k) (km_end k - km_start k)"

primrec kmap_ok :: "kmap_entry list \<Rightarrow> bool" where
  "kmap_ok [] = True"
| "kmap_ok (k # ks) \<longleftrightarrow> range_ok (km_virt k) (km_end k - km_start k) \<and> KERNBASE \<le> km_virt k \<and>
     (\<forall>l \<in> set ks. \<forall>va. kmap_in k va \<longrightarrow> \<not> kmap_in l va) \<and> kmap_ok ks"

text \<open>The linker script puts \<^verbatim>\<open>data\<close> on a page of its own, above the kernel's text and below the end of memory.\<close>

definition data_ok :: "uint \<Rightarrow> bool" where
  "data_ok dat \<longleftrightarrow> dat mod PGSIZE = 0 \<and> KERNLINK < dat \<and> dat < P2V PHYSTOP"

lemmas layout_defs = KERNBASE_def KERNLINK_def EXTMEM_def PHYSTOP_def DEVSPACE_def P2V_def V2P_def

lemma kmap_sizes:
  assumes "data_ok dat"
  shows "unat (V2P dat - V2P KERNLINK) = unat dat - 0x80100000" "unat (PHYSTOP - V2P dat) = 0x8E000000 - unat dat"
    "0x80100000 < unat dat" "unat dat < 0x8E000000"
proof -
  show lo: "0x80100000 < unat dat" and hi: "unat dat < 0x8E000000" using assms by (simp_all add: data_ok_def layout_defs word_less_nat_alt)
  have "V2P dat - V2P KERNLINK = dat - 0x80100000" "PHYSTOP - V2P dat = 0x8E000000 - dat" by (simp_all add: layout_defs)
  then show "unat (V2P dat - V2P KERNLINK) = unat dat - 0x80100000" "unat (PHYSTOP - V2P dat) = 0x8E000000 - unat dat"
    using lo hi by (simp_all add: unat_sub_if_size word_size word_le_nat_alt)
qed

lemma kmap_kmap_ok:
  assumes "data_ok dat"
  shows "kmap_ok (kmap dat)"
proof -
  note ks = kmap_sizes [OF assms]
  obtain q where q: "unat dat = 4096 * q" using assms aligned_unat unfolding data_ok_def by metis
  have al: "dat mod PGSIZE = 0" "(V2P dat - V2P KERNLINK) mod PGSIZE = 0" "(PHYSTOP - V2P dat) mod PGSIZE = 0"
    using assms ks q by (auto simp: data_ok_def aligned_iff)
  have nz: "V2P dat - V2P KERNLINK \<noteq> 0" "PHYSTOP - V2P dat \<noteq> 0" using ks by (auto simp: word_unat_eq_iff)
  have c: "unat KERNBASE = 0x80000000" "unat KERNLINK = 0x80100000" "unat EXTMEM = 0x100000" "unat DEVSPACE = 0xFE000000"
    "unat (- DEVSPACE) = 0x2000000" by (simp_all add: layout_defs)
  have a2: "KERNLINK mod PGSIZE = 0" "EXTMEM mod PGSIZE = 0" "DEVSPACE mod PGSIZE = 0" "- DEVSPACE mod PGSIZE = 0" "EXTMEM \<noteq> 0" "DEVSPACE \<noteq> 0"
    "KERNBASE \<le> KERNLINK" "KERNBASE \<le> DEVSPACE"
    by (simp_all add: layout_defs PGSIZE_def)
  have "KERNBASE \<le> dat" using ks by (simp add: word_le_nat_alt c)
  then show ?thesis
    using al nz a2 ks by (auto simp: kmap_def kmap_in_def in_range_def range_ok_def c)
qed

lemma kmap_entries:
  assumes "data_ok dat"
  shows "fold enter_kmap (kmap dat) (\<lambda>va. 0) = kern_pte dat"
proof
  fix va :: uint
  note ks = kmap_sizes [OF assms]
  have c: "unat KERNBASE = 0x80000000" "unat KERNLINK = 0x80100000" "unat EXTMEM = 0x100000" "unat DEVSPACE = 0xFE000000"
    "unat (- DEVSPACE) = 0x2000000" "unat (P2V PHYSTOP) = 0x8E000000" by (simp_all add: layout_defs)
  have "unat va < 0x100000000" using unat_uint_less [of va] by simp
  moreover have "V2P KERNLINK + (x - KERNLINK) = V2P x" "V2P dat + (x - dat) = V2P x" "x - KERNBASE = V2P x" "DEVSPACE + (x - DEVSPACE) = x" for x
    by (simp_all add: V2P_def)
  ultimately show "fold enter_kmap (kmap dat) (\<lambda>va. 0) va = kern_pte dat va"
    using ks by (auto simp: kmap_def enter_kmap_def enter_range_def in_range_def kern_pte_def word_less_nat_alt word_le_nat_alt c)
qed

lemma in_range_user: "KERNBASE \<le> a \<Longrightarrow> in_range a sz va \<Longrightarrow> \<not> va < KERNBASE"
  by (auto simp: in_range_def word_le_nat_alt word_less_nat_alt)

lemma setupkvm_loop_ok:
  fixes s :: "'a kmem_st_scheme"
  assumes "pt_inv d s xs" and "kmap_ok ks" and "\<forall>va. va < KERNBASE \<longrightarrow> \<not> present (pte (mem s) d va)"
    and "\<forall>k \<in> set ks. \<forall>va. kmap_in k va \<longrightarrow> \<not> present (pte (mem s) d va)" and "KERNBASE < kend s"
  shows "\<exists>r s' ys. setupkvm_loop d ks s = Ok (r, s') \<and> only_mem s s' \<and>
    (\<forall>x. x \<notin> set xs \<longrightarrow> x \<notin> pt_pages (mem s) d \<longrightarrow> same_page (mem s) (mem s') x) \<and>
    (r = d \<and> pt_step d s xs s' ys \<and> pte (mem s') d = fold enter_kmap ks (pte (mem s) d) \<or>
     r = 0 \<and> kmem_inv s' ys \<and> set ys = set xs \<union> pt_pages (mem s) d \<and> length xs + card (pt_pages (mem s) d) \<le> 1025)"
  using assms
proof (induction ks arbitrary: s xs)
  case Nil
  then show ?case using pt_step_refl [OF Nil(1)] by auto
next
  case (Cons k ks)
  let ?a = "km_virt k" and ?sz = "km_end k - km_start k"
  have rk: "range_ok ?a ?sz" "KERNBASE \<le> ?a" "kmap_ok ks" using Cons.prems(2) by simp_all
  have np: "\<forall>va. in_range ?a ?sz va \<longrightarrow> \<not> present (pte (mem s) d va)" using Cons.prems(4) by (simp add: kmap_in_def)
  obtain r t ys where t: "mappages d ?a ?sz (km_start k) (km_perm k) s = Ok (r, t)" "pt_step d s xs t ys"
    "r = 0 \<and> pte (mem t) d = enter_range ?a ?sz (km_start k) (km_perm k) (pte (mem s) d) \<or>
     r = -1 \<and> ys = [] \<and> (\<forall>va. \<not> in_range ?a ?sz va \<longrightarrow> pte (mem t) d va = pte (mem s) d va)"
    using mappages_range [OF Cons.prems(1) rk(1) np, of "km_start k" "km_perm k"] by blast
  have it: "pt_inv d t ys" and om: "only_mem s t" and ys: "set ys \<subseteq> set xs" and pg: "pt_pages (mem t) d = pt_pages (mem s) d \<union> (set xs - set ys)"
    and same: "\<And>x. x \<notin> pt_pages (mem t) d \<Longrightarrow> same_page (mem s) (mem t) x" using t(2) by (simp_all add: pt_step_def)
  have len: "length xs + card (pt_pages (mem s) d) = length ys + card (pt_pages (mem t) d)" by (rule pt_step_length [OF Cons.prems(1) t(2)])
  have kt: "kend t = kend s" by (rule only_mem_kend [OF om])
  have out: "pte (mem t) d va = pte (mem s) d va" if "\<not> kmap_in k va" for va
    using t(3) that by (auto simp: kmap_in_def enter_range_def)
  have user: "\<forall>va. va < KERNBASE \<longrightarrow> \<not> present (pte (mem t) d va)"
    using Cons.prems(3) out in_range_user [OF rk(2), of ?sz] unfolding kmap_in_def by metis
  from t(3) show ?case
  proof (elim disjE conjE)
    assume r: "r = 0" and p: "pte (mem t) d = enter_range ?a ?sz (km_start k) (km_perm k) (pte (mem s) d)"
    have "\<forall>l \<in> set ks. \<forall>va. kmap_in l va \<longrightarrow> \<not> present (pte (mem t) d va)"
      using Cons.prems(2,4) out by (metis kmap_ok.simps(2) list.set_intros(2))
    from Cons.IH [OF it rk(3) user this] obtain r' s' zs where s': "setupkvm_loop d ks t = Ok (r', s')" "only_mem t s'"
      "\<forall>x. x \<notin> set ys \<longrightarrow> x \<notin> pt_pages (mem t) d \<longrightarrow> same_page (mem t) (mem s') x"
      "r' = d \<and> pt_step d t ys s' zs \<and> pte (mem s') d = fold enter_kmap ks (pte (mem t) d) \<or>
       r' = 0 \<and> kmem_inv s' zs \<and> set zs = set ys \<union> pt_pages (mem t) d \<and> length ys + card (pt_pages (mem t) d) \<le> 1025"
      using Cons.prems(5) kt by auto
    have "setupkvm_loop d (k # ks) s = Ok (r', s')" using t(1) r s'(1) by simp
    moreover have "only_mem s s'" by (rule only_mem_trans [OF om s'(2)])
    moreover have "same_page (mem s) (mem s') x" if "x \<notin> set xs" "x \<notin> pt_pages (mem s) d" for x
    proof -
      have "x \<notin> set ys" "x \<notin> pt_pages (mem t) d" using that ys pg by auto
      then show ?thesis using same s'(3) same_page_trans by blast
    qed
    moreover have "r' = d \<and> pt_step d s xs s' zs \<and> pte (mem s') d = fold enter_kmap (k # ks) (pte (mem s) d) \<or>
       r' = 0 \<and> kmem_inv s' zs \<and> set zs = set xs \<union> pt_pages (mem s) d \<and> length xs + card (pt_pages (mem s) d) \<le> 1025"
      using s'(4)
    proof (elim disjE conjE)
      assume "r' = d" "pt_step d t ys s' zs" "pte (mem s') d = fold enter_kmap ks (pte (mem t) d)"
      then show ?thesis using pt_step_trans [OF t(2)] p by (simp add: enter_kmap_def)
    next
      assume "r' = 0" "kmem_inv s' zs" "set zs = set ys \<union> pt_pages (mem t) d" "length ys + card (pt_pages (mem t) d) \<le> 1025"
      then show ?thesis using pg ys len by auto
    qed
    ultimately show ?thesis by blast
  next
    assume r: "r = -1" and y0: "ys = []"
    note nu = space_no_user [OF it user]
    obtain s' zs where s': "freevm d t = Ok s'" "kmem_inv s' zs" "only_mem t s'" "set zs = set ys \<union> pt_pages (mem t) d"
      "\<forall>x. x \<notin> pt_pages (mem t) d \<longrightarrow> x \<notin> set ys \<longrightarrow> same_page (mem t) (mem s') x"
      using freevm_ok [OF nu(1)] Cons.prems(5) unfolding nu(2) kt by blast
    have "setupkvm_loop d (k # ks) s = Ok (0, s')" using t(1) r s'(1) by simp
    moreover have "only_mem s s'" by (rule only_mem_trans [OF om s'(3)])
    moreover have "same_page (mem s) (mem s') x" if "x \<notin> set xs" "x \<notin> pt_pages (mem s) d" for x
    proof -
      have "x \<notin> set ys" "x \<notin> pt_pages (mem t) d" using that ys pg by auto
      then show ?thesis using same s'(5) same_page_trans by blast
    qed
    moreover have "set zs = set xs \<union> pt_pages (mem s) d" using s'(4) pg ys by auto
    moreover have "length xs + card (pt_pages (mem s) d) \<le> 1025" using len y0 card_pt_pages [of "mem t" d] by simp
    ultimately show ?thesis using s'(2) by blast
  qed
qed

lemma setupkvm_ok:
  assumes inv: "kmem_inv s xs" and dat: "data_ok (kdata s)" and k: "KERNBASE < kend s"
  shows "\<exists>r s' ys. setupkvm s = Ok (r, s') \<and> only_mem s s' \<and> (\<forall>x. x \<notin> set xs \<longrightarrow> same_page (mem s) (mem s') x) \<and>
    (r \<noteq> 0 \<and> space r s' ys \<and> pte (mem s') r = kern_pte (kdata s) \<and> set ys \<union> owned (mem s') r = set xs \<or>
     r = 0 \<and> kmem_inv s' ys \<and> set ys = set xs \<and> length xs \<le> 1025)"
proof (cases xs)
  case Nil
  then show ?thesis using inv kalloc_empty [of s] by (auto simp: setupkvm_def)
next
  case (Cons d ds)
  let ?t = "zero_page d (s\<lparr>freelist := ld32 (mem s) d\<rparr>)"
  have invc: "kmem_inv s (d # ds)" using inv Cons by simp
  note fd = fresh_dir [OF invc]
  have "KERNBASE < kend ?t" using k by (simp add: zero_page_def)
  moreover have "\<forall>va. va < KERNBASE \<longrightarrow> \<not> present (pte (mem ?t) d va)"
    "\<forall>l \<in> set (kmap (kdata s)). \<forall>va. kmap_in l va \<longrightarrow> \<not> present (pte (mem ?t) d va)" by (simp_all only: fd(2)) simp_all
  ultimately obtain r s' ys where s': "setupkvm_loop d (kmap (kdata s)) ?t = Ok (r, s')" "only_mem ?t s'"
    "\<forall>x. x \<notin> set ds \<longrightarrow> x \<notin> pt_pages (mem ?t) d \<longrightarrow> same_page (mem ?t) (mem s') x"
    "r = d \<and> pt_step d ?t ds s' ys \<and> pte (mem s') d = fold enter_kmap (kmap (kdata s)) (pte (mem ?t) d) \<or>
     r = 0 \<and> kmem_inv s' ys \<and> set ys = set ds \<union> pt_pages (mem ?t) d \<and> length ds + card (pt_pages (mem ?t) d) \<le> 1025"
    using setupkvm_loop_ok [OF fd(1) kmap_kmap_ok [OF dat]] by blast
  have "\<not> DEVSPACE < P2V PHYSTOP" by (simp add: layout_defs)
  then have "setupkvm s = Ok (r, s')" using s'(1) kalloc_head(1) [OF invc] fd(6) by (simp add: setupkvm_def)
  moreover have "only_mem s s'" by (rule only_mem_trans [OF fd(4) s'(2)])
  moreover have "same_page (mem s) (mem s') x" if "x \<notin> set xs" for x
  proof -
    have "x \<noteq> d" "x \<notin> set ds" "x \<notin> pt_pages (mem ?t) d" using that Cons fd(3) by simp_all
    then have "same_page (mem s) (mem ?t) x" "same_page (mem ?t) (mem s') x" using fd(7) s'(3) by blast+
    then show ?thesis by (rule same_page_trans)
  qed
  moreover from s'(4) have "r \<noteq> 0 \<and> space r s' ys \<and> pte (mem s') r = kern_pte (kdata s) \<and> set ys \<union> owned (mem s') r = set xs \<or>
     r = 0 \<and> kmem_inv s' ys \<and> set ys = set xs \<and> length xs \<le> 1025"
  proof (elim disjE conjE)
    assume r: "r = d" "pt_step d ?t ds s' ys" "pte (mem s') d = fold enter_kmap (kmap (kdata s)) (pte (mem ?t) d)"
    have p: "pte (mem s') d = kern_pte (kdata s)" using r(3) fd(2) kmap_entries [OF dat] by simp
    have i: "pt_inv d s' ys" "set ys \<subseteq> set ds" "pt_pages (mem s') d = {d} \<union> (set ds - set ys)" using r(2) fd(3) by (simp_all add: pt_step_def)
    have "\<forall>va. va < KERNBASE \<longrightarrow> \<not> present (pte (mem s') d va)" by (simp add: p kern_pte_def)
    note nu = space_no_user [OF i(1) this]
    show ?thesis using r(1) fd(6) nu p i Cons by auto
  next
    assume "r = 0" "kmem_inv s' ys" "set ys = set ds \<union> pt_pages (mem ?t) d" "length ds + card (pt_pages (mem ?t) d) \<le> 1025"
    then show ?thesis using fd(3) Cons by auto
  qed
  ultimately show ?thesis by blast
qed

section \<open>\<^verbatim>\<open>copyuvm\<close>\<close>

lemma copy_page:
  assumes "kernel_page e f" and "kernel_page e g" and m'_def: "m' = memmove m f g PGSIZE"
  shows "\<forall>x. x \<noteq> f \<longrightarrow> same_page m m' x" "m' (f + va mod PGSIZE) = m (g + va mod PGSIZE)"
proof -
  have "m' = mem_copy m f g PGSIZE"
    unfolding m'_def using unat_kernel_page [OF assms(1)] unat_kernel_page [OF assms(2)]
    by (intro memmove_copies) (simp_all add: PGSIZE_def)
  then show "\<forall>x. x \<noteq> f \<longrightarrow> same_page m m' x" "m' (f + va mod PGSIZE) = m (g + va mod PGSIZE)"
    by (simp_all add: mem_copy_def same_page_def in_page_iff [OF kernel_page_aligned [OF assms(1)]] PGROUNDDOWN_add_small
        [OF kernel_page_aligned [OF assms(1)]])
qed

lemma PTE_FLAGS_less: "PTE_FLAGS e < 4096"
proof -
  have "e AND 0xFFF < 4096" unfolding and_mask12 by (rule word_mod_less_divisor) simp
  then show ?thesis by (simp add: PTE_FLAGS_def)
qed

lemma PTE_FLAGS_present: "present e \<Longrightarrow> PTE_FLAGS e OR PTE_P = PTE_FLAGS e"
proof -
  assume "present e"
  then have z: "bit (e AND PTE_P) 0" by (simp add: present_def PTE_P_def and_one_eq bit_0)
  then have "bit e 0" by (simp add: bit_simps)
  then show ?thesis unfolding PTE_FLAGS_def PTE_P_def mask12 by (intro bit_word_eqI) (auto simp: bit_simps bit_1_iff)
qed

text \<open>Steps on one address space leave another, that owns other pages, alone.\<close>

lemma space_other:
  assumes sp: "space p s xs" and dis: "owned (mem s) p \<inter> D = {}"
    and same: "\<forall>x. x \<notin> set xs \<longrightarrow> x \<notin> D \<longrightarrow> same_page (mem s) (mem s') x" and inv: "kmem_inv s' ys" and ke: "kend s' = kend s"
    and ys: "set ys \<subseteq> set xs \<union> D"
  shows "space p s' ys" "umem (mem s') p = umem (mem s) p" "pte (mem s') p = pte (mem s) p" "owned (mem s') p = owned (mem s) p"
proof -
  have own: "\<forall>x \<in> owned (mem s) p. same_page (mem s) (mem s') x" using same dis spaceD(5) [OF sp] by blast
  show "space p s' ys" by (rule space_same [OF sp own inv ke]) (use ys dis spaceD(5) [OF sp] in blast)
  show "umem (mem s') p = umem (mem s) p" "pte (mem s') p = pte (mem s) p" "owned (mem s') p = owned (mem s) p"
    by (rule umem_same [OF spaceD(3) [OF sp] own])+
qed

definition copied :: "memory \<Rightarrow> uint \<Rightarrow> uint set \<Rightarrow> memory \<Rightarrow> uint \<Rightarrow> bool" where
  "copied m p P m' d \<longleftrightarrow> umem m' d = (\<lambda>va. if va \<in> P then umem m p va else umem m d va) \<and>
     (\<forall>va. if va \<in> P then present (pte m' d va) \<and> PTE_FLAGS (pte m' d va) = PTE_FLAGS (pte m p va) else pte m' d va = pte m d va)"

lemma copyuvm_loop_ok:
  fixes s :: "'a kmem_st_scheme"
  assumes "space d s xs" and "space p s xs" and "owned (mem s) p \<inter> owned (mem s) d = {}"
    and "\<forall>va \<in> pages_in i sz. present (pte (mem s) p va) \<and> \<not> present (pte (mem s) d va)"
    and "i mod PGSIZE = 0" and "sz \<le> KERNBASE" and "KERNBASE < kend s"
  shows "\<exists>r s' ys. copyuvm_loop p d sz i s = Ok (r, s') \<and> only_mem s s' \<and>
    (\<forall>x. x \<notin> set xs \<longrightarrow> x \<notin> owned (mem s) d \<longrightarrow> same_page (mem s) (mem s') x) \<and>
    (r = d \<and> space d s' ys \<and> set ys \<union> owned (mem s') d = set xs \<union> owned (mem s) d \<and> copied (mem s) p (pages_in i sz) (mem s') d \<or>
     r = 0 \<and> kmem_inv s' ys \<and> set ys = set xs \<union> owned (mem s) d \<and> length xs + card (pt_pages (mem s) d) \<le> 1025 + npages i sz)"
  using assms
proof (induction "unat sz - unat i" arbitrary: i s xs rule: less_induct)
  case less
  note sp = less.prems(1) and pp = less.prems(2) and dis = less.prems(3) and pr = less.prems(4) and al = less.prems(5) and k = less.prems(7)
  show ?case
  proof (cases "i < sz")
    case False
    then have "pages_in i sz = {}" by (auto simp: pages_in_def)
    then show ?thesis using False sp by (subst copyuvm_loop.simps) (auto simp: copied_def fun_eq_iff)
  next
    case lt: True
    let ?e = "pte (mem s) p i" and ?g = "frame_of (mem s) p i" and ?P = "pages_in i sz"
    have i31: "unat i < 2 ^ 31" using lt less.prems(6) by (simp add: word_less_nat_alt word_le_nat_alt KERNBASE_def)
    have an: "unat (i + PGSIZE) = unat i + 4096" "i + PGSIZE \<noteq> 0" using i31 by (auto simp: PGSIZE_def word_unat_eq_iff unat_word_ariths)
    have di: "PGROUNDDOWN i = i" using al by (simp add: PGROUNDDOWN_eq)
    have iP: "i \<in> ?P" using lt di by (simp add: pages_in_def)
    have ik: "i < KERNBASE" using lt less.prems(6) by simp
    have pe: "present ?e" and npd: "\<not> present (pte (mem s) d i)" using pr iP by simp_all
    have ptd: "present (pde (mem s) p (PDX i))" using pe by (auto simp: pte_def split: if_splits)
    have w: "fst (walkpgdir p i False s) \<noteq> 0" "ld32 (mem s) (fst (walkpgdir p i False s)) = ?e"
      using pte_addr_nonzero [OF spaceD(3) [OF pp] ptd] pte_addr_pte [OF ptd] ptd by (simp_all add: walkpgdir_noalloc pte_addr_def)
    have gO: "?g \<in> owned (mem s) p" using frame_pages [OF ik pe] by (simp add: owned_def)
    show ?thesis
    proof (cases xs)
      case Nil
      obtain s' ys where s': "freevm d s = Ok s'" "kmem_inv s' ys" "only_mem s s'" "set ys = set xs \<union> owned (mem s) d"
        "\<forall>x. x \<notin> owned (mem s) d \<longrightarrow> x \<notin> set xs \<longrightarrow> same_page (mem s) (mem s') x"
        using freevm_ok [OF sp k] by blast
      have "kalloc s = (0, s)" using spaceD(2) [OF sp] Nil by (simp add: kalloc_empty)
      then have "copyuvm_loop p d sz i s = Ok (0, s')"
        using lt w pe s'(1) by (subst copyuvm_loop.simps) (simp add: present_def Let_def)
      moreover have "length xs + card (pt_pages (mem s) d) \<le> 1025 + npages i sz" using Nil card_pt_pages [of "mem s" d] by simp
      ultimately show ?thesis using s' by blast
    next
      case (Cons f fs)
      let ?s1 = "s\<lparr>freelist := ld32 (mem s) f\<rparr>" and ?F = "PTE_FLAGS ?e"
      let ?t = "?s1\<lparr>mem := memmove (mem ?s1) f (P2V (PTE_ADDR ?e)) PGSIZE\<rparr>"
      have spc: "space d s (f # fs)" "space p s (f # fs)" using sp pp Cons by simp_all
      have kf: "kernel_page (kend s) f" using spaceD(2) [OF spc(1)] by (simp add: kmem_inv_def)
      have kg: "kernel_page (kend s) ?g" by (rule spaceD(6) [OF pp gO])
      have mt: "mem ?t = memmove (mem s) f ?g PGSIZE" by (simp add: frame_of_def tab_of_def)
      note cp = copy_page [OF kf kg mt]
      have omt: "only_mem s ?t" by (simp add: only_mem_def)
      have flt: "freelist ?t = ld32 (mem s) f" by simp
      note td = take_page [OF spc(1) omt flt cp(1)] and tp = take_page [OF spc(2) omt flt cp(1)]
      have npt: "\<not> present (pte (mem ?t) d i)" using npd by (simp only: td(3)) simp
      have fo: "f \<notin> owned (mem ?t) d" using td(7) by (simp only: td(2)) simp
      obtain r u ys where u: "mappages d i PGSIZE (V2P f) ?F ?t = Ok (r, u)" "space d u ys" "only_mem ?t u" "f \<notin> set ys"
        "length fs + card (pt_pages (mem ?t) d) = length ys + card (pt_pages (mem u) d)"
        "\<forall>x. x \<notin> set fs \<longrightarrow> x \<notin> pt_pages (mem ?t) d \<longrightarrow> same_page (mem ?t) (mem u) x"
        "r = 0 \<and> set ys \<union> owned (mem u) d = insert f (set fs \<union> owned (mem ?t) d) \<and>
           pte (mem u) d = (\<lambda>va. if PGROUNDDOWN va = i then V2P f OR ?F OR PTE_P else pte (mem ?t) d va) \<and>
           umem (mem u) d = (\<lambda>va. if PGROUNDDOWN va = i then Some (mem ?t (f + va mod PGSIZE)) else umem (mem ?t) d va) \<or>
         r = -1 \<and> ys = [] \<and> set ys \<union> owned (mem u) d = set fs \<union> owned (mem ?t) d \<and> f \<notin> owned (mem u) d \<and>
           pte (mem u) d = pte (mem ?t) d \<and> umem (mem u) d = umem (mem ?t) d"
        using map_user [OF td(1) td(5,6) fo al ik npt PTE_FLAGS_less] by blast
      have om: "only_mem s u" by (rule only_mem_trans [OF omt u(3)])
      have ku: "kend u = kend s" by (rule only_mem_kend [OF om])
      have frame: "\<forall>x. x \<notin> set xs \<longrightarrow> x \<notin> owned (mem s) d \<longrightarrow> same_page (mem s) (mem u) x"
      proof (intro allI impI)
        fix x assume x: "x \<notin> set xs" "x \<notin> owned (mem s) d"
        have "x \<noteq> f" "x \<notin> set fs" "x \<notin> pt_pages (mem ?t) d" using x Cons td(2) unfolding owned_def by auto
        then have "same_page (mem s) (mem ?t) x" "same_page (mem ?t) (mem u) x" using cp(1) u(6) by blast+
        then show "same_page (mem s) (mem u) x" by (rule same_page_trans)
      qed
      have ysub: "set ys \<subseteq> set xs \<union> owned (mem s) d" using u(7) td(2) Cons by auto
      note po = space_other [OF pp dis frame spaceD(2) [OF u(2)] ku ysub]
      have start: "copyuvm_loop p d sz i s = rbind (mappages d i PGSIZE (V2P f) ?F ?t) (\<lambda>(r, s).
          if r < 0 then rbind (kfree f s) (\<lambda>s. rbind (freevm d s) (\<lambda>s. Ok (0, s)))
          else if i < i + PGSIZE then copyuvm_loop p d sz (i + PGSIZE) s else Diverges)"
        using lt w pe kalloc_head(1) [OF spaceD(2) [OF spc(1)]] td(8) by (subst copyuvm_loop.simps) (simp add: present_def Let_def)
      from u(7) show ?thesis
      proof (elim disjE conjE)
        assume r: "r = 0" and own: "set ys \<union> owned (mem u) d = insert f (set fs \<union> owned (mem ?t) d)"
          and pu: "pte (mem u) d = (\<lambda>va. if PGROUNDDOWN va = i then V2P f OR ?F OR PTE_P else pte (mem ?t) d va)"
          and m: "umem (mem u) d = (\<lambda>va. if PGROUNDDOWN va = i then Some (mem ?t (f + va mod PGSIZE)) else umem (mem ?t) d va)"
        have own': "set ys \<union> owned (mem u) d = set xs \<union> owned (mem s) d" using own td(2) Cons by simp
        have split: "?P = {va. PGROUNDDOWN va = i} \<union> pages_in (i + PGSIZE) sz" by (rule pages_in_split [OF al lt an(2)])
        have ge: "PGROUNDDOWN va \<noteq> i" if "va \<in> pages_in (i + PGSIZE) sz" for va
          using that an(1) by (auto simp: pages_in_def word_le_nat_alt)
        have h: "unat sz - unat (i + PGSIZE) < unat sz - unat i" "KERNBASE < kend u" "i < i + PGSIZE"
          using an(1) k ku lt by (simp_all add: word_less_nat_alt)
        have pr': "\<forall>va \<in> pages_in (i + PGSIZE) sz. present (pte (mem u) p va) \<and> \<not> present (pte (mem u) d va)"
          using pr ge unfolding split po(3) pu td(3) by auto
        have dis': "owned (mem u) p \<inter> owned (mem u) d = {}" using dis own' spaceD(5) [OF pp] unfolding po(4) by blast
        obtain r' s' zs where s': "copyuvm_loop p d sz (i + PGSIZE) u = Ok (r', s')" "only_mem u s'"
          "\<forall>x. x \<notin> set ys \<longrightarrow> x \<notin> owned (mem u) d \<longrightarrow> same_page (mem u) (mem s') x"
          "r' = d \<and> space d s' zs \<and> set zs \<union> owned (mem s') d = set ys \<union> owned (mem u) d \<and>
             copied (mem u) p (pages_in (i + PGSIZE) sz) (mem s') d \<or>
           r' = 0 \<and> kmem_inv s' zs \<and> set zs = set ys \<union> owned (mem u) d \<and>
             length ys + card (pt_pages (mem u) d) \<le> 1025 + npages (i + PGSIZE) sz"
          using less.hyps [OF h(1) u(2) po(1) dis' pr' aligned_add_PGSIZE [OF al] less.prems(6) h(2)] by blast
        have run: "copyuvm_loop p d sz i s = Ok (r', s')" using u(1) r s'(1) h(3) by (simp add: start)
        have "only_mem s s'" by (rule only_mem_trans [OF om s'(2)])
        moreover have "\<forall>x. x \<notin> set xs \<longrightarrow> x \<notin> owned (mem s) d \<longrightarrow> same_page (mem s) (mem s') x"
        proof (intro allI impI)
          fix x assume x: "x \<notin> set xs" "x \<notin> owned (mem s) d"
          then have "x \<notin> set ys" "x \<notin> owned (mem u) d" using own' by blast+
          then have "same_page (mem u) (mem s') x" using s'(3) by blast
          then show "same_page (mem s) (mem s') x" using frame x same_page_trans by blast
        qed
        moreover have "copied (mem s) p ?P (mem s') d" if c: "copied (mem u) p (pages_in (i + PGSIZE) sz) (mem s') d"
          unfolding copied_def
        proof (intro conjI ext allI)
          fix va
          have gi: "umem (mem s) p va = Some (mem ?t (f + va mod PGSIZE))" "PTE_FLAGS (pte (mem s) p va) = ?F" if "PGROUNDDOWN va = i"
          proof -
            have "pte (mem s) p va = ?e" using pte_page [of va i "mem s" p] that di by simp
            moreover have "va < KERNBASE" using that ik rounddown_less(1) [OF KERNBASE_aligned, of va] by simp
            ultimately show "umem (mem s) p va = Some (mem ?t (f + va mod PGSIZE))" "PTE_FLAGS (pte (mem s) p va) = ?F"
              using pe cp(2) [of va] by (simp_all add: umem_def frame_of_def)
          qed
          show "umem (mem s') d va = (if va \<in> ?P then umem (mem s) p va else umem (mem s) d va)"
            using c gi(1) ge [of va] po(2) td(4) unfolding copied_def split m by auto
          have "present (V2P f OR ?F OR PTE_P) \<and> PTE_FLAGS (V2P f OR ?F OR PTE_P) = ?F"
            using new_frame(1,3) [OF kf PTE_FLAGS_less, of ?e] PTE_FLAGS_present [OF pe] by argo
          then show "if va \<in> ?P then present (pte (mem s') d va) \<and> PTE_FLAGS (pte (mem s') d va) = PTE_FLAGS (pte (mem s) p va)
            else pte (mem s') d va = pte (mem s) d va"
            using c [unfolded copied_def, THEN conjunct2, rule_format, of va] gi(2) ge [of va] po(3) td(3) unfolding split pu
            by (cases "PGROUNDDOWN va = i") (simp_all split: if_splits)
        qed
        moreover have "length xs + card (pt_pages (mem s) d) \<le> 1025 + npages i sz"
          if "length ys + card (pt_pages (mem u) d) \<le> 1025 + npages (i + PGSIZE) sz"
          using that u(5) td(9) npages_step [OF lt an(1)] Cons by simp
        ultimately show ?thesis using run s'(4) unfolding own' by blast
      next
        assume r: "r = -1" and y0: "ys = []" and own: "set ys \<union> owned (mem u) d = set fs \<union> owned (mem ?t) d" and fu: "f \<notin> owned (mem u) d"
        have kfu: "kernel_page (kend u) f" using kf ku by simp
        obtain v where v: "kfree f u = Ok v" "space d v (f # ys)" "only_mem u v" "owned (mem v) d = owned (mem u) d"
          "\<forall>x. x \<noteq> f \<longrightarrow> same_page (mem u) (mem v) x"
          using give_page [OF u(2) kfu u(4) fu] by blast
        have kv: "KERNBASE < kend v" using k ku only_mem_kend [OF v(3)] by simp
        obtain s' zs where s': "freevm d v = Ok s'" "kmem_inv s' zs" "only_mem v s'" "set zs = set (f # ys) \<union> owned (mem v) d"
          "\<forall>x. x \<notin> owned (mem v) d \<longrightarrow> x \<notin> set (f # ys) \<longrightarrow> same_page (mem v) (mem s') x"
          using freevm_ok [OF v(2) kv] by blast
        have run: "copyuvm_loop p d sz i s = Ok (0, s')" using u(1) r v(1) s'(1) by (simp add: start)
        have "only_mem s s'" using om v(3) s'(3) only_mem_trans by blast
        moreover have "set zs = set xs \<union> owned (mem s) d" using s'(4) v(4) own td(2) Cons by auto
        moreover have "same_page (mem s) (mem s') x" if "x \<notin> set xs" "x \<notin> owned (mem s) d" for x
        proof -
          have "x \<notin> set ys" "x \<notin> owned (mem u) d" "x \<noteq> f" using that own td(2) Cons by auto
          then have "same_page (mem u) (mem v) x" "same_page (mem v) (mem s') x" using v(4,5) s'(5) by auto
          then show ?thesis using frame that same_page_trans by blast
        qed
        moreover have "length xs + card (pt_pages (mem s) d) \<le> 1025 + npages i sz"
          using u(5) y0 td(9) npages_step [OF lt an(1)] Cons card_pt_pages [of "mem u" d] by simp
        ultimately show ?thesis using run s'(2) by blast
      qed
    qed
  qed
qed

lemma copyuvm_ok:
  fixes s :: "'a kmem_st_scheme"
  assumes pp: "space p s xs" and dat: "data_ok (kdata s)" and k: "KERNBASE < kend s" and sz: "sz \<le> KERNBASE"
    and pr: "\<forall>va \<in> pages_in 0 sz. present (pte (mem s) p va)"
  shows "\<exists>r s' ys. copyuvm p sz s = Ok (r, s') \<and> only_mem s s' \<and> space p s' ys \<and>
    umem (mem s') p = umem (mem s) p \<and> pte (mem s') p = pte (mem s) p \<and> owned (mem s') p = owned (mem s) p \<and>
    (\<forall>x. x \<notin> set xs \<longrightarrow> same_page (mem s) (mem s') x) \<and>
    (r \<noteq> 0 \<and> space r s' ys \<and> owned (mem s') r \<inter> owned (mem s') p = {} \<and> set ys \<union> owned (mem s') r = set xs \<and>
       umem (mem s') r = (\<lambda>va. if va \<in> pages_in 0 sz then umem (mem s) p va else None) \<and>
       (\<forall>va. if va \<in> pages_in 0 sz then present (pte (mem s') r va) \<and> PTE_FLAGS (pte (mem s') r va) = PTE_FLAGS (pte (mem s) p va)
         else pte (mem s') r va = kern_pte (kdata s) va) \<or>
     r = 0 \<and> set ys = set xs \<and> length xs \<le> 1025 + npages 0 sz)"
proof -
  note pd = spaceD [OF pp]
  obtain d t ys where t: "setupkvm s = Ok (d, t)" "only_mem s t" "\<forall>x. x \<notin> set xs \<longrightarrow> same_page (mem s) (mem t) x"
    "d \<noteq> 0 \<and> space d t ys \<and> pte (mem t) d = kern_pte (kdata s) \<and> set ys \<union> owned (mem t) d = set xs \<or>
     d = 0 \<and> kmem_inv t ys \<and> set ys = set xs \<and> length xs \<le> 1025"
    using setupkvm_ok [OF pd(2) dat k] by blast
  have kt: "kend t = kend s" by (rule only_mem_kend [OF t(2)])
  have kinv: "kmem_inv t ys" "set ys \<subseteq> set xs \<union> {}" using t(4) spaceD(2) by blast+
  have same0: "\<forall>x. x \<notin> set xs \<longrightarrow> x \<notin> {} \<longrightarrow> same_page (mem s) (mem t) x" using t(3) by simp
  note po = space_other [OF pp Int_empty_right same0 kinv(1) kt kinv(2)]
  from t(4) show ?thesis
  proof (elim disjE conjE)
    assume "d = 0" "set ys = set xs" "length xs \<le> 1025"
    then show ?thesis using t(1-3) po by (auto simp: copyuvm_def)
  next
    assume d: "d \<noteq> 0" "space d t ys" "pte (mem t) d = kern_pte (kdata s)" "set ys \<union> owned (mem t) d = set xs"
    have dis: "owned (mem t) p \<inter> owned (mem t) d = {}" using pd(5) d(4) unfolding po(4) by blast
    have kp: "\<not> present (kern_pte dd va)" if "va \<in> pages_in 0 sz" for va dd
      using that pages_in_user [OF sz] by (auto simp: user_half_def kern_pte_def)
    have pr': "\<forall>va \<in> pages_in 0 sz. present (pte (mem t) p va) \<and> \<not> present (pte (mem t) d va)"
      using pr kp unfolding po(3) d(3) by blast
    have k': "KERNBASE < kend t" using k kt by simp
    obtain r s' zs where s': "copyuvm_loop p d sz 0 t = Ok (r, s')" "only_mem t s'"
      "\<forall>x. x \<notin> set ys \<longrightarrow> x \<notin> owned (mem t) d \<longrightarrow> same_page (mem t) (mem s') x"
      "r = d \<and> space d s' zs \<and> set zs \<union> owned (mem s') d = set ys \<union> owned (mem t) d \<and> copied (mem t) p (pages_in 0 sz) (mem s') d \<or>
       r = 0 \<and> kmem_inv s' zs \<and> set zs = set ys \<union> owned (mem t) d \<and> length ys + card (pt_pages (mem t) d) \<le> 1025 + npages 0 sz"
      using copyuvm_loop_ok [OF d(2) po(1) dis pr' _ sz k'] by auto
    have zs: "kmem_inv s' zs" "set zs \<subseteq> set ys \<union> owned (mem t) d" using s'(4) spaceD(2) by blast+
    note pq = space_other [OF po(1) dis s'(3) zs(1) only_mem_kend [OF s'(2)] zs(2)]
    have run: "copyuvm p sz s = Ok (r, s')" using t(1) d(1) s'(1) by (simp add: copyuvm_def)
    have "only_mem s s'" by (rule only_mem_trans [OF t(2) s'(2)])
    moreover have "same_page (mem s) (mem s') x" if "x \<notin> set xs" for x
    proof -
      have "x \<notin> set ys" "x \<notin> owned (mem t) d" using that d(4) by blast+
      then show ?thesis using t(3) s'(3) that same_page_trans by blast
    qed
    moreover have "umem (mem s') p = umem (mem s) p" "pte (mem s') p = pte (mem s) p" "owned (mem s') p = owned (mem s) p"
      using pq po by simp_all
    moreover from s'(4) have "r \<noteq> 0 \<and> space r s' zs \<and> owned (mem s') r \<inter> owned (mem s') p = {} \<and> set zs \<union> owned (mem s') r = set xs \<and>
       umem (mem s') r = (\<lambda>va. if va \<in> pages_in 0 sz then umem (mem s) p va else None) \<and>
       (\<forall>va. if va \<in> pages_in 0 sz then present (pte (mem s') r va) \<and> PTE_FLAGS (pte (mem s') r va) = PTE_FLAGS (pte (mem s) p va)
         else pte (mem s') r va = kern_pte (kdata s) va) \<or>
     r = 0 \<and> set zs = set xs \<and> length xs \<le> 1025 + npages 0 sz"
    proof (elim disjE conjE)
      assume r: "r = d" "space d s' zs" "set zs \<union> owned (mem s') d = set ys \<union> owned (mem t) d" "copied (mem t) p (pages_in 0 sz) (mem s') d"
      have own: "set zs \<union> owned (mem s') d = set xs" using r(3) d(4) by simp
      have "owned (mem s') d \<inter> owned (mem s') p = {}" using own pd(5) pq(4) po(4) by blast
      moreover have "umem (mem t) d = (\<lambda>va. None)" by (auto simp: umem_def d(3) kern_pte_def fun_eq_iff)
      ultimately show ?thesis using r(1,2,4) d(1) own po(2,3) unfolding copied_def d(3) by (simp cong: if_cong)
    next
      assume r: "r = 0" "set zs = set ys \<union> owned (mem t) d" "length ys + card (pt_pages (mem t) d) \<le> 1025 + npages 0 sz"
      have "owned (mem t) d = pt_pages (mem t) d"
        by (rule space_no_user(2) [OF spaceD(1) [OF d(2)]]) (simp add: d(3) kern_pte_def)
      then have "length xs = length ys + card (pt_pages (mem t) d)"
        using d(4) spaceD(2,5) [OF d(2)] pd(2) card_Un_disjoint [of "set ys" "pt_pages (mem t) d"]
        by (metis Int_commute List.finite_set distinct_card finite_pt_pages kmem_inv_def)
      then show ?thesis using d(4) r by simp
    qed
    ultimately show ?thesis using run pq(1) by blast
  qed
qed

section \<open>What the hardware sees\<close>

lemma bits_present: "present e \<longleftrightarrow> bit e 0" "e AND PTE_W \<noteq> 0 \<longleftrightarrow> bit e 1"
proof -
  have "e AND PTE_P = (if bit e 0 then 1 else 0)" by (rule bit_word_eqI) (auto simp: PTE_P_def bit_simps bit_1_iff intro: gr0I)
  then show "present e \<longleftrightarrow> bit e 0" by (simp add: present_def)
  have "e AND PTE_W = (if bit e 1 then 2 else 0)" by (rule bit_word_eqI) (auto simp: PTE_W_def bit_simps)
  then show "e AND PTE_W \<noteq> 0 \<longleftrightarrow> bit e 1" by simp
qed

lemma need_bits: "e AND PTE_P = PTE_P \<longleftrightarrow> present e" "e AND (PTE_P OR PTE_W) = PTE_P OR PTE_W \<longleftrightarrow> present e \<and> e AND PTE_W \<noteq> 0"
proof -
  have "e AND PTE_P = (if bit e 0 then 1 else 0)" by (rule bit_word_eqI) (auto simp: PTE_P_def bit_simps bit_1_iff intro: gr0I)
  then show "e AND PTE_P = PTE_P \<longleftrightarrow> present e" by (simp add: bits_present PTE_P_def)
  have w: "(PTE_P OR PTE_W :: uint) = 3" by (simp add: PTE_P_def PTE_W_def)
  have m2: "mask 2 = (3 :: uint)" by (simp add: mask_eq_exp_minus_1)
  have "bit (mask 2 :: uint) n \<longleftrightarrow> n = 0 \<or> n = 1" for n by (auto simp: bit_mask_iff)
  then have b3: "bit (3 :: uint) n \<longleftrightarrow> n = 0 \<or> n = 1" for n unfolding m2 .
  have "e AND 3 = 3 \<longleftrightarrow> bit e 0 \<and> bit e 1"
  proof
    assume "e AND 3 = 3"
    then have "bit (e AND 3) n = bit (3 :: uint) n" for n by simp
    from this [of 0] this [of 1] show "bit e 0 \<and> bit e 1" by (simp add: bit_and_iff b3)
  next
    assume e: "bit e 0 \<and> bit e 1"
    have "bit (e AND 3) n = bit (3 :: uint) n" for n using e b3 [of n] by (auto simp: bit_and_iff)
    then show "e AND 3 = 3" by (intro bit_word_eqI)
  qed
  then show "e AND (PTE_P OR PTE_W) = PTE_P OR PTE_W \<longleftrightarrow> present e \<and> e AND PTE_W \<noteq> 0" by (simp add: w bits_present)
qed

lemma translate_pte:
  assumes ok: "pt_ok e m d"
  shows "translate m d wt va =
    (if present (pte m d va) \<and> (wt \<longrightarrow> pte m d va AND PTE_W \<noteq> 0) then Some (frame_of m d va + va mod PGSIZE) else None)"
proof -
  let ?e = "pde m d (PDX va)"
  have w: "?e AND PTE_W \<noteq> 0" if "present ?e"
  proof -
    have "PTE_FLAGS ?e = PTE_P OR PTE_W OR PTE_U" using ok that PDX_less by (auto simp: pt_ok_def)
    then have "bit (PTE_FLAGS ?e) 1" by (simp add: PTE_P_def PTE_W_def PTE_U_def bit_simps)
    then show ?thesis by (simp add: bits_present PTE_FLAGS_def bit_simps)
  qed
  have "pde m d (PDX va) = ld32 m (d + 4 * PDX va)" by (simp add: pde_def)
  then show ?thesis
    using w need_bits [of ?e] need_bits [of "pte m d va"]
    by (cases "present ?e") (auto simp: translate_def pte_def frame_of_def tab_of_def Let_def)
qed

text \<open>A load through the page table reads the bytes of the address space.\<close>

lemma load_user_umem:
  assumes "space (user_dir s) s xs" and "\<forall>k < n. umem (mem s) (user_dir s) (va + of_nat k) \<noteq> None"
  shows "load_user n va s = Ok (map (\<lambda>k. the (umem (mem s) (user_dir s) (va + of_nat k))) [0..<n])"
  using assms(2)
proof (induction n arbitrary: va)
  case (Suc n)
  have 0: "umem (mem s) (user_dir s) va \<noteq> None" using Suc.prems [rule_format, of 0] by simp
  have "\<forall>k < n. umem (mem s) (user_dir s) (va + 1 + of_nat k) \<noteq> None"
    using Suc.prems [rule_format, of "Suc k" for k] by (simp add: algebra_simps)
  from Suc.IH [OF this] 0 translate_pte [OF spaceD(3) [OF assms(1)], of False va] show ?case
    by (auto simp: umem_def map_upt_Suc add.assoc simp del: upt_Suc split: if_splits)
qed simp

section \<open>\<^verbatim>\<open>copyout\<close>\<close>

lemma write_frame:
  assumes sp: "space d s xs" and va: "va < KERNBASE" "present (pte (mem s) d va)" and n: "off + n \<le> 4096" "n \<le> length b"
    and s'_def: "s' = s\<lparr>mem := \<lambda>a. if unat (a - (frame_of (mem s) d va + of_nat off)) < n
      then b ! unat (a - (frame_of (mem s) d va + of_nat off)) else mem s a\<rparr>"
  shows "space d s' xs" "pte (mem s') d = pte (mem s) d" "owned (mem s') d = owned (mem s) d"
    "umem (mem s') d x = (if PGROUNDDOWN x = PGROUNDDOWN va \<and> off \<le> unat (x mod PGSIZE) \<and> unat (x mod PGSIZE) < off + n
       then Some (b ! (unat (x mod PGSIZE) - off)) else umem (mem s) d x)"
    "y \<noteq> frame_of (mem s) d va \<Longrightarrow> same_page (mem s) (mem s') y"
proof -
  let ?g = "frame_of (mem s) d va"
  note sd = spaceD [OF sp]
  have gF: "?g \<in> frames (mem s) d user_half" by (rule frame_pages [OF va])
  have ga: "?g mod PGSIZE = 0" by (simp add: frame_of_def)
  have idx: "unat (a - (?g + of_nat off)) < n \<longleftrightarrow> PGROUNDDOWN a = ?g \<and> off \<le> unat (a - ?g) \<and> unat (a - ?g) < off + n" for a
  proof -
    have "unat (a - ?g) < 4096 \<longleftrightarrow> PGROUNDDOWN a = ?g" using in_page_iff [OF ga, of a] by (simp add: word_less_nat_alt PGSIZE_def)
    moreover have "unat (w - of_nat off) = (if off \<le> unat w then unat w - off else unat w + 2 ^ 32 - off)" for w :: uint
      using n by (simp add: unat_sub_if_size word_size unat_of_nat)
    from this [of "a - ?g"] calculation show ?thesis unfolding diff_diff_eq using n by (auto split: if_splits)
  qed
  show same: "same_page (mem s) (mem s') y" if "y \<noteq> ?g" for y
    using that unfolding same_page_def s'_def by (auto simp: idx)
  have gp: "?g \<notin> pt_pages (mem s) d" "?g \<notin> set xs" using gF sd(5,7) by (auto simp: owned_def)
  have sp1: "\<forall>x \<in> pt_pages (mem s) d. same_page (mem s) (mem s') x" using gp same by metis
  note ps = pt_same [OF sd(3) sp1]
  show p: "pte (mem s') d = pte (mem s) d" using ps by (simp add: fun_eq_iff)
  have fr: "frames (mem s') d P = frames (mem s) d P" for P by (rule frames_cong) (simp add: p)
  show "owned (mem s') d = owned (mem s) d" using ps fr by (simp add: owned_def)
  have "kmem_inv s' xs"
  proof (rule kmem_inv_same_pages [OF sd(2)])
    show "same_page (mem s) (mem s') x" if "x \<in> set xs" for x using that gp(2) same by metis
  qed (simp_all add: s'_def)
  moreover have "kend s' = kend s" by (simp add: s'_def)
  moreover have "user_ok (kend s) (mem s') d user_half"
    by (rule user_ok_cong [where m = "mem s"]) (use p ps sd(4) in simp_all)
  ultimately show "space d s' xs" using sp ps fr by (simp add: space_def pt_inv_def)
  have b: "mem s' (?g + o') = (if off \<le> unat o' \<and> unat o' < off + n then b ! (unat o' - off) else mem s (?g + o'))" if "o' < PGSIZE" for o'
  proof -
    have "PGROUNDDOWN (?g + o') = ?g" by (rule PGROUNDDOWN_add_small [OF ga that])
    moreover have "unat (o' - of_nat off) = unat o' - off" if "off \<le> unat o'"
      using that n by (simp add: unat_sub_if_size word_size unat_of_nat)
    ultimately show ?thesis using idx [of "?g + o'"] by (auto simp: s'_def)
  qed
  show "umem (mem s') d x = (if PGROUNDDOWN x = PGROUNDDOWN va \<and> off \<le> unat (x mod PGSIZE) \<and> unat (x mod PGSIZE) < off + n
       then Some (b ! (unat (x mod PGSIZE) - off)) else umem (mem s) d x)"
  proof (cases "PGROUNDDOWN x = PGROUNDDOWN va")
    case True
    then have "pte (mem s) d x = pte (mem s) d va" by (rule pte_page)
    moreover have "x < KERNBASE"
      using True va(1) rounddown_less(1) [OF KERNBASE_aligned, of x] rounddown_less(1) [OF KERNBASE_aligned, of va] by simp
    ultimately show ?thesis using True va(2) b [of "x mod PGSIZE"] by (simp add: umem_def p frame_of_def)
  next
    case False
    have "mem s' (frame_of (mem s) d x + x mod PGSIZE) = mem s (frame_of (mem s) d x + x mod PGSIZE)"
      if "x < KERNBASE" "present (pte (mem s) d x)"
    proof -
      have "x \<in> user_half" "va \<in> user_half" using that va by (simp_all add: user_half_def)
      then have "frame_of (mem s) d x \<noteq> ?g" using sd(4) that(2) va(2) False unfolding user_ok_def by metis
      then have "same_page (mem s) (mem s') (frame_of (mem s) d x)" by (rule same)
      then show ?thesis by (simp add: same_page_def)
    qed
    then show ?thesis using False by (simp add: umem_def p frame_of_def)
  qed
qed

lemma uva2ka_ok:
  assumes ok: "pt_ok e (mem s) d" and pr: "present (pte (mem s) d va)" "pte (mem s) d va AND PTE_U \<noteq> 0"
  shows "uva2ka nul d va s = Ok (frame_of (mem s) d va)"
proof -
  have p: "present (pde (mem s) d (PDX va))" using pr(1) by (auto simp: pte_def split: if_splits)
  have "fst (walkpgdir d va False s) = pte_addr (mem s) d va" using p by (simp add: walkpgdir_noalloc pte_addr_def)
  then show ?thesis
    using pte_addr_nonzero [OF ok p] pte_addr_pte [OF p] pr by (simp add: uva2ka_def present_def frame_of_def tab_of_def)
qed

lemma copyout_ok:
  fixes s :: "'a kmem_st_scheme"
  assumes "space d s xs" and "unat va + length buf \<le> 2 ^ 31"
    and "\<forall>k < length buf. present (pte (mem s) d (va + of_nat k)) \<and> pte (mem s) d (va + of_nat k) AND PTE_U \<noteq> 0"
  shows "\<exists>s'. copyout nul d va buf s = Ok (0, s') \<and> space d s' xs \<and> s' = s\<lparr>mem := mem s'\<rparr> \<and> pte (mem s') d = pte (mem s) d \<and>
    umem (mem s') d = (\<lambda>x. if unat (x - va) < length buf then Some (buf ! unat (x - va)) else umem (mem s) d x) \<and>
    (\<forall>y. y \<notin> frames (mem s) d user_half \<longrightarrow> same_page (mem s) (mem s') y)"
  using assms
proof (induction "length buf" arbitrary: va buf s rule: less_induct)
  case less
  show ?case
  proof (cases "buf = []")
    case True
    then show ?thesis using less.prems(1) by (subst copyout.simps) simp
  next
    case ne: False
    let ?off = "unat (va mod PGSIZE)" and ?va0 = "PGROUNDDOWN va" and ?g = "frame_of (mem s) d va"
    let ?n = "min (length buf) (4096 - unat (va mod PGSIZE))"
    have pv: "present (pte (mem s) d va)" "pte (mem s) d va AND PTE_U \<noteq> 0" using less.prems(3) [rule_format, of 0] ne by simp_all
    have v31: "va < KERNBASE" using less.prems(2) ne by (cases buf) (simp_all add: word_less_nat_alt KERNBASE_def)
    have off: "?off < 4096" using mod_PGSIZE_less [of va] by (simp add: word_less_nat_alt PGSIZE_def)
    have vo: "va - ?va0 = va mod PGSIZE" by (simp add: PGROUNDDOWN_eq)
    have same0: "pte (mem s) d ?va0 = pte (mem s) d va"
      by (rule pte_page) (simp add: PGROUNDDOWN_eq [of "PGROUNDDOWN va"])
    have ka: "uva2ka nul d ?va0 s = Ok ?g"
      using uva2ka_ok [OF spaceD(3) [OF less.prems(1)], of ?va0] pv same0 by (simp add: frame_of_def)
    have g0: "?g \<noteq> 0"
      using spaceD(6) [OF less.prems(1)] frame_pages [OF v31 pv(1)] kernel_page_nonzero by (auto simp: owned_def)
    define t where "t = s\<lparr>mem := \<lambda>a. if unat (a - (?g + of_nat ?off)) < ?n then buf ! unat (a - (?g + of_nat ?off)) else mem s a\<rparr>"
    have n4: "?off + ?n \<le> 4096" "?n \<le> length buf" using off by simp_all
    note wf = write_frame [OF less.prems(1) v31 pv(1) n4 t_def]
    have rest: "unat (PGSIZE - va mod PGSIZE) = 4096 - ?off"
      using off mod_PGSIZE_less [of va] by (simp add: unat_sub PGSIZE_def word_le_nat_alt)
    have run: "copyout nul d va buf s = copyout nul d (?va0 + PGSIZE) (drop ?n buf) t"
      using ne ka g0 by (subst copyout.simps) (simp add: vo rest t_def Let_def cong: if_cong)
    have pg: "PGROUNDDOWN x = ?va0 \<and> ?off \<le> unat (x mod PGSIZE) \<and> unat (x mod PGSIZE) < ?off + ?n \<longleftrightarrow> unat (x - va) < ?n" (is "?L x \<longleftrightarrow> ?R x")
      and ix: "unat (x - va) < ?n \<Longrightarrow> unat (x mod PGSIZE) - ?off = unat (x - va)" for x
    proof -
      have d: "x - va = x mod PGSIZE - va mod PGSIZE" if "PGROUNDDOWN x = ?va0"
        using that by (simp add: PGROUNDDOWN_eq algebra_simps)
      have un: "unat (x mod PGSIZE - va mod PGSIZE) = unat (x mod PGSIZE) - ?off" if "?off \<le> unat (x mod PGSIZE)"
        using that by (simp add: unat_sub word_le_nat_alt)
      have R: "PGROUNDDOWN x = ?va0 \<and> ?off \<le> unat (x mod PGSIZE)" if r: "?R x"
      proof -
        have x: "x = ?va0 + of_nat (?off + unat (x - va))" using vo by (simp add: algebra_simps)
        have "unat (x - va) < 4096 - ?off" using r by simp
        then have lt: "?off + unat (x - va) < 4096" by linarith
        then have "of_nat (?off + unat (x - va)) < PGSIZE" by (simp add: word_less_nat_alt PGSIZE_def unat_of_nat del: of_nat_add)
        then have "PGROUNDDOWN x = ?va0" by (subst x) (rule PGROUNDDOWN_add_small, simp_all)
        moreover have "x mod PGSIZE = x - PGROUNDDOWN x" by (simp add: PGROUNDDOWN_eq)
        then have "x mod PGSIZE = of_nat (?off + unat (x - va))"
          unfolding calculation by (subst (asm) (2) x) (simp only: add_diff_cancel_left')
        then have "unat (x mod PGSIZE) = ?off + unat (x - va)" using lt by (simp add: unat_of_nat del: of_nat_add)
        ultimately show ?thesis by simp
      qed
      show "unat (x mod PGSIZE) - ?off = unat (x - va)" if "?R x" using R [OF that] d un by simp
      show "?L x \<longleftrightarrow> ?R x"
      proof
        assume L: "?L x"
        then have "unat (x - va) = unat (x mod PGSIZE) - ?off" using d un by simp
        with L show "?R x" by linarith
      next
        assume r: "?R x"
        have "unat (x - va) = unat (x mod PGSIZE) - ?off" using R [OF r] d un by simp
        with r R [OF r] show "?L x" by linarith
      qed
    qed
    have ut: "umem (mem t) d = (\<lambda>x. if unat (x - va) < ?n then Some (buf ! unat (x - va)) else umem (mem s) d x)"
    proof
      fix x
      show "umem (mem t) d x = (if unat (x - va) < ?n then Some (buf ! unat (x - va)) else umem (mem s) d x)"
        unfolding wf(4) pg using ix [of x] by (simp cong: if_cong)
    qed
    have ft: "same_page (mem s) (mem t) y" if "y \<notin> frames (mem s) d user_half" for y
      using wf(5) [of y] that frame_pages [OF v31 pv(1)] by auto
    show ?thesis
    proof (cases "length buf \<le> 4096 - ?off")
      case True
      then have "copyout nul d va buf s = Ok (0, t)" using run by (subst (asm) copyout.simps) simp
      moreover have "t = s\<lparr>mem := mem t\<rparr>" by (simp add: t_def)
      ultimately show ?thesis using wf(1,2) ut ft True by (intro exI [of _ t]) (simp add: min_def)
    next
      case False
      then have n: "?n = 4096 - ?off" by simp
      have "of_nat ?n = PGSIZE - va mod PGSIZE" unfolding n using off by (simp add: of_nat_diff) (simp add: PGSIZE_def)
      then have va': "?va0 + PGSIZE = va + of_nat ?n" by (simp only: PGROUNDDOWN_eq) simp
      have fit: "unat (va + of_nat ?n) = unat va + ?n" using less.prems(2) n4(2) by (simp add: unat_add_of_nat)
      have "\<exists>s'. copyout nul d (?va0 + PGSIZE) (drop ?n buf) t = Ok (0, s') \<and> space d s' xs \<and> s' = t\<lparr>mem := mem s'\<rparr> \<and> pte (mem s') d = pte (mem t) d \<and>
        umem (mem s') d = (\<lambda>x. if unat (x - (?va0 + PGSIZE)) < length (drop ?n buf) then Some (drop ?n buf ! unat (x - (?va0 + PGSIZE))) else umem (mem t) d x) \<and>
        (\<forall>y. y \<notin> frames (mem t) d user_half \<longrightarrow> same_page (mem t) (mem s') y)"
      proof (rule less.hyps [OF _ wf(1)])
        show "length (drop ?n buf) < length buf" using ne off by simp
        show "unat (?va0 + PGSIZE) + length (drop ?n buf) \<le> 2 ^ 31" unfolding va' fit using less.prems(2) n4(2) by simp
        show "\<forall>k < length (drop ?n buf). present (pte (mem t) d (?va0 + PGSIZE + of_nat k)) \<and> pte (mem t) d (?va0 + PGSIZE + of_nat k) AND PTE_U \<noteq> 0"
        proof (intro allI impI)
          fix k assume "k < length (drop ?n buf)"
          then have "?n + k < length buf" by simp
          from less.prems(3) [rule_format, OF this]
          show "present (pte (mem t) d (?va0 + PGSIZE + of_nat k)) \<and> pte (mem t) d (?va0 + PGSIZE + of_nat k) AND PTE_U \<noteq> 0"
            unfolding wf(2) va' by (simp add: add.assoc)
        qed
      qed
      then obtain s' where s': "copyout nul d va buf s = Ok (0, s')" "space d s' xs" "s' = t\<lparr>mem := mem s'\<rparr>" "pte (mem s') d = pte (mem t) d"
        "umem (mem s') d = (\<lambda>x. if unat (x - (va + of_nat ?n)) < length buf - ?n then Some (drop ?n buf ! unat (x - (va + of_nat ?n))) else umem (mem t) d x)"
        "\<forall>y. y \<notin> frames (mem t) d user_half \<longrightarrow> same_page (mem t) (mem s') y"
        unfolding run va' length_drop by blast
      have fr: "frames (mem t) d user_half = frames (mem s) d user_half" by (rule frames_cong) (simp add: wf(2))
      have "umem (mem s') d = (\<lambda>x. if unat (x - va) < length buf then Some (buf ! unat (x - va)) else umem (mem s) d x)"
      proof
        fix x
        have sub: "unat (x - (va + of_nat ?n)) = (if ?n \<le> unat (x - va) then unat (x - va) - ?n else unat (x - va) + 2 ^ 32 - ?n)"
        proof -
          have "unat (w - of_nat ?n) = (if ?n \<le> unat w then unat w - ?n else unat w + 2 ^ 32 - ?n)" for w :: uint
            using off by (simp add: n unat_sub_if_size word_size unat_of_nat)
          from this [of "x - va"] show ?thesis by (simp only: diff_diff_eq)
        qed
        have "length buf < 2 ^ 32" using less.prems(2) by simp
        then show "umem (mem s') d x = (if unat (x - va) < length buf then Some (buf ! unat (x - va)) else umem (mem s) d x)"
          unfolding s'(5) ut sub using n4(2) by (cases "unat (x - va) < ?n") auto
      qed
      moreover have "\<forall>y. y \<notin> frames (mem s) d user_half \<longrightarrow> same_page (mem s) (mem s') y"
        using ft s'(6) same_page_trans unfolding fr by blast
      moreover have "s' = s\<lparr>mem := mem s'\<rparr>" using s'(3) by (simp add: t_def)
      ultimately show ?thesis using s'(1,2,4) wf(2) by auto
    qed
  qed
qed

section \<open>The kernel's map\<close>

lemma kern_entry:
  assumes "x mod PGSIZE = 0" and "w = 0 \<or> w = PTE_W"
  shows "present (x OR w OR PTE_P)" "tab_of (x OR w OR PTE_P) = P2V x" "(x OR w OR PTE_P) AND PTE_W \<noteq> 0 \<longleftrightarrow> w = PTE_W"
proof -
  have w: "w OR PTE_P = 1 \<and> w = 0 \<or> w OR PTE_P = 3 \<and> w = PTE_W" using assms(2) by (auto simp: PTE_W_def PTE_P_def)
  then have "w OR PTE_P < 4096" by auto
  from flags_or_aligned [OF assms(1) this] have f: "PTE_ADDR (x OR w OR PTE_P) = x" "PTE_FLAGS (x OR w OR PTE_P) = w OR PTE_P"
    by (simp_all add: or.assoc)
  then show "tab_of (x OR w OR PTE_P) = P2V x" by (simp add: tab_of_def)
  have low: "bit (x OR w OR PTE_P) n = bit (w OR PTE_P) n" if "n < 12" for n
  proof -
    have "bit (PTE_FLAGS (x OR w OR PTE_P)) n = bit (w OR PTE_P) n" by (simp only: f(2))
    then show ?thesis using that unfolding PTE_FLAGS_def mask12 by (simp add: bit_and_iff bit_mask_iff)
  qed
  show "present (x OR w OR PTE_P)" unfolding bits_present using low [of 0] by (simp add: PTE_P_def bit_simps)
  show "(x OR w OR PTE_P) AND PTE_W \<noteq> 0 \<longleftrightarrow> w = PTE_W"
    unfolding bits_present using low [of 1] assms(2) by (auto simp: PTE_P_def PTE_W_def bit_simps bit_1_iff)
qed

lemma kern_pte_translates:
  "(if present (kern_pte dat va) \<and> (wt \<longrightarrow> kern_pte dat va AND PTE_W \<noteq> 0) then Some (tab_of (kern_pte dat va) + va mod PGSIZE) else None) =
   (if va < KERNBASE then None
    else if va < P2V PHYSTOP then (if wt \<and> KERNLINK \<le> va \<and> va < dat then None else Some va)
    else if va < DEVSPACE then None else Some (P2V va))"
proof -
  have al: "V2P (PGROUNDDOWN va) mod PGSIZE = 0"
  proof -
    have "(PGROUNDDOWN va - KERNBASE) mod PGSIZE = 0" by (rule diff_aligned) simp_all
    then show ?thesis by (simp add: V2P_def)
  qed
  have va: "PGROUNDDOWN va + va mod PGSIZE = va" by (simp add: PGROUNDDOWN_eq)
  have w: "P2V (V2P (PGROUNDDOWN va)) + va mod PGSIZE = va" "P2V (PGROUNDDOWN va) + va mod PGSIZE = P2V va"
    using va by (simp_all add: P2V_def V2P_def algebra_simps)
  have nz: "PTE_W \<noteq> 0" by (simp add: PTE_W_def)
  note e1 = kern_entry [OF al, of 0] and e2 = kern_entry [OF al, of PTE_W] and e3 = kern_entry [OF PGROUNDDOWN_aligned, of PTE_W va]
  show ?thesis using e1 e2 e3 w nz by (simp add: kern_pte_def)
qed

section \<open>The memory after boot\<close>

lemma freerange_keeps: "freerange_loop p vend s = Ok s' \<Longrightarrow> only_mem s s'"
proof (induction p vend s rule: freerange_loop.induct)
  case (1 p vend s)
  show ?case
  proof (cases "p + PGSIZE \<le> vend")
    case True
    with 1(2) obtain t where t: "kfree p s = Ok t" "freerange_loop (p + PGSIZE) vend t = Ok s'"
      by (subst (asm) freerange_loop.simps) auto
    have "only_mem s t" using t(1) by (auto simp: kfree_alt split: if_splits)
    then show ?thesis using 1(1) [OF True t(1) t(2)] only_mem_trans by blast
  next
    case False
    with 1(2) show ?thesis by (subst (asm) freerange_loop.simps) simp
  qed
qed

definition boot_memory :: "kmem_st result" where
  "boot_memory = rbind (kinit1 (kend boot_kmem) (P2V 0x400000) boot_kmem) (kinit2 (P2V 0x400000) (P2V PHYSTOP))"

lemma boot_memory_ok:
  "\<exists>s xs. boot_memory = Ok s \<and> kmem_inv s xs \<and> data_ok (kdata s) \<and> KERNBASE < kend s \<and> 5000 \<le> length xs \<and> kdata s = 0x80108000"
proof -
  have b: "freelist boot_kmem = 0" "KERNBASE \<le> kend boot_kmem" "kend boot_kmem \<le> P2V 0x400000"
    by (simp_all add: boot_kmem_def KERNBASE_def P2V_def)
  obtain s xs where s: "boot_memory = Ok s" "kmem_inv s xs" "set xs = {v. kernel_page (kend boot_kmem) v}"
    using kinit_frees_all [OF b] unfolding boot_memory_def by blast
  then obtain t u where t: "freerange_loop (PGROUNDUP (kend boot_kmem)) (P2V 0x400000) (boot_kmem\<lparr>use_lock := False\<rparr>) = Ok t"
    "freerange_loop (PGROUNDUP (P2V 0x400000)) (P2V PHYSTOP) t = Ok u" "s = u\<lparr>use_lock := True\<rparr>"
    by (auto simp: boot_memory_def kinit1_def kinit2_def freerange_def)
  have "kend s = kend boot_kmem \<and> kdata s = kdata boot_kmem"
    using freerange_keeps [OF t(1)] freerange_keeps [OF t(2)] unfolding only_mem_def t(3)
    by (cases t; cases u) (simp add: boot_kmem_def)
  moreover have "data_ok (kdata boot_kmem)" "KERNBASE < kend boot_kmem"
    by (simp_all add: data_ok_def boot_kmem_def layout_defs PGSIZE_def)
  moreover have "5000 \<le> length xs"
  proof -
    let ?f = "\<lambda>k. 0x80200000 + 4096 * of_nat k :: uint"
    have un: "unat (?f k) = 0x80200000 + 4096 * k" if "k < 5000" for k
      using that by (simp add: unat_word_ariths unat_of_nat)
    have "kernel_page (kend boot_kmem) (?f k)" if "k < 5000" for k
      using un [OF that] that by (intro kernel_page_unat) (simp_all add: aligned_iff word_le_nat_alt boot_kmem_def)
    then have sub: "?f ` {0..<5000} \<subseteq> set xs" by (auto simp: s(3))
    have "inj_on ?f {0..<5000}" using un by (auto simp: inj_on_def word_unat_eq_iff)
    then have "5000 = card (?f ` {0..<5000})" by (simp add: card_image)
    also have "\<dots> \<le> card (set xs)" by (rule card_mono [OF _ sub]) simp
    finally show ?thesis using card_length [of xs] by simp
  qed
  ultimately show ?thesis using s by (intro exI [of _ s] exI [of _ xs]) (simp add: boot_kmem_def)
qed

lemma setupkvm_room:
  assumes "kmem_inv s xs" and "data_ok (kdata s)" and "KERNBASE < kend s" and "1025 < length xs"
  shows "\<exists>d t ys. setupkvm s = Ok (d, t) \<and> space d t ys \<and> pte (mem t) d = kern_pte (kdata s) \<and> d \<noteq> 0 \<and>
    KERNBASE < kend t \<and> kdata t = kdata s \<and> length xs \<le> length ys + 1025"
proof -
  obtain d t ys where t: "setupkvm s = Ok (d, t)" "only_mem s t" "d \<noteq> 0" "space d t ys" "pte (mem t) d = kern_pte (kdata s)"
    "set ys \<union> owned (mem t) d = set xs"
    using setupkvm_ok [OF assms(1-3)] assms(4) by auto
  have "owned (mem t) d = pt_pages (mem t) d"
    by (rule space_no_user(2) [OF spaceD(1) [OF t(4)]]) (simp add: t(5) kern_pte_def)
  then have "card (set xs) \<le> card (set ys) + card (pt_pages (mem t) d)" using card_Un_le [of "set ys" "pt_pages (mem t) d"] t(6) by simp
  moreover have "card (set xs) = length xs" using assms(1) by (simp add: kmem_inv_def distinct_card)
  moreover have "card (set ys) \<le> length ys" by (rule card_length)
  ultimately have "length xs \<le> length ys + 1025" using card_pt_pages [of "mem t" d] by linarith
  moreover have "kdata t = kdata s \<and> kend t = kend s" using t(2) unfolding only_mem_def by (cases s; cases t) simp
  ultimately show ?thesis using t assms(3) by auto
qed

definition boot_process :: "(uint \<times> kmem_st) result" where
  "boot_process = rbind boot_memory (\<lambda>s. rbind (setupkvm s) (\<lambda>(d, s). rbind (allocuvm d 0 0x3000 s) (\<lambda>(n, s). Ok (d, s))))"

lemma page_frames:
  assumes "\<And>va. va < KERNBASE \<Longrightarrow> present (pte m d va) \<Longrightarrow> va < 0x3000"
  shows "frames m d user_half \<subseteq> frame_of m d ` {0, 0x1000, 0x2000}"
proof
  fix f assume "f \<in> frames m d user_half"
  then obtain va where va: "va < KERNBASE" "present (pte m d va)" "f = frame_of m d va" by (auto simp: frames_def user_half_def)
  then have "va < 0x3000" using assms by blast
  then have lt: "unat va div 4096 < 3" by (simp add: word_less_nat_alt div_less_iff_less_mult)
  have un: "unat (PGROUNDDOWN va) = unat va div 4096 * 4096"
  proof -
    have "unat va div 4096 * 4096 < 2 ^ 32" using lt by simp
    then show ?thesis by (simp add: PGROUNDDOWN_eq minus_mod_eq_div_mult PGSIZE_def unat_word_ariths unat_div_distrib)
  qed
  from lt have "unat va div 4096 \<in> {0, 1, 2}" by auto
  then have "PGROUNDDOWN va \<in> {0, 0x1000, 0x2000}" using un by (auto simp: word_unat_eq_iff)
  moreover have "pte m d (PGROUNDDOWN va) = pte m d va"
    by (rule pte_page) (simp add: PGROUNDDOWN_eq [of "PGROUNDDOWN va"])
  ultimately show "f \<in> frame_of m d ` {0, 0x1000, 0x2000}" using va(3) by (metis frame_of_def image_eqI)
qed

lemma boot_process_ok:
  "\<exists>d u ys. boot_process = Ok (d, u) \<and> d \<noteq> 0 \<and> space d u ys \<and> data_ok (kdata u) \<and> KERNBASE < kend u \<and> 2000 \<le> length ys \<and>
     (\<forall>va < 0x3000. fresh_pte (pte (mem u) d va)) \<and> umem (mem u) d = (\<lambda>va. if va < 0x3000 then Some 0 else None)"
proof -
  obtain s xs where s: "boot_memory = Ok s" "kmem_inv s xs" "data_ok (kdata s)" "KERNBASE < kend s" "5000 \<le> length xs"
    using boot_memory_ok by blast
  obtain d t ys where t: "setupkvm s = Ok (d, t)" "space d t ys" "pte (mem t) d = kern_pte (kdata s)" "d \<noteq> 0" "KERNBASE < kend t"
    "kdata t = kdata s" "3900 \<le> length ys"
    using setupkvm_room [OF s(2-4)] s(5) by auto
  have np: "\<not> present (pte (mem t) d va)" if "va < KERNBASE" for va using that by (simp add: t(3) kern_pte_def)
  have P: "pages_in 0 0x3000 = {va. va < 0x3000}"
    using rounddown_less(1) [of "0x3000"] by (simp add: pages_in_def PGSIZE_def)
  have "npages 0 0x3000 = 3" by (simp add: npages_def)
  moreover have "\<forall>va \<in> pages_in 0 0x3000. \<not> present (pte (mem t) d va)"
  proof
    fix va assume "va \<in> pages_in 0 0x3000"
    then have "va < KERNBASE" by (simp add: P KERNBASE_def word_less_nat_alt)
    then show "\<not> present (pte (mem t) d va)" by (rule np)
  qed
  moreover have "(0x3000 :: uint) < KERNBASE" by (simp add: KERNBASE_def)
  ultimately obtain u zs where u: "allocuvm_loop d 0 0x3000 0 t = Ok (0x3000, u)" "space_step d t ys u zs"
    "umem (mem u) d = (\<lambda>va. if va < 0x3000 then Some 0 else umem (mem t) d va)"
    "\<forall>va. if va < 0x3000 then fresh_pte (pte (mem u) d va) else pte (mem u) d va = pte (mem t) d va"
    using allocuvm_loop_ok [OF t(2), of 0 "0x3000" 0] t(5,7) unfolding P by auto
  have "umem (mem t) d = (\<lambda>va. None)" using np by (auto simp: umem_def)
  then have um: "umem (mem u) d = (\<lambda>va. if va < 0x3000 then Some 0 else None)" by (simp add: u(3) cong: if_cong)
  have "frames (mem u) d user_half \<subseteq> frame_of (mem u) d ` {0, 0x1000, 0x2000}"
    by (rule page_frames) (metis np u(4))
  then have "card (frames (mem u) d user_half) \<le> card (frame_of (mem u) d ` {0, 0x1000, 0x2000})" by (rule card_mono [rotated]) simp
  also have "\<dots> \<le> card {0, 0x1000, 0x2000 :: uint}" by (rule card_image_le) simp
  finally have "card (owned (mem u) d) \<le> 1028"
    using card_Un_le [of "pt_pages (mem u) d" "frames (mem u) d user_half"] card_pt_pages [of "mem u" d] by (simp add: owned_def)
  moreover have "set ys \<subseteq> set zs \<union> owned (mem u) d" using u(2) by (auto simp: space_step_def)
  moreover have "finite (owned (mem u) d)"
  proof -
    have "owned (mem u) d \<subseteq> set ys \<union> owned (mem t) d" using u(2) by (auto simp: space_step_def)
    moreover have "owned (mem t) d = pt_pages (mem t) d" by (rule space_no_user(2) [OF spaceD(1) [OF t(2)]]) (simp add: np)
    ultimately show ?thesis by (simp add: finite_subset)
  qed
  ultimately have "card (set ys) \<le> card (set zs) + 1028" using card_mono [of "set zs \<union> owned (mem u) d" "set ys"] card_Un_le [of "set zs" "owned (mem u) d"] by simp
  moreover have "card (set ys) = length ys" using spaceD(2) [OF t(2)] by (simp add: kmem_inv_def distinct_card)
  moreover have "card (set zs) \<le> length zs" by (rule card_length)
  ultimately have "2000 \<le> length zs" using t(7) by linarith
  moreover have "boot_process = Ok (d, u)"
    using u(1) by (simp add: boot_process_def s(1) t(1) allocuvm_def KERNBASE_def PGROUNDUP_def PGSIZE_def)
  moreover have "kdata u = kdata t \<and> kend u = kend t" using u(2) unfolding space_step_def only_mem_def by (cases t; cases u) simp
  ultimately show ?thesis using t(4-6) u(4) um s(3) space_step_space [OF u(2)] by (intro exI [of _ d] exI [of _ u] exI [of _ zs]) simp
qed

section \<open>Properties\<close>

text \<open>
  \<^bold>\<open>Kernel half of an address space\<close> (C21).  With the free list well formed and the linker's \<^verbatim>\<open>data\<close> on its own page,
  \<^verbatim>\<open>setupkvm\<close> returns.  If it returns a directory, the processor translates exactly the kernel's addresses through it: every
  address of physical memory to itself, readable and, outside the kernel's text, writable; the device space to the device
  addresses; and no user address.  The directory and its tables are exactly the pages taken from the free list.  It
  returns 0 only if fewer than 1026 pages were free, and then every page it had taken is free again.
\<close>

theorem setupkvm_maps_kernel:
  assumes "kmem_inv s xs" and "data_ok (kdata s)" and "KERNBASE < kend s"
  shows "\<exists>d s' ys. setupkvm s = Ok (d, s') \<and> kmem_inv s' ys \<and> (\<forall>x. x \<notin> set xs \<longrightarrow> same_page (mem s) (mem s') x) \<and>
    (d \<noteq> 0 \<and> space d s' ys \<and> set ys \<union> owned (mem s') d = set xs \<and>
       (\<forall>wt va. translate (mem s') d wt va =
          (if va < KERNBASE then None
           else if va < P2V PHYSTOP then (if wt \<and> KERNLINK \<le> va \<and> va < kdata s then None else Some va)
           else if va < DEVSPACE then None else Some (P2V va))) \<or>
     d = 0 \<and> set ys = set xs \<and> length xs \<le> 1025)"
proof -
  obtain d s' ys where s': "setupkvm s = Ok (d, s')" "\<forall>x. x \<notin> set xs \<longrightarrow> same_page (mem s) (mem s') x"
    "d \<noteq> 0 \<and> space d s' ys \<and> pte (mem s') d = kern_pte (kdata s) \<and> set ys \<union> owned (mem s') d = set xs \<or>
     d = 0 \<and> kmem_inv s' ys \<and> set ys = set xs \<and> length xs \<le> 1025"
    using setupkvm_ok [OF assms] by blast
  have tr: "translate (mem s') d wt va =
      (if va < KERNBASE then None
       else if va < P2V PHYSTOP then (if wt \<and> KERNLINK \<le> va \<and> va < kdata s then None else Some va)
       else if va < DEVSPACE then None else Some (P2V va))" if "space d s' ys" "pte (mem s') d = kern_pte (kdata s)" for wt va
    unfolding translate_pte [OF spaceD(3) [OF that(1)]] frame_of_def that(2) by (rule kern_pte_translates)
  show ?thesis using s' tr spaceD(2) by blast
qed

theorem setupkvm_maps_kernel_witness:
  "\<exists>d s'. rbind boot_memory setupkvm = Ok (d, s') \<and> d \<noteq> 0 \<and> translate (mem s') d True 0x80108004 = Some 0x80108004 \<and>
     translate (mem s') d False 0x80100004 = Some 0x80100004 \<and> translate (mem s') d True 0x80100004 = None \<and>
     translate (mem s') d False 0x1000 = None"
proof -
  obtain s xs where s: "boot_memory = Ok s" "kmem_inv s xs" "data_ok (kdata s)" "KERNBASE < kend s" "5000 \<le> length xs" "kdata s = 0x80108000"
    using boot_memory_ok by blast
  from setupkvm_maps_kernel [OF s(2-4)] s(5) obtain d s' where d: "setupkvm s = Ok (d, s')" "d \<noteq> 0"
    "\<forall>wt va. translate (mem s') d wt va =
       (if va < KERNBASE then None
        else if va < P2V PHYSTOP then (if wt \<and> KERNLINK \<le> va \<and> va < kdata s then None else Some va)
        else if va < DEVSPACE then None else Some (P2V va))"
    by auto
  have "rbind boot_memory setupkvm = Ok (d, s')" by (simp add: s(1) d(1))
  moreover have "translate (mem s') d True 0x80108004 = Some 0x80108004" "translate (mem s') d False 0x80100004 = Some 0x80100004"
    "translate (mem s') d True 0x80100004 = None" "translate (mem s') d False 0x1000 = None"
    unfolding d(3) [rule_format] s(6) by (simp_all add: layout_defs)
  ultimately show ?thesis using d(2) by blast
qed

text \<open>
  \<^bold>\<open>Growing an address space\<close> (C4).  Where no page above the old size is mapped, \<^verbatim>\<open>allocuvm\<close> returns.  Either it
  returns the new size and the process sees zeros in every page it has gained and its old bytes elsewhere, or it
  returns 0 and the process sees what it saw before.  The address space still satisfies its invariant, pages only move between the free
  list and the address space, none is lost and no other page is written.  It fails only if the free pages are too few for the new
  pages and every table a directory can have.
\<close>

theorem allocuvm_extends:
  assumes "space d s xs" and "KERNBASE < kend s" and "oldsz \<le> newsz" and "newsz < KERNBASE"
    and "\<forall>va \<in> pages_in (PGROUNDUP oldsz) newsz. \<not> present (pte (mem s) d va)"
  shows "\<exists>r s' ys. allocuvm d oldsz newsz s = Ok (r, s') \<and> space d s' ys \<and>
    set ys \<union> owned (mem s') d = set xs \<union> owned (mem s) d \<and>
    (\<forall>x. x \<notin> set xs \<longrightarrow> x \<notin> owned (mem s) d \<longrightarrow> same_page (mem s) (mem s') x) \<and>
    (r = newsz \<and> umem (mem s') d = (\<lambda>va. if va \<in> pages_in (PGROUNDUP oldsz) newsz then Some 0 else umem (mem s) d va) \<or>
     r = 0 \<and> umem (mem s') d = umem (mem s) d \<and> length xs \<le> 1024 + npages (PGROUNDUP oldsz) newsz)"
proof -
  have o31: "unat oldsz < 2 ^ 31" using assms(3,4) by (simp add: word_less_nat_alt word_le_nat_alt KERNBASE_def)
  have ge: "oldsz \<le> PGROUNDUP oldsz" using o31 round_up_ge [of "unat oldsz"] by (simp add: word_le_nat_alt PGROUNDUP_unat)
  have al: "PGROUNDUP oldsz mod PGSIZE = 0" by (simp add: PGROUNDUP_DOWN)
  have run: "allocuvm d oldsz newsz s = allocuvm_loop d oldsz newsz (PGROUNDUP oldsz) s"
    using assms(3,4) by (auto simp: allocuvm_def)
  have old: "(\<lambda>va. if va \<in> pages_in (PGROUNDUP oldsz) newsz then None else umem (mem s) d va) = umem (mem s) d"
    using assms(5) by (auto simp: umem_def fun_eq_iff)
  have pos: "0 < card (pt_pages (mem s) d)" by (simp add: card_gt_0_iff) (simp add: pt_pages_def)
  show ?thesis
    using allocuvm_loop_ok [OF assms(1,5) al assms(4,2) ge] pos unfolding run space_step_def old by fastforce
qed

theorem allocuvm_extends_witness:
  "rbind boot_memory (\<lambda>s. rbind (setupkvm s) (\<lambda>(d, s). rbind (allocuvm d 0 0x2001 s) (\<lambda>(n, s).
       Ok (n, map (umem (mem s) d) [0, 0x2FFF, 0x3000])))) = Ok (0x2001, [Some 0, Some 0, None])"
proof -
  obtain s xs where s: "boot_memory = Ok s" "kmem_inv s xs" "data_ok (kdata s)" "KERNBASE < kend s" "5000 \<le> length xs"
    using boot_memory_ok by blast
  obtain d t ys where t: "setupkvm s = Ok (d, t)" "space d t ys" "pte (mem t) d = kern_pte (kdata s)" "KERNBASE < kend t" "3000 \<le> length ys"
    using setupkvm_room [OF s(2-4)] s(5) by auto
  have np: "\<not> present (pte (mem t) d va)" if "va < KERNBASE" for va using that by (simp add: t(3) kern_pte_def)
  have sub: "pages_in (PGROUNDUP 0) 0x2001 \<subseteq> user_half" by (rule pages_in_user) (simp add: KERNBASE_def)
  then have "\<forall>va \<in> pages_in (PGROUNDUP 0) 0x2001. \<not> present (pte (mem t) d va)" using np by (auto simp: user_half_def)
  moreover have "(0x2001 :: uint) < KERNBASE" by (simp add: KERNBASE_def)
  moreover have "npages (PGROUNDUP 0) 0x2001 = 3" by (simp add: npages_def PGROUNDUP_def PGSIZE_def)
  ultimately obtain u where u: "allocuvm d 0 0x2001 t = Ok (0x2001, u)"
    "umem (mem u) d = (\<lambda>va. if va \<in> pages_in (PGROUNDUP 0) 0x2001 then Some 0 else umem (mem t) d va)"
    using allocuvm_extends [OF t(2,4), of 0 "0x2001"] t(5) by auto
  have "0 \<in> pages_in (PGROUNDUP 0) 0x2001" "0x2FFF \<in> pages_in (PGROUNDUP 0) 0x2001" "0x3000 \<notin> pages_in (PGROUNDUP 0) 0x2001"
    by (simp_all add: pages_in_def PGROUNDUP_def PGROUNDDOWN_def PGSIZE_def)
  moreover have "umem (mem t) d 0x3000 = None" using np [of "0x3000"] by (simp add: umem_def)
  ultimately show ?thesis by (simp add: s(1) t(1) u)
qed

text \<open>
  \<^bold>\<open>The copy of an address space\<close> (C3).  \<^verbatim>\<open>copyuvm\<close>, the part of \<^verbatim>\<open>fork\<close> that copies the memory of the parent, returns.  If it
  returns a directory, the child sees exactly the bytes of the parent below \<^verbatim>\<open>sz\<close>, with the same permissions, and nothing above; its
  pages are exactly the pages taken from the free list, so none is shared with the parent.  In both cases the parent's mappings, bytes and pages are unchanged
  and no page outside the free list is written.  If it returns 0, every page it had taken is free again, and fewer pages were free than
  the copy can need.
\<close>

theorem copyuvm_isolates:
  assumes "space p s xs" and "data_ok (kdata s)" and "KERNBASE < kend s" and "sz \<le> KERNBASE"
    and "\<forall>va \<in> pages_in 0 sz. present (pte (mem s) p va)"
  shows "\<exists>d s' ys. copyuvm p sz s = Ok (d, s') \<and> space p s' ys \<and>
    umem (mem s') p = umem (mem s) p \<and> pte (mem s') p = pte (mem s) p \<and> owned (mem s') p = owned (mem s) p \<and>
    (\<forall>x. x \<notin> set xs \<longrightarrow> same_page (mem s) (mem s') x) \<and>
    (d \<noteq> 0 \<and> space d s' ys \<and> owned (mem s') d \<inter> owned (mem s') p = {} \<and> set ys \<union> owned (mem s') d = set xs \<and>
       umem (mem s') d = (\<lambda>va. if va \<in> pages_in 0 sz then umem (mem s) p va else None) \<and>
       (\<forall>va \<in> pages_in 0 sz. PTE_FLAGS (pte (mem s') d va) = PTE_FLAGS (pte (mem s) p va)) \<or>
     d = 0 \<and> set ys = set xs \<and> length xs \<le> 1025 + npages 0 sz)"
proof -
  obtain d s' ys where "copyuvm p sz s = Ok (d, s')" "space p s' ys"
    "umem (mem s') p = umem (mem s) p" "pte (mem s') p = pte (mem s) p" "owned (mem s') p = owned (mem s) p"
    "\<forall>x. x \<notin> set xs \<longrightarrow> same_page (mem s) (mem s') x" and
    d: "d \<noteq> 0 \<and> space d s' ys \<and> owned (mem s') d \<inter> owned (mem s') p = {} \<and> set ys \<union> owned (mem s') d = set xs \<and>
       umem (mem s') d = (\<lambda>va. if va \<in> pages_in 0 sz then umem (mem s) p va else None) \<and>
       (\<forall>va. if va \<in> pages_in 0 sz then present (pte (mem s') d va) \<and> PTE_FLAGS (pte (mem s') d va) = PTE_FLAGS (pte (mem s) p va)
         else pte (mem s') d va = kern_pte (kdata s) va) \<or>
     d = 0 \<and> set ys = set xs \<and> length xs \<le> 1025 + npages 0 sz"
    using copyuvm_ok [OF assms] by blast
  moreover have "\<forall>va \<in> pages_in 0 sz. PTE_FLAGS (pte (mem s') d va) = PTE_FLAGS (pte (mem s) p va)" if "d \<noteq> 0" using d that by metis
  ultimately show ?thesis by blast
qed

theorem copyuvm_isolates_witness:
  "rbind boot_process (\<lambda>(p, s). rbind (copyuvm p 0x3000 s) (\<lambda>(d, s).
     Ok (d = 0, umem (mem s) d 0x2FFF, umem (mem s) d 0x3000, umem (mem s) p 0x2FFF))) = Ok (False, Some 0, None, Some 0)"
proof -
  obtain p s xs where s: "boot_process = Ok (p, s)" "space p s xs" "data_ok (kdata s)" "KERNBASE < kend s" "2000 \<le> length xs"
    "\<forall>va < 0x3000. fresh_pte (pte (mem s) p va)" "umem (mem s) p = (\<lambda>va. if va < 0x3000 then Some 0 else None)"
    using boot_process_ok by blast
  have P: "pages_in 0 0x3000 = {va. va < 0x3000}"
    using rounddown_less(1) [of "0x3000"] by (simp add: pages_in_def PGSIZE_def)
  have "(0x3000 :: uint) \<le> KERNBASE" by (simp add: KERNBASE_def)
  moreover have "\<forall>va \<in> pages_in 0 0x3000. present (pte (mem s) p va)" using s(6) by (simp add: P fresh_pte_def)
  ultimately obtain d s' where d: "copyuvm p 0x3000 s = Ok (d, s')" "d \<noteq> 0" "umem (mem s') p = umem (mem s) p"
    "umem (mem s') d = (\<lambda>va. if va < 0x3000 then umem (mem s) p va else None)"
    using copyuvm_isolates [OF s(2-4), of "0x3000"] s(5) unfolding P by (auto simp: npages_def)
  then show ?thesis by (simp add: s(1,7))
qed

text \<open>
  \<^bold>\<open>Freeing an address space\<close> (C22).  \<^verbatim>\<open>freevm\<close> returns every page an address space owns, the frames of its user pages, its tables and its directory, to the free list,
  each exactly once: the list stays well formed and its pages are the old ones and those the address space owned.
\<close>

theorem freevm_returns_pages:
  assumes "space d s xs" and "KERNBASE < kend s"
  shows "\<exists>s' ys. freevm d s = Ok s' \<and> kmem_inv s' ys \<and> distinct ys \<and> set ys = set xs \<union> owned (mem s) d \<and>
    (\<forall>x. x \<notin> owned (mem s) d \<longrightarrow> x \<notin> set xs \<longrightarrow> same_page (mem s) (mem s') x)"
  using freevm_ok [OF assms] unfolding kmem_inv_def by blast

theorem freevm_returns_pages_witness:
  "\<exists>d u t zs. boot_process = Ok (d, u) \<and> freevm d u = Ok t \<and> kmem_inv t zs \<and> d \<in> set zs \<and> frame_of (mem u) d 0x2000 \<in> set zs"
proof -
  obtain d u ys where u: "boot_process = Ok (d, u)" "space d u ys" "KERNBASE < kend u" "\<forall>va < 0x3000. fresh_pte (pte (mem u) d va)"
    using boot_process_ok by blast
  from freevm_returns_pages [OF u(2,3)] obtain t zs where t: "freevm d u = Ok t" "kmem_inv t zs" "set zs = set ys \<union> owned (mem u) d" by blast
  have "present (pte (mem u) d 0x2000)" using u(4) by (simp add: fresh_pte_def)
  then have "frame_of (mem u) d 0x2000 \<in> owned (mem u) d" using frame_pages [of "0x2000" "mem u" d] by (simp add: owned_def KERNBASE_def)
  moreover have "d \<in> owned (mem u) d" by (simp add: owned_def pt_pages_def)
  ultimately have "d \<in> set zs" "frame_of (mem u) d 0x2000 \<in> set zs" using t(3) by simp_all
  then show ?thesis using u(1) t(1,2) by blast
qed

text \<open>
  \<^bold>\<open>Writing into an address space\<close> (C23).  If every page from \<^verbatim>\<open>va\<close> on that the buffer reaches is mapped for the user, \<^verbatim>\<open>copyout\<close> succeeds and
  afterwards the process sees the buffer at \<^verbatim>\<open>va\<close> and its old bytes elsewhere, whichever frames its pages lie in; page table, free list and every
  page that is not one of its frames are unchanged.
\<close>

theorem copyout_writes:
  assumes "space d s xs" and "unat va + length buf \<le> 2 ^ 31"
    and "\<forall>k < length buf. present (pte (mem s) d (va + of_nat k)) \<and> pte (mem s) d (va + of_nat k) AND PTE_U \<noteq> 0"
  shows "\<exists>s'. copyout nul d va buf s = Ok (0, s') \<and> space d s' xs \<and> pte (mem s') d = pte (mem s) d \<and>
    umem (mem s') d = (\<lambda>x. if unat (x - va) < length buf then Some (buf ! unat (x - va)) else umem (mem s) d x) \<and>
    (\<forall>y. y \<notin> frames (mem s) d user_half \<longrightarrow> same_page (mem s) (mem s') y)"
  using copyout_ok [OF assms] by blast

theorem copyout_writes_witness:
  "rbind boot_process (\<lambda>(d, s). rbind (copyout (\<lambda>m. None) d 0xFFE [1, 2, 3, 4] s) (\<lambda>(r, s).
     Ok (r, map (umem (mem s) d) [0xFFD, 0xFFE, 0xFFF, 0x1000, 0x1001, 0x1002]))) = Ok (0, [Some 0, Some 1, Some 2, Some 3, Some 4, Some 0])"
proof -
  obtain d u ys where u: "boot_process = Ok (d, u)" "space d u ys" "\<forall>va < 0x3000. fresh_pte (pte (mem u) d va)"
    "umem (mem u) d = (\<lambda>va. if va < 0x3000 then Some 0 else None)"
    using boot_process_ok by blast
  have fp: "present e \<and> e AND PTE_U \<noteq> 0" if "fresh_pte e" for e
  proof -
    have "PTE_FLAGS e AND PTE_U = e AND PTE_U" by (simp add: PTE_FLAGS_def PTE_U_def and.assoc)
    then show ?thesis using that by (auto simp: fresh_pte_def PTE_W_def PTE_U_def PTE_P_def)
  qed
  have "\<forall>k < length [1, 2, 3, 4 :: uchar]. present (pte (mem u) d (0xFFE + of_nat k)) \<and> pte (mem u) d (0xFFE + of_nat k) AND PTE_U \<noteq> 0"
  proof (intro allI impI)
    fix k assume "k < length [1, 2, 3, 4 :: uchar]"
    then have "(0xFFE + of_nat k :: uint) < 0x3000" by (simp add: word_less_nat_alt unat_word_ariths unat_of_nat)
    then show "present (pte (mem u) d (0xFFE + of_nat k)) \<and> pte (mem u) d (0xFFE + of_nat k) AND PTE_U \<noteq> 0" using u(3) fp by blast
  qed
  moreover have "unat (0xFFE :: uint) + length [1, 2, 3, 4 :: uchar] \<le> 2 ^ 31" by simp
  ultimately obtain s' where "copyout (\<lambda>m. None) d 0xFFE [1, 2, 3, 4] u = Ok (0, s')"
    "umem (mem s') d = (\<lambda>x. if unat (x - 0xFFE) < length [1, 2, 3, 4 :: uchar] then Some ([1, 2, 3, 4] ! unat (x - 0xFFE)) else umem (mem u) d x)"
    using copyout_writes [OF u(2), of "0xFFE" "[1, 2, 3, 4]" "\<lambda>m. None"] by blast
  then show ?thesis by (simp add: u(1,4) unsigned_minus_1_eq_mask mask_eq_exp_minus_1)
qed

text \<open>
  \<^bold>\<open>Null page table entries in \<^verbatim>\<open>copyout\<close>\<close> (C24).  \<^verbatim>\<open>uva2ka\<close> dereferences the result of \<^verbatim>\<open>walkpgdir\<close> without testing it.  If the directory has no
  table for the page, it reads the word at address 0 of the current process instead, which the process chooses, and if that looks like a user page table
  entry, \<^verbatim>\<open>copyout\<close> succeeds and has written the kernel's byte into the physical page the word names.
\<close>

theorem copyout_null_write:
  assumes "\<not> present (pde (mem s) d (PDX va))" and "nul (mem s) = Some e" and "present e" and "e AND PTE_U \<noteq> 0" and "P2V (PTE_ADDR e) \<noteq> 0"
  shows "copyout nul d va [b] s = Ok (0, s\<lparr>mem := (mem s)(P2V (PTE_ADDR e) + va mod PGSIZE := b)\<rparr>)"
proof -
  have "PDX (PGROUNDDOWN va) = PDX va" by (rule PDX_rounddown)
  then have "uva2ka nul d (PGROUNDDOWN va) s = Ok (P2V (PTE_ADDR e))"
    using assms(1-4) by (simp add: uva2ka_def walkpgdir_noalloc present_def)
  moreover have "va - PGROUNDDOWN va = va mod PGSIZE" by (simp add: PGROUNDDOWN_eq)
  moreover have "min (length [b]) (unat (PGSIZE - va mod PGSIZE)) = 1" using page_rest_pos [of va] calculation(2) by simp
  moreover have "(\<lambda>a. if unat (a - x) < 1 then [b] ! unat (a - x) else mem s a) = (mem s)(x := b)" for x
    by (auto simp: fun_eq_iff unat_eq_zero)
  moreover have "copyout nul d x [] t = Ok (0, t)" for x t by (subst copyout.simps) simp
  moreover have "drop 1 [b] = []" "[b] \<noteq> []" by simp_all
  ultimately show ?thesis
    using assms(5) by (subst copyout.simps) (simp only: Let_def if_False rbind.simps)
qed

theorem copyout_null_write_witness:
  "copyout (\<lambda>m. Some 0x100007) 0x80400000 0xFD000010 [0x41] boot_kmem =
     Ok (0, boot_kmem\<lparr>mem := (mem boot_kmem)(0x80100010 := 0x41)\<rparr>)"
  using copyout_null_write [of boot_kmem "0x80400000" "0xFD000010" "\<lambda>m. Some 0x100007" "0x100007" "0x41"]
  by (simp add: boot_kmem_def present_def pde_def ld32_def PTE_P_def PTE_U_def PTE_ADDR_def P2V_def KERNBASE_def PGSIZE_def)

end
