(* ===== verification/User.thy ===== *)
theory User
  imports C_String Console
begin

text \<open>
  User programs: the system call interface of \<^verbatim>\<open>user.h\<close> and \<^verbatim>\<open>usys.S\<close>, the library \<^verbatim>\<open>ulib.c\<close> and \<^verbatim>\<open>printf.c\<close>.

  A user program runs against a script of replies: every system call appends itself to the trace and takes the
  next reply, the value the kernel returns in \<^verbatim>\<open>%eax\<close> and the bytes it stores through a pointer argument.  A program whose script is used up waits in its
  last call (\<open>UBlock\<close>); a statement for all scripts is a statement for every kernel behaviour.  Strings are the lists
  of their characters before the terminator.  \<open>UFault\<close> is a program that reads an argument it was not given.
\<close>

section \<open>Definitions\<close>

datatype ucall =
    UFork | UExitCall | UWait | UPipe | UWrite int "uchar list" | URead int nat | UClose int | UKill int
  | UExec "uchar list" "uchar list list" | UOpen "uchar list" int | UMknod "uchar list" int int | UUnlink "uchar list"
  | UFstat int | ULink "uchar list" "uchar list" | UMkdir "uchar list" | UChdir "uchar list" | UDup int | UGetpid
  | USbrk int | USleep int | UUptime | USwapread int | USwapwrite "uchar list" int

record reply =
  rv :: int
  rdata :: "uchar list"

record usr =
  replies :: "reply list"
  trace :: "ucall list"

datatype 'a uout = URet 'a usr | UBlock usr | UExit usr | UFault

primrec ubind :: "'a uout \<Rightarrow> ('a \<Rightarrow> usr \<Rightarrow> 'b uout) \<Rightarrow> 'b uout" where
  "ubind (URet x s) f = f x s"
| "ubind (UBlock s) f = UBlock s"
| "ubind (UExit s) f = UExit s"
| "ubind UFault f = UFault"

lemma ubind_cong [fundef_cong]:
  "m = m' \<Longrightarrow> (\<And>x s. m' = URet x s \<Longrightarrow> f x s = f' x s) \<Longrightarrow> ubind m f = ubind m' f'"
  by (cases m') auto

text \<open>A call through the stub \<^verbatim>\<open>SYSCALL(name)\<close>, and \<^verbatim>\<open>exit\<close>, which does not return.\<close>

definition sys :: "ucall \<Rightarrow> usr \<Rightarrow> reply uout" where
  "sys c s =
     (case replies s of
        [] \<Rightarrow> UBlock (s\<lparr>trace := trace s @ [c]\<rparr>)
      | r # rs \<Rightarrow> URet r (s\<lparr>replies := rs, trace := trace s @ [c]\<rparr>))"

definition uexit :: "usr \<Rightarrow> 'a uout" where
  "uexit s = UExit (s\<lparr>trace := trace s @ [UExitCall]\<rparr>)"

text \<open>The array \<open>b\<close> after a call has stored the bytes of its reply at its start.\<close>

definition fill :: "uchar list \<Rightarrow> reply \<Rightarrow> uchar list" where
  "fill b r = take (length b) (rdata r) @ drop (length (rdata r)) b"

subsection \<open>\<^verbatim>\<open>ulib.c\<close>\<close>

fun strcpy :: "carray \<Rightarrow> nat \<Rightarrow> uchar list \<Rightarrow> carray" where
  "strcpy d i [] = d(i := 0)"
| "strcpy d i (c # t) = strcpy (d(i := c)) (Suc i) t"

fun strcmp :: "uchar list \<Rightarrow> uchar list \<Rightarrow> int" where
  "strcmp [] [] = 0"
| "strcmp [] (q # qs) = - uint q"
| "strcmp (p # ps) [] = uint p"
| "strcmp (p # ps) (q # qs) = (if p = q then strcmp ps qs else uint p - uint q)"

fun ustrlen_loop :: "uchar list \<Rightarrow> nat \<Rightarrow> nat" where
  "ustrlen_loop [] n = n"
| "ustrlen_loop (c # s) n = ustrlen_loop s (Suc n)"

definition ustrlen :: "uchar list \<Rightarrow> nat" where
  "ustrlen s = ustrlen_loop s 0"

definition umemset :: "memory \<Rightarrow> uint \<Rightarrow> uchar \<Rightarrow> uint \<Rightarrow> memory" where
  "umemset m dst c n = stosb m dst c (unat n)"

text \<open>\<^verbatim>\<open>strchr\<close> returns the position of the character, or a null pointer.\<close>

fun strchr :: "uchar list \<Rightarrow> uchar \<Rightarrow> nat option" where
  "strchr [] c = None"
| "strchr (x # s) c = (if x = c then Some 0 else map_option Suc (strchr s c))"

text \<open>\<^verbatim>\<open>gets\<close>: \<open>acc\<close> are the characters stored so far.\<close>

function gets_loop :: "nat \<Rightarrow> uchar list \<Rightarrow> usr \<Rightarrow> uchar list uout" where
  "gets_loop mx acc s =
     (if length acc + 1 < mx
      then ubind (sys (URead 0 1) s) (\<lambda>r s.
           if rv r < 1 then URet acc s
           else let c = hd (fill [0] r)
                in if c = 10 \<or> c = 13 then URet (acc @ [c]) s else gets_loop mx (acc @ [c]) s)
      else URet acc s)"
  by pat_completeness auto
termination by (relation "measure (\<lambda>(mx, acc, s). mx - length acc)") auto

declare gets_loop.simps [simp del]

definition gets :: "nat \<Rightarrow> usr \<Rightarrow> uchar list uout" where
  "gets mx s = gets_loop mx [] s"

text \<open>\<^verbatim>\<open>stat\<close>: the reply of \<^verbatim>\<open>fstat\<close> carries the bytes of \<^verbatim>\<open>struct stat\<close>.\<close>

definition ustat :: "uchar list \<Rightarrow> usr \<Rightarrow> reply uout" where
  "ustat n s =
     ubind (sys (UOpen n 0) s) (\<lambda>fd s.
     if rv fd < 0 then URet \<lparr>rv = -1, rdata = []\<rparr> s
     else ubind (sys (UFstat (rv fd)) s) (\<lambda>r s.
          ubind (sys (UClose (rv fd)) s) (\<lambda>_ s. URet r s)))"

fun atoi_loop :: "uint \<Rightarrow> uchar list \<Rightarrow> uint" where
  "atoi_loop n [] = n"
| "atoi_loop n (c # s) = (if 48 \<le> c \<and> c \<le> 57 then atoi_loop (n * 10 + ucast c - 48) s else n)"

definition atoi :: "uchar list \<Rightarrow> uint" where
  "atoi s = atoi_loop 0 s"

definition umemmove :: "memory \<Rightarrow> uint \<Rightarrow> uint \<Rightarrow> int \<Rightarrow> memory" where
  "umemmove m dst src n = copy_up m dst src (nat n)"

subsection \<open>\<^verbatim>\<open>printf.c\<close>\<close>

definition putc :: "int \<Rightarrow> uchar \<Rightarrow> usr \<Rightarrow> unit uout" where
  "putc fd c s = ubind (sys (UWrite fd [c]) s) (\<lambda>_ s. URet () s)"

primrec putcs :: "int \<Rightarrow> uchar list \<Rightarrow> usr \<Rightarrow> unit uout" where
  "putcs fd [] s = URet () s"
| "putcs fd (c # cs) s = ubind (putc fd c s) (\<lambda>_ s. putcs fd cs s)"

definition udigit :: "nat \<Rightarrow> uchar" where
  "udigit d = ascii ''0123456789ABCDEF'' ! d"

definition uprintint :: "int \<Rightarrow> uint \<Rightarrow> nat \<Rightarrow> bool \<Rightarrow> usr \<Rightarrow> unit uout" where
  "uprintint fd xx base sg s =
     (let neg = (sg \<and> sint xx < 0); x = (if neg then - xx else xx);
          buf = map udigit (udigits base (unat x)) @ (if neg then [45] else [])
      in putcs fd (rev buf) s)"

text \<open>
  The arguments after the format string: words, and pointers to strings.  \<open>perc\<close> is whether \<^verbatim>\<open>state\<close> is \<^verbatim>\<open>'%'\<close>.
\<close>

datatype uarg = Num uint | Ptr "uchar list" | Null

fun printf_loop :: "int \<Rightarrow> bool \<Rightarrow> uchar list \<Rightarrow> uarg list \<Rightarrow> usr \<Rightarrow> unit uout" where
  "printf_loop fd perc [] ap s = URet () s"
| "printf_loop fd perc (c # fmt) ap s =
     (if \<not> perc
      then if c = 37 then printf_loop fd True fmt ap s
           else ubind (putc fd c s) (\<lambda>_ s. printf_loop fd False fmt ap s)
      else if c = 100
      then (case ap of Num x # ap \<Rightarrow> ubind (uprintint fd x 10 True s) (\<lambda>_ s. printf_loop fd False fmt ap s) | _ \<Rightarrow> UFault)
      else if c = 120 \<or> c = 112
      then (case ap of Num x # ap \<Rightarrow> ubind (uprintint fd x 16 False s) (\<lambda>_ s. printf_loop fd False fmt ap s) | _ \<Rightarrow> UFault)
      else if c = 115
      then (case ap of
              Ptr t # ap \<Rightarrow> ubind (putcs fd t s) (\<lambda>_ s. printf_loop fd False fmt ap s)
            | Null # ap \<Rightarrow> ubind (putcs fd (ascii ''(null)'') s) (\<lambda>_ s. printf_loop fd False fmt ap s)
            | _ \<Rightarrow> UFault)
      else if c = 99
      then (case ap of Num x # ap \<Rightarrow> ubind (putc fd (ucast x) s) (\<lambda>_ s. printf_loop fd False fmt ap s) | _ \<Rightarrow> UFault)
      else if c = 37 then ubind (putc fd c s) (\<lambda>_ s. printf_loop fd False fmt ap s)
      else ubind (putc fd 37 s) (\<lambda>_ s. ubind (putc fd c s) (\<lambda>_ s. printf_loop fd False fmt ap s)))"

definition printf :: "int \<Rightarrow> uchar list \<Rightarrow> uarg list \<Rightarrow> usr \<Rightarrow> unit uout" where
  "printf fd fmt ap s = printf_loop fd False fmt ap s"

text \<open>A message and its newline.\<close>

definition msg :: "string \<Rightarrow> uchar list" where
  "msg t = ascii t @ [10]"

section \<open>Scripts\<close>

text \<open>What a call does to the script and the trace, and a run of characters written one by one.\<close>

definition script :: "reply list \<Rightarrow> ucall list \<Rightarrow> usr" where
  "script rs tr = \<lparr>replies = rs, trace = tr\<rparr>"

lemma script_sel [simp]: "replies (script rs tr) = rs" "trace (script rs tr) = tr"
  by (simp_all add: script_def)

lemma script_surj: "s = script (replies s) (trace s)"
  by (simp add: script_def)

lemma sys_script [simp]:
  "sys c (script (r # rs) tr) = URet r (script rs (tr @ [c]))" "sys c (script [] tr) = UBlock (script [] (tr @ [c]))"
  by (simp_all add: sys_def script_def)

lemma uexit_script [simp]: "uexit (script rs tr) = UExit (script rs (tr @ [UExitCall]))"
  by (simp add: uexit_def script_def)

lemma sys_shorter: "sys c s = URet r s' \<Longrightarrow> length (replies s) = Suc (length (replies s'))"
  by (auto simp: sys_def split: list.splits)

lemma ubind_URet: "ubind m f = URet y s' \<longleftrightarrow> (\<exists>x s. m = URet x s \<and> f x s = URet y s')"
  by (cases m) auto

lemma ubind_assoc: "ubind (ubind m f) g = ubind m (\<lambda>x s. ubind (f x s) g)"
  by (cases m) auto

definition puts_calls :: "int \<Rightarrow> uchar list \<Rightarrow> ucall list" where
  "puts_calls fd cs = map (\<lambda>c. UWrite fd [c]) cs"

lemma putcs_script:
  "length cs \<le> length rs \<Longrightarrow> putcs fd cs (script rs tr) = URet () (script (drop (length cs) rs) (tr @ puts_calls fd cs))"
proof (induction cs arbitrary: rs tr)
  case (Cons c cs)
  then obtain r rs' where "rs = r # rs'" by (cases rs) auto
  then show ?case using Cons by (simp add: putc_def puts_calls_def)
qed (simp add: puts_calls_def)

lemma putcs_append: "putcs fd (cs @ ds) s = ubind (putcs fd cs s) (\<lambda>_ s. putcs fd ds s)"
  by (induction cs arbitrary: s) (simp_all add: ubind_assoc)

text \<open>The characters \<^verbatim>\<open>printf\<close> prints, if it is given the arguments its format asks for.\<close>

definition uint_chars :: "uint \<Rightarrow> nat \<Rightarrow> bool \<Rightarrow> uchar list" where
  "uint_chars xx base sg = printint_chars udigit xx base sg"

lemma uprintint_putcs: "uprintint fd xx base sg s = putcs fd (uint_chars xx base sg) s"
  by (simp add: uprintint_def uint_chars_def printint_chars_def Let_def)

fun fmt_chars :: "bool \<Rightarrow> uchar list \<Rightarrow> uarg list \<Rightarrow> uchar list option" where
  "fmt_chars perc [] ap = Some []"
| "fmt_chars perc (c # fmt) ap =
     (if \<not> perc then if c = 37 then fmt_chars True fmt ap else map_option (Cons c) (fmt_chars False fmt ap)
      else if c = 100 then (case ap of Num x # ap \<Rightarrow> map_option (append (uint_chars x 10 True)) (fmt_chars False fmt ap) | _ \<Rightarrow> None)
      else if c = 120 \<or> c = 112 then (case ap of Num x # ap \<Rightarrow> map_option (append (uint_chars x 16 False)) (fmt_chars False fmt ap) | _ \<Rightarrow> None)
      else if c = 115
      then (case ap of Ptr t # ap \<Rightarrow> map_option (append t) (fmt_chars False fmt ap)
            | Null # ap \<Rightarrow> map_option (append (ascii ''(null)'')) (fmt_chars False fmt ap) | _ \<Rightarrow> None)
      else if c = 99 then (case ap of Num x # ap \<Rightarrow> map_option (Cons (ucast x)) (fmt_chars False fmt ap) | _ \<Rightarrow> None)
      else if c = 37 then map_option (Cons c) (fmt_chars False fmt ap)
      else map_option (append [37, c]) (fmt_chars False fmt ap))"

lemma printf_loop_putcs: "fmt_chars perc fmt ap = Some cs \<Longrightarrow> printf_loop fd perc fmt ap s = putcs fd cs s"
proof (induction fmt arbitrary: perc ap cs s)
  case (Cons c fmt)
  have p: "ubind (putcs fd t s) (\<lambda>_. printf_loop fd False fmt ap) = putcs fd (t @ ds) s" if "fmt_chars False fmt ap = Some ds" for t ap ds s
    unfolding putcs_append by (rule ubind_cong) (simp_all add: Cons.IH [OF that])
  have q: "ubind (putc fd x s) f = ubind (putcs fd [x] s) f" for x s and f :: "unit \<Rightarrow> usr \<Rightarrow> unit uout"
    by (cases "putc fd x s") simp_all
  have q2: "ubind (putcs fd [x] s) (\<lambda>_ s. ubind (putcs fd [y] s) f) = ubind (putcs fd [x, y] s) f" for x y s and f :: "unit \<Rightarrow> usr \<Rightarrow> unit uout"
    by (cases "putc fd x s") simp_all
  show ?case
  proof (cases perc)
    case False
    then show ?thesis using Cons.prems by (cases "c = 37") (auto simp: Cons.IH q p simp del: putcs.simps)
  next
    case True
    consider "c = 100" | "c = 120 \<or> c = 112" | "c = 115" | "c = 99" | "c = 37" | "c \<notin> {100, 120, 112, 115, 99, 37}" by auto
    then show ?thesis
      by cases (use True Cons.prems in \<open>auto simp: uprintint_putcs p q q2 simp del: putcs.simps split: list.splits uarg.splits\<close>)
  qed
qed simp

lemma putcs_replies: "putcs fd cs s = URet x s' \<Longrightarrow> length (replies s') \<le> length (replies s)"
  by (induction cs arbitrary: s) (fastforce simp: putc_def ubind_URet dest: sys_shorter)+

lemma putc_replies: "putc fd c s = URet x s' \<Longrightarrow> length (replies s') \<le> length (replies s)"
  by (auto simp: putc_def ubind_URet dest: sys_shorter)

lemma printf_loop_replies: "printf_loop fd perc fmt ap s = URet () s' \<Longrightarrow> length (replies s') \<le> length (replies s)"
proof (induction fmt arbitrary: perc ap s)
  case (Cons c fmt)
  have p: "length (replies s') \<le> length (replies s)" if "ubind (putcs fd t s) (\<lambda>_. printf_loop fd False fmt ap) = URet () s'" for t ap s
    using that putcs_replies [of fd t s] Cons.IH [of False ap] by (fastforce simp: ubind_URet)
  have q: "length (replies s') \<le> length (replies s)" if "ubind (putc fd x s) (\<lambda>_. printf_loop fd False fmt ap) = URet () s'" for x ap s
    using that putc_replies [of fd x s] Cons.IH [of False ap] by (fastforce simp: ubind_URet)
  have q2: "length (replies s') \<le> length (replies s)"
    if h: "ubind (putc fd 37 s) (\<lambda>_ s. ubind (putc fd c s) (\<lambda>_. printf_loop fd False fmt ap)) = URet () s'" for s ap
  proof -
    obtain t where t: "putc fd 37 s = URet () t" "ubind (putc fd c t) (\<lambda>_. printf_loop fd False fmt ap) = URet () s'"
      using h by (cases "putc fd 37 s") auto
    then show ?thesis using q [OF t(2)] putc_replies [OF t(1)] by simp
  qed
  show ?case
    using Cons.prems Cons.IH [of True ap s]
    by (auto simp: uprintint_putcs split: if_splits list.splits uarg.splits intro: p q q2)
qed simp

lemma printf_replies: "printf fd fmt ap s = URet () s' \<Longrightarrow> length (replies s') \<le> length (replies s)"
  unfolding printf_def by (rule printf_loop_replies)

section \<open>Properties\<close>

lemma udigit_value: "d < 10 \<Longrightarrow> udigit d = of_nat (48 + d)"
proof -
  assume "d < 10"
  then have "d \<in> {0, 1, 2, 3, 4, 5, 6, 7, 8, 9}" by auto
  then show ?thesis by (elim insertE) (simp_all add: udigit_def ascii_def)
qed

lemma atoi_digits:
  assumes "\<forall>d \<in> set ds. d < 10"
  shows "atoi_loop n (map udigit ds @ t) = atoi_loop (foldl (\<lambda>n d. n * 10 + of_nat d) n ds) t"
  using assms
proof (induction ds arbitrary: n)
  case (Cons d ds)
  have d: "d < 10" using Cons.prems by simp
  have u: "unat (of_nat (48 + d) :: uchar) = 48 + d" using d by (simp add: unat_of_nat del: of_nat_add)
  have "(48 :: uchar) \<le> of_nat (48 + d)" "of_nat (48 + d) \<le> (57 :: uchar)" using d by (simp_all add: word_le_nat_alt u del: of_nat_add)
  moreover have "ucast (of_nat (48 + d) :: uchar) = (of_nat (48 + d) :: uint)" using u by (simp add: word_unat_eq_iff unsigned_ucast_eq unat_of_nat take_bit_eq_mod del: of_nat_add)
  ultimately show ?case using Cons by (simp add: udigit_value [OF d] del: of_nat_add) (simp add: algebra_simps)
qed simp

lemma foldl_digits: "foldl (\<lambda>n d. n * 10 + of_nat d) 0 (rev ds) = (of_nat (foldr (\<lambda>d acc. d + 10 * acc) ds 0) :: uint)"
  by (induction ds) (simp_all add: algebra_simps)

lemma atoi_uint_chars:
  assumes "0 \<le> sint x"
  shows "atoi (uint_chars x 10 True) = x"
proof -
  have "uint_chars x 10 True = map udigit (rev (udigits 10 (unat x)))"
    using assms by (simp add: uint_chars_def printint_chars_def rev_map)
  moreover have "\<forall>d \<in> set (rev (udigits 10 (unat x))). d < 10" using udigits_small [of 10] by auto
  ultimately show ?thesis
    using atoi_digits [of "rev (udigits 10 (unat x))" 0 "[]"] udigits_value [of 10 "unat x"]
    by (simp add: atoi_def foldl_digits)
qed

text \<open>
  \<^bold>\<open>Numbers survive printing\<close> (C25).  With enough replies, \<^verbatim>\<open>printf\<close> of \<^verbatim>\<open>%d\<close> returns after writing at most ten characters one by one,
  and \<^verbatim>\<open>atoi\<close> of them is the number again, for every non-negative \<^verbatim>\<open>int\<close>.
\<close>

theorem printf_atoi_roundtrip:
  assumes "0 \<le> sint x" and "10 \<le> length rs"
  shows "\<exists>cs. printf fd (ascii ''%d'') [Num x] (script rs tr) = URet () (script (drop (length cs) rs) (tr @ puts_calls fd cs)) \<and>
    length cs \<le> 10 \<and> atoi cs = x"
proof -
  let ?cs = "uint_chars x 10 True"
  have "fmt_chars False (ascii ''%d'') [Num x] = Some ?cs" by (simp add: ascii_def)
  then have "printf fd (ascii ''%d'') [Num x] (script rs tr) = putcs fd ?cs (script rs tr)"
    unfolding printf_def by (rule printf_loop_putcs)
  moreover have l: "length ?cs \<le> 10"
    using assms(1) udigits_length [of 10 "unat x" 9] unat_uint_less [of x] by (simp add: uint_chars_def printint_chars_def)
  ultimately show ?thesis using putcs_script [of ?cs rs fd tr] assms(2) atoi_uint_chars [OF assms(1)] by auto
qed

theorem printf_atoi_roundtrip_witness:
  "\<exists>cs. printf 1 (ascii ''%d'') [Num 2047] (script (replicate 12 \<lparr>rv = 1, rdata = []\<rparr>) []) =
     URet () (script (replicate (12 - length cs) \<lparr>rv = 1, rdata = []\<rparr>) (puts_calls 1 cs)) \<and> length cs \<le> 10 \<and> atoi cs = 2047"
  using printf_atoi_roundtrip [of 2047 "replicate 12 \<lparr>rv = 1, rdata = []\<rparr>" 1 "[]"] by auto

end
