(* ===== verification/Programs.thy ===== *)
theory Programs
  imports User Fs
begin

text \<open>
  The small user programs: \<^verbatim>\<open>cat\<close>, \<^verbatim>\<open>wc\<close>, \<^verbatim>\<open>echo\<close>, \<^verbatim>\<open>ls\<close>, \<^verbatim>\<open>kill\<close>, \<^verbatim>\<open>ln\<close>, \<^verbatim>\<open>mkdir\<close>, \<^verbatim>\<open>rm\<close>, \<^verbatim>\<open>init\<close>, \<^verbatim>\<open>zombie\<close> and the test programs
  \<^verbatim>\<open>stressfs\<close>, \<^verbatim>\<open>forktest\<close> and \<^verbatim>\<open>swaptest\<close>, each as the function that its \<^verbatim>\<open>main\<close> is of its arguments and the script of replies.
\<close>

section \<open>Definitions\<close>

text \<open>Print a message and exit.\<close>

definition die :: "int \<Rightarrow> string \<Rightarrow> uarg list \<Rightarrow> usr \<Rightarrow> 'a uout" where
  "die fd m ap s = ubind (printf fd (msg m) ap s) (\<lambda>_ s. uexit s)"

subsection \<open>\<^verbatim>\<open>cat.c\<close>\<close>

function cat_loop :: "int \<Rightarrow> uchar list \<Rightarrow> usr \<Rightarrow> (int \<times> uchar list) uout" where
  "cat_loop fd buf s =
     ubind (sys (URead fd 512) s) (\<lambda>r s.
     let buf = fill buf r
     in if rv r > 0
        then ubind (sys (UWrite 1 (take (nat (rv r)) buf)) s) (\<lambda>w s.
             if rv w \<noteq> rv r then die 1 ''cat: write error'' [] s else cat_loop fd buf s)
        else URet (rv r, buf) s)"
  by pat_completeness auto
termination by (relation "measure (\<lambda>(fd, buf, s). length (replies s))") (auto dest!: sys_shorter)

declare cat_loop.simps [simp del]

definition cat :: "int \<Rightarrow> uchar list \<Rightarrow> usr \<Rightarrow> uchar list uout" where
  "cat fd buf s = ubind (cat_loop fd buf s) (\<lambda>x s. if fst x < 0 then die 1 ''cat: read error'' [] s else URet (snd x) s)"

primrec cat_files :: "uchar list list \<Rightarrow> uchar list \<Rightarrow> usr \<Rightarrow> unit uout" where
  "cat_files [] buf s = uexit s"
| "cat_files (f # fs) buf s =
     ubind (sys (UOpen f 0) s) (\<lambda>fd s.
     if rv fd < 0 then die 1 ''cat: cannot open %s'' [Ptr f] s
     else ubind (cat (rv fd) buf s) (\<lambda>buf s. ubind (sys (UClose (rv fd)) s) (\<lambda>_ s. cat_files fs buf s)))"

definition cat_main :: "uchar list list \<Rightarrow> usr \<Rightarrow> unit uout" where
  "cat_main argv s =
     (if length argv \<le> 1 then ubind (cat 0 (replicate 512 0) s) (\<lambda>_ s. uexit s)
      else cat_files (tl argv) (replicate 512 0) s)"

subsection \<open>\<^verbatim>\<open>wc.c\<close>\<close>

record wcount =
  lns :: uint
  wrds :: uint
  chs :: uint
  inword :: bool

definition wc_char :: "uchar \<Rightarrow> wcount \<Rightarrow> wcount" where
  "wc_char ch k =
     (let k = k\<lparr>chs := chs k + 1\<rparr>; k = (if ch = 10 then k\<lparr>lns := lns k + 1\<rparr> else k)
      in if strchr [32, 13, 9, 10, 11] ch \<noteq> None then k\<lparr>inword := False\<rparr>
         else if \<not> inword k then k\<lparr>wrds := wrds k + 1, inword := True\<rparr> else k)"

function wc_loop :: "int \<Rightarrow> wcount \<Rightarrow> uchar list \<Rightarrow> usr \<Rightarrow> (int \<times> wcount \<times> uchar list) uout" where
  "wc_loop fd k buf s =
     ubind (sys (URead fd 512) s) (\<lambda>r s.
     let buf = fill buf r
     in if rv r > 0 then wc_loop fd (fold wc_char (take (nat (rv r)) buf) k) buf s else URet (rv r, k, buf) s)"
  by pat_completeness auto
termination by (relation "measure (\<lambda>(fd, k, buf, s). length (replies s))") (auto dest!: sys_shorter)

declare wc_loop.simps [simp del]

definition wc :: "int \<Rightarrow> uchar list \<Rightarrow> uchar list \<Rightarrow> usr \<Rightarrow> uchar list uout" where
  "wc fd name buf s =
     ubind (wc_loop fd \<lparr>lns = 0, wrds = 0, chs = 0, inword = False\<rparr> buf s) (\<lambda>x s.
     let k = fst (snd x)
     in if fst x < 0 then die 1 ''wc: read error'' [] s
        else ubind (printf 1 (msg ''%d %d %d %s'') [Num (lns k), Num (wrds k), Num (chs k), Ptr name] s) (\<lambda>_ s. URet (snd (snd x)) s))"

primrec wc_files :: "uchar list list \<Rightarrow> uchar list \<Rightarrow> usr \<Rightarrow> unit uout" where
  "wc_files [] buf s = uexit s"
| "wc_files (f # fs) buf s =
     ubind (sys (UOpen f 0) s) (\<lambda>fd s.
     if rv fd < 0 then die 1 ''wc: cannot open %s'' [Ptr f] s
     else ubind (wc (rv fd) f buf s) (\<lambda>buf s. ubind (sys (UClose (rv fd)) s) (\<lambda>_ s. wc_files fs buf s)))"

definition wc_main :: "uchar list list \<Rightarrow> usr \<Rightarrow> unit uout" where
  "wc_main argv s =
     (if length argv \<le> 1 then ubind (wc 0 [] (replicate 512 0) s) (\<lambda>_ s. uexit s)
      else wc_files (tl argv) (replicate 512 0) s)"

subsection \<open>\<^verbatim>\<open>echo.c\<close>\<close>

fun echo_args :: "uchar list list \<Rightarrow> usr \<Rightarrow> unit uout" where
  "echo_args [] s = URet () s"
| "echo_args [a] s = printf 1 (ascii ''%s%s'') [Ptr a, Ptr [10]] s"
| "echo_args (a # b # as) s = ubind (printf 1 (ascii ''%s%s'') [Ptr a, Ptr [32]] s) (\<lambda>_ s. echo_args (b # as) s)"

definition echo_main :: "uchar list list \<Rightarrow> usr \<Rightarrow> unit uout" where
  "echo_main argv s = ubind (echo_args (tl argv) s) (\<lambda>_ s. uexit s)"

subsection \<open>\<^verbatim>\<open>ls.c\<close>\<close>

text \<open>\<^verbatim>\<open>fmtname\<close>: the part of the path after the last slash, padded with blanks.\<close>

definition after_slash :: "uchar list \<Rightarrow> uchar list" where
  "after_slash path = rev (takeWhile (\<lambda>c. c \<noteq> 47) (rev path))"

definition fmtname :: "uchar list \<Rightarrow> uchar list" where
  "fmtname path =
     (let p = after_slash path
      in if length p \<ge> DIRSIZ then p else p @ replicate (DIRSIZ - length p) 32)"

text \<open>The fields of the bytes of \<^verbatim>\<open>struct stat\<close> that \<^verbatim>\<open>ls\<close> reads.\<close>

definition bytes_at :: "uchar list \<Rightarrow> carray" where
  "bytes_at b i = (if i < length b then b ! i else 0)"

definition st_type :: "uchar list \<Rightarrow> ushort" where "st_type st = ld16 (bytes_at st) 0"
definition st_ino :: "uchar list \<Rightarrow> uint" where "st_ino st = ld32 (bytes_at st) 8"
definition st_size :: "uchar list \<Rightarrow> uint" where "st_size st = ld32 (bytes_at st) 16"

definition ls_line :: "uchar list \<Rightarrow> uchar list \<Rightarrow> usr \<Rightarrow> unit uout" where
  "ls_line name st s = printf 1 (msg ''%s %d %d %d'') [Ptr (fmtname name), Num (scast (st_type st)), Num (st_ino st), Num (st_size st)] s"

lemma ustat_replies: "ustat n s = URet x s' \<Longrightarrow> length (replies s') \<le> length (replies s)"
proof -
  assume a: "ustat n s = URet x s'"
  obtain fd t where t: "sys (UOpen n 0) s = URet fd t" using a by (cases "sys (UOpen n 0) s") (simp_all add: ustat_def)
  show ?thesis
  proof (cases "rv fd < 0")
    case True
    then show ?thesis using a t sys_shorter [OF t] by (simp add: ustat_def)
  next
    case False
    obtain q u v where u: "sys (UFstat (rv fd)) t = URet q u" "sys (UClose (rv fd)) u = URet v s'"
      using a t False by (auto simp: ustat_def ubind_URet)
    show ?thesis using sys_shorter [OF t] sys_shorter [OF u(1)] sys_shorter [OF u(2)] by simp
  qed
qed

text \<open>The loop over the entries of a directory: \<open>de\<close> and \<open>st\<close> are the bytes of the local structures.\<close>

function ls_entries :: "int \<Rightarrow> uchar list \<Rightarrow> uchar list \<Rightarrow> uchar list \<Rightarrow> usr \<Rightarrow> unit uout" where
  "ls_entries fd path de st s =
     ubind (sys (URead fd sizeof_dirent) s) (\<lambda>r s.
     if rv r \<noteq> int sizeof_dirent then URet () s
     else let de = fill de r
          in if ld16 (bytes_at de) 0 = (0 :: ushort) then ls_entries fd path de st s
             else let buf = path @ 47 # takeWhile (\<lambda>c. c \<noteq> 0) (take DIRSIZ (drop 2 de))
                  in ubind (ustat buf s) (\<lambda>q s.
                     let st = fill st q
                     in if rv q < 0 then ubind (printf 1 (msg ''ls: cannot stat %s'') [Ptr buf] s) (\<lambda>_ s. ls_entries fd path de st s)
                        else ubind (ls_line buf st s) (\<lambda>_ s. ls_entries fd path de st s)))"
  by pat_completeness auto
termination
  by (relation "measure (\<lambda>(fd, path, de, st, s). length (replies s))")
    (auto simp: ls_line_def dest!: sys_shorter ustat_replies printf_replies)

declare ls_entries.simps [simp del]

definition ls :: "uchar list \<Rightarrow> usr \<Rightarrow> unit uout" where
  "ls path s =
     ubind (sys (UOpen path 0) s) (\<lambda>fd s.
     if rv fd < 0 then printf 2 (msg ''ls: cannot open %s'') [Ptr path] s
     else ubind (sys (UFstat (rv fd)) s) (\<lambda>q s.
          if rv q < 0
          then ubind (printf 2 (msg ''ls: cannot stat %s'') [Ptr path] s) (\<lambda>_ s. ubind (sys (UClose (rv fd)) s) (\<lambda>_ s. URet () s))
          else let st = fill (replicate 20 0) q
               in ubind (if st_type st = T_FILE then ls_line path st s
                         else if st_type st = T_DIR
                         then if length path + 1 + DIRSIZ + 1 > 512 then printf 1 (msg ''ls: path too long'') [] s
                              else ls_entries (rv fd) path (replicate sizeof_dirent 0) st s
                         else URet () s) (\<lambda>_ s.
                  ubind (sys (UClose (rv fd)) s) (\<lambda>_ s. URet () s))))"

primrec ls_all :: "uchar list list \<Rightarrow> usr \<Rightarrow> unit uout" where
  "ls_all [] s = uexit s"
| "ls_all (p # ps) s = ubind (ls p s) (\<lambda>_ s. ls_all ps s)"

definition ls_main :: "uchar list list \<Rightarrow> usr \<Rightarrow> unit uout" where
  "ls_main argv s = (if length argv < 2 then ubind (ls (ascii ''.'') s) (\<lambda>_ s. uexit s) else ls_all (tl argv) s)"

subsection \<open>\<^verbatim>\<open>kill.c\<close>, \<^verbatim>\<open>ln.c\<close>, \<^verbatim>\<open>mkdir.c\<close>, \<^verbatim>\<open>rm.c\<close>\<close>

primrec kill_all :: "uchar list list \<Rightarrow> usr \<Rightarrow> unit uout" where
  "kill_all [] s = uexit s"
| "kill_all (a # as) s = ubind (sys (UKill (sint (atoi a))) s) (\<lambda>_ s. kill_all as s)"

definition kill_main :: "uchar list list \<Rightarrow> usr \<Rightarrow> unit uout" where
  "kill_main argv s = (if length argv < 2 then die 2 ''usage: kill pid...'' [] s else kill_all (tl argv) s)"

definition ln_main :: "uchar list list \<Rightarrow> usr \<Rightarrow> unit uout" where
  "ln_main argv s =
     (if length argv \<noteq> 3 then die 2 ''Usage: ln old new'' [] s
      else ubind (sys (ULink (argv ! 1) (argv ! 2)) s) (\<lambda>r s.
           if rv r < 0 then die 2 ''link %s %s: failed'' [Ptr (argv ! 1), Ptr (argv ! 2)] s else uexit s))"

primrec mkdir_all :: "uchar list list \<Rightarrow> usr \<Rightarrow> unit uout" where
  "mkdir_all [] s = uexit s"
| "mkdir_all (a # as) s =
     ubind (sys (UMkdir a) s) (\<lambda>r s. if rv r < 0 then die 2 ''mkdir: %s failed to create'' [Ptr a] s else mkdir_all as s)"

definition mkdir_main :: "uchar list list \<Rightarrow> usr \<Rightarrow> unit uout" where
  "mkdir_main argv s = (if length argv < 2 then die 2 ''Usage: mkdir files...'' [] s else mkdir_all (tl argv) s)"

primrec rm_all :: "uchar list list \<Rightarrow> usr \<Rightarrow> unit uout" where
  "rm_all [] s = uexit s"
| "rm_all (a # as) s =
     ubind (sys (UUnlink a) s) (\<lambda>r s. if rv r < 0 then die 2 ''rm: %s failed to delete'' [Ptr a] s else rm_all as s)"

definition rm_main :: "uchar list list \<Rightarrow> usr \<Rightarrow> unit uout" where
  "rm_main argv s = (if length argv < 2 then die 2 ''Usage: rm files...'' [] s else rm_all (tl argv) s)"

subsection \<open>\<^verbatim>\<open>init.c\<close>\<close>

text \<open>The process runs on with the value \<^verbatim>\<open>fork\<close> returned to it: 0 in the child.\<close>

function init_wait :: "int \<Rightarrow> usr \<Rightarrow> unit uout" where
  "init_wait pid s =
     ubind (sys UWait s) (\<lambda>r s.
     if rv r \<ge> 0 \<and> rv r \<noteq> pid then ubind (printf 1 (msg ''zombie!'') [] s) (\<lambda>_ s. init_wait pid s) else URet () s)"
  by pat_completeness auto
termination
  by (relation "measure (\<lambda>(pid, s). length (replies s))") (auto dest!: sys_shorter printf_replies)

declare init_wait.simps [simp del]

lemma init_wait_replies: "init_wait pid s = URet () s' \<Longrightarrow> length (replies s') \<le> length (replies s)"
proof (induction pid s rule: init_wait.induct)
  case (1 pid s)
  obtain r t where t: "sys UWait s = URet r t"
    "(if rv r \<ge> 0 \<and> rv r \<noteq> pid then ubind (printf 1 (msg ''zombie!'') [] t) (\<lambda>_ s. init_wait pid s) else URet () t) = URet () s'"
    using 1(2) by (subst (asm) init_wait.simps) (auto simp: ubind_URet)
  show ?case
  proof (cases "rv r \<ge> 0 \<and> rv r \<noteq> pid")
    case True
    then obtain u where u: "printf 1 (msg ''zombie!'') [] t = URet () u" "init_wait pid u = URet () s'" using t(2) by (auto simp: ubind_URet)
    show ?thesis using 1(1) [OF t(1) True u(1) u(2)] printf_replies [OF u(1)] sys_shorter [OF t(1)] by simp
  next
    case False
    then show ?thesis using t sys_shorter [OF t(1)] by auto
  qed
qed

function init_loop :: "usr \<Rightarrow> unit uout" where
  "init_loop s =
     ubind (printf 1 (msg ''init: starting sh'') [] s) (\<lambda>_ s.
     ubind (sys UFork s) (\<lambda>pid s.
     if rv pid < 0 then die 1 ''init: fork failed'' [] s
     else if rv pid = 0
     then ubind (sys (UExec (ascii ''sh'') [ascii ''sh'']) s) (\<lambda>_ s. die 1 ''init: exec sh failed'' [] s)
     else ubind (init_wait (rv pid) s) (\<lambda>_ s. init_loop s)))"
  by pat_completeness auto
termination
  by (relation "measure (\<lambda>s. length (replies s))") (auto dest!: sys_shorter printf_replies init_wait_replies)

declare init_loop.simps [simp del]

definition init_main :: "usr \<Rightarrow> unit uout" where
  "init_main s =
     ubind (sys (UOpen (ascii ''console'') 2) s) (\<lambda>r s.
     ubind (if rv r < 0
            then ubind (sys (UMknod (ascii ''console'') 1 1) s) (\<lambda>_ s. ubind (sys (UOpen (ascii ''console'') 2) s) (\<lambda>_ s. URet () s))
            else URet () s) (\<lambda>_ s.
     ubind (sys (UDup 0) s) (\<lambda>_ s.
     ubind (sys (UDup 0) s) (\<lambda>_ s. init_loop s))))"

subsection \<open>\<^verbatim>\<open>zombie.c\<close>, \<^verbatim>\<open>stressfs.c\<close>, \<^verbatim>\<open>forktest.c\<close>, \<^verbatim>\<open>swaptest.c\<close>\<close>

definition zombie_main :: "usr \<Rightarrow> unit uout" where
  "zombie_main s = ubind (sys UFork s) (\<lambda>r s. if rv r > 0 then ubind (sys (USleep 5) s) (\<lambda>_ s. uexit s) else uexit s)"

text \<open>A call repeated \<open>n\<close> times whose results are ignored.\<close>

primrec repeat_call :: "nat \<Rightarrow> ucall \<Rightarrow> usr \<Rightarrow> unit uout" where
  "repeat_call 0 c s = URet () s"
| "repeat_call (Suc n) c s = ubind (sys c s) (\<lambda>_ s. repeat_call n c s)"

text \<open>The loop \<^verbatim>\<open>for(i = 0; i < 4; i++) if(fork() > 0) break;\<close> with \<open>n\<close> rounds left returns \<^verbatim>\<open>i\<close>.\<close>

primrec stress_forks :: "nat \<Rightarrow> nat \<Rightarrow> usr \<Rightarrow> nat uout" where
  "stress_forks 0 i s = URet i s"
| "stress_forks (Suc n) i s = ubind (sys UFork s) (\<lambda>r s. if rv r > 0 then URet i s else stress_forks n (Suc i) s)"

definition stressfs_main :: "usr \<Rightarrow> unit uout" where
  "stressfs_main s =
     ubind (printf 1 (msg ''stressfs starting'') [] s) (\<lambda>_ s.
     ubind (stress_forks 4 0 s) (\<lambda>i s.
     ubind (printf 1 (msg ''write %d'') [Num (of_nat i)] s) (\<lambda>_ s.
     let path = ascii ''stressfs'' @ [48 + of_nat i]
     in ubind (sys (UOpen path 0x202) s) (\<lambda>fd s.
        ubind (repeat_call 20 (UWrite (rv fd) (replicate 512 97)) s) (\<lambda>_ s.
        ubind (sys (UClose (rv fd)) s) (\<lambda>_ s.
        ubind (printf 1 (msg ''read'') [] s) (\<lambda>_ s.
        ubind (sys (UOpen path 0) s) (\<lambda>fd s.
        ubind (repeat_call 20 (URead (rv fd) 512) s) (\<lambda>_ s.
        ubind (sys (UClose (rv fd)) s) (\<lambda>_ s.
        ubind (sys UWait s) (\<lambda>_ s. uexit s)))))))))))"

text \<open>\<^verbatim>\<open>forktest\<close> has its own \<^verbatim>\<open>printf\<close>, which writes the format string.\<close>

definition ft_printf :: "int \<Rightarrow> string \<Rightarrow> usr \<Rightarrow> unit uout" where
  "ft_printf fd m s = ubind (sys (UWrite fd (msg m)) s) (\<lambda>_ s. URet () s)"

text \<open>The first loop with \<open>k\<close> of its \<^verbatim>\<open>N\<close> rounds left; the child exits.\<close>

primrec ft_forks :: "nat \<Rightarrow> nat \<Rightarrow> usr \<Rightarrow> nat uout" where
  "ft_forks 0 n s = URet n s"
| "ft_forks (Suc k) n s =
     ubind (sys UFork s) (\<lambda>pid s. if rv pid < 0 then URet n s else if rv pid = 0 then uexit s else ft_forks k (Suc n) s)"

primrec ft_waits :: "nat \<Rightarrow> usr \<Rightarrow> unit uout" where
  "ft_waits 0 s = URet () s"
| "ft_waits (Suc n) s =
     ubind (sys UWait s) (\<lambda>r s. if rv r < 0 then ubind (ft_printf 1 ''wait stopped early'' s) (\<lambda>_ s. uexit s) else ft_waits n s)"

definition forktest :: "usr \<Rightarrow> unit uout" where
  "forktest s =
     ubind (ft_printf 1 ''fork test'' s) (\<lambda>_ s.
     ubind (ft_forks 1000 0 s) (\<lambda>n s.
     if n = 1000 then ubind (ft_printf 1 ''fork claimed to work N times!'' s) (\<lambda>_ s. uexit s)
     else ubind (ft_waits n s) (\<lambda>_ s.
          ubind (sys UWait s) (\<lambda>r s.
          if rv r \<noteq> -1 then ubind (ft_printf 1 ''wait got too many'' s) (\<lambda>_ s. uexit s)
          else ft_printf 1 ''fork test OK'' s))))"

definition forktest_main :: "usr \<Rightarrow> unit uout" where
  "forktest_main s = ubind (forktest s) (\<lambda>_ s. uexit s)"

primrec report_diffs :: "nat list \<Rightarrow> uchar list \<Rightarrow> uchar list \<Rightarrow> usr \<Rightarrow> unit uout" where
  "report_diffs [] b1 b2 s = URet () s"
| "report_diffs (i # is) b1 b2 s =
     ubind (if b1 ! i \<noteq> b2 ! i then printf 1 (msg ''different at %d'') [Num (of_nat i)] s else URet () s) (\<lambda>_ s. report_diffs is b1 b2 s)"

definition swaptest_main :: "uchar list list \<Rightarrow> usr \<Rightarrow> unit uout" where
  "swaptest_main argv s =
     (if length argv < 2 then die 1 ''Usage: %s blkno'' [Ptr (argv ! 0)] s
      else let blkno = sint (atoi (argv ! 1)); b1 = replicate 4096 49
           in ubind (sys (USwapwrite b1 blkno) s) (\<lambda>_ s.
              ubind (sys (USwapread blkno) s) (\<lambda>r s.
              ubind (report_diffs [0..<4096] b1 (fill (replicate 4096 0) r) s) (\<lambda>_ s. uexit s))))"

section \<open>Properties\<close>

definition reads :: "uchar list \<Rightarrow> reply" where
  "reads c = \<lparr>rv = int (length c), rdata = c\<rparr>"

definition chunk_ok :: "uchar list \<Rightarrow> bool" where
  "chunk_ok c \<longleftrightarrow> 0 < length c \<and> length c \<le> 512"

lemma fill_reads: "length c \<le> length buf \<Longrightarrow> fill buf (reads c) = c @ drop (length c) buf"
  by (simp add: fill_def reads_def)

lemma reads_sel [simp]: "rv (reads c) = int (length c)" "rdata (reads c) = c"
  by (simp_all add: reads_def)

lemma cat_loop_run:
  assumes "\<forall>c \<in> set cs. chunk_ok c" and "length buf = 512" and "rv e \<le> 0"
  shows "\<exists>buf'. cat_loop fd buf (script (concat (map (\<lambda>c. [reads c, \<lparr>rv = int (length c), rdata = []\<rparr>]) cs) @ e # rs) tr) =
    URet (rv e, buf') (script rs (tr @ concat (map (\<lambda>c. [URead fd 512, UWrite 1 c]) cs) @ [URead fd 512]))"
  using assms
proof (induction cs arbitrary: buf tr)
  case Nil
  then show ?case by (subst cat_loop.simps) simp
next
  case (Cons c cs)
  have c: "chunk_ok c" and l: "length (c @ drop (length c) buf) = 512" using Cons.prems by (simp_all add: chunk_ok_def)
  then have f: "fill buf (reads c) = c @ drop (length c) buf" using Cons.prems(2) by (simp add: fill_reads chunk_ok_def)
  obtain buf' where "cat_loop fd (c @ drop (length c) buf) (script (concat (map (\<lambda>c. [reads c, \<lparr>rv = int (length c), rdata = []\<rparr>]) cs) @ e # rs) (tr @ [URead fd 512, UWrite 1 c])) =
    URet (rv e, buf') (script rs ((tr @ [URead fd 512, UWrite 1 c]) @ concat (map (\<lambda>c. [URead fd 512, UWrite 1 c]) cs) @ [URead fd 512]))"
    using Cons.IH [OF _ l, of "tr @ [URead fd 512, UWrite 1 c]"] Cons.prems(1,3) by auto
  then show ?case using c by (subst cat_loop.simps) (simp add: f chunk_ok_def Let_def)
qed

definition written :: "int \<Rightarrow> ucall list \<Rightarrow> uchar list" where
  "written d tr = concat (map (\<lambda>c. case c of UWrite e bs \<Rightarrow> if e = d then bs else [] | _ \<Rightarrow> []) tr)"

lemma written_append [simp]: "written d (xs @ ys) = written d xs @ written d ys" "written d [] = []"
  by (simp_all add: written_def)

lemma written_puts: "written d (puts_calls d cs) = cs"
  by (induction cs) (simp_all add: written_def puts_calls_def)

text \<open>
  \<^bold>\<open>\<^verbatim>\<open>cat\<close> copies\<close> (C29).  If the kernel delivers a file in chunks of at most 512 bytes and accepts every write, \<^verbatim>\<open>cat\<close> has written the bytes
  of the file, in order, when the file ends; then it returns, or it reports an error and exits if the last read failed.
\<close>

theorem cat_copies:
  assumes "\<forall>c \<in> set cs. chunk_ok c" and "length buf = 512" and "rv e \<le> 0"
  shows "\<exists>buf' tr. cat fd buf (script (concat (map (\<lambda>c. [reads c, \<lparr>rv = int (length c), rdata = []\<rparr>]) cs) @ e # rs) []) =
      (if rv e < 0 then die 1 ''cat: read error'' [] (script rs tr) else URet buf' (script rs tr)) \<and>
    written 1 tr = concat cs"
proof -
  let ?tr = "concat (map (\<lambda>c. [URead fd 512, UWrite 1 c]) cs) @ [URead fd 512]"
  obtain buf' where "cat_loop fd buf (script (concat (map (\<lambda>c. [reads c, \<lparr>rv = int (length c), rdata = []\<rparr>]) cs) @ e # rs) []) =
      URet (rv e, buf') (script rs ?tr)"
    using cat_loop_run [OF assms, of fd rs "[]"] by auto
  moreover have "written 1 ?tr = concat cs" by (induction cs) (simp_all add: written_def)
  ultimately show ?thesis by (intro exI [of _ buf'] exI [of _ ?tr]) (simp add: cat_def)
qed

theorem cat_copies_witness:
  "\<exists>buf' tr. cat 3 (replicate 512 0) (script [reads [104, 105], \<lparr>rv = 2, rdata = []\<rparr>, reads [10], \<lparr>rv = 1, rdata = []\<rparr>, reads []] []) = URet buf' (script [] tr) \<and>
     written 1 tr = [104, 105, 10]"
  using cat_copies [of "[[104, 105], [10]]" "replicate 512 0" "reads []" 3 "[]"] by (simp add: chunk_ok_def reads_def)

definition blank :: "uchar \<Rightarrow> bool" where
  "blank c \<longleftrightarrow> c \<in> {32, 13, 9, 10, 11}"

text \<open>The words of a text are counted by their first characters.\<close>

definition starts_word :: "uchar list \<Rightarrow> nat \<Rightarrow> bool" where
  "starts_word t i \<longleftrightarrow> \<not> blank (t ! i) \<and> (i = 0 \<or> blank (t ! (i - 1)))"

definition word_count :: "uchar list \<Rightarrow> nat" where
  "word_count t = length (filter (starts_word t) [0..<length t])"

definition wc_of :: "uchar list \<Rightarrow> wcount" where
  "wc_of t = \<lparr>lns = of_nat (length (filter (\<lambda>c. c = 10) t)), wrds = of_nat (word_count t), chs = of_nat (length t),
     inword = (t \<noteq> [] \<and> \<not> blank (last t))\<rparr>"

lemma word_count_snoc: "word_count (t @ [c]) = word_count t + (if \<not> blank c \<and> (t = [] \<or> blank (last t)) then 1 else 0)"
proof -
  have "filter (starts_word (t @ [c])) [0..<length t] = filter (starts_word t) [0..<length t]"
    by (rule filter_cong) (auto simp: starts_word_def nth_append)
  moreover have "starts_word (t @ [c]) (length t) \<longleftrightarrow> \<not> blank c \<and> (t = [] \<or> blank (last t))"
    by (cases "t = []") (auto simp: starts_word_def nth_append last_conv_nth)
  ultimately show ?thesis by (simp add: word_count_def)
qed

lemma strchr_blank: "strchr [32, 13, 9, 10, 11] ch \<noteq> None \<longleftrightarrow> blank ch"
  by (auto simp: blank_def)

lemma wc_of_snoc: "wc_char c (wc_of t) = wc_of (t @ [c])"
  unfolding wc_char_def strchr_blank Let_def by (auto simp: wc_of_def word_count_snoc blank_def)

lemma wc_of_append: "fold wc_char u (wc_of t) = wc_of (t @ u)"
  by (induction u arbitrary: t) (simp_all add: wc_of_snoc)

lemma wc_loop_run:
  assumes "\<forall>c \<in> set cs. chunk_ok c" and "length buf = 512" and "rv e \<le> 0"
  shows "\<exists>buf'. wc_loop fd (wc_of t) buf (script (map reads cs @ e # rs) tr) =
    URet (rv e, wc_of (t @ concat cs), buf') (script rs (tr @ replicate (Suc (length cs)) (URead fd 512)))"
  using assms
proof (induction cs arbitrary: t buf tr)
  case Nil
  then show ?case by (subst wc_loop.simps) simp
next
  case (Cons c cs)
  have c: "chunk_ok c" and l: "length (c @ drop (length c) buf) = 512" using Cons.prems by (simp_all add: chunk_ok_def)
  then have f: "fill buf (reads c) = c @ drop (length c) buf" using Cons.prems(2) by (simp add: fill_reads chunk_ok_def)
  obtain buf' where "wc_loop fd (wc_of (t @ c)) (c @ drop (length c) buf) (script (map reads cs @ e # rs) (tr @ [URead fd 512])) =
    URet (rv e, wc_of ((t @ c) @ concat cs), buf') (script rs ((tr @ [URead fd 512]) @ replicate (Suc (length cs)) (URead fd 512)))"
    using Cons.IH [OF _ l, of "t @ c" "tr @ [URead fd 512]"] Cons.prems(1,3) by auto
  then show ?case using c by (subst wc_loop.simps) (simp add: f chunk_ok_def Let_def wc_of_append)
qed

text \<open>
  \<^bold>\<open>\<^verbatim>\<open>wc\<close> counts\<close> (C30).  However the kernel cuts a file into chunks, \<^verbatim>\<open>wc\<close> prints the number of its newlines, of its
  words, which are the maximal runs of characters that are not blank, and of its bytes, as 32-bit numbers, and then the name.
\<close>

theorem wc_counts:
  assumes "\<forall>c \<in> set cs. chunk_ok c" and "length buf = 512" and "37 + length name \<le> length rs"
  shows "\<exists>buf' rs' tr. wc fd name buf (script (map reads cs @ reads [] # rs) []) = URet buf' (script rs' tr) \<and>
    written 1 tr = uint_chars (of_nat (length (filter (\<lambda>c. c = 10) (concat cs)))) 10 True @ [32] @
      uint_chars (of_nat (word_count (concat cs))) 10 True @ [32] @ uint_chars (of_nat (length (concat cs))) 10 True @ [32] @ name @ [10]"
proof -
  let ?t = "concat cs" and ?tr = "replicate (Suc (length cs)) (URead fd 512)"
  let ?out = "uint_chars (lns (wc_of ?t)) 10 True @ [32] @ uint_chars (wrds (wc_of ?t)) 10 True @ [32] @ uint_chars (chs (wc_of ?t)) 10 True @ [32] @ name @ [10]"
  have start: "wc_of [] = \<lparr>lns = 0, wrds = 0, chs = 0, inword = False\<rparr>" by (simp add: wc_of_def word_count_def)
  obtain buf' where loop: "wc_loop fd (wc_of []) buf (script (map reads cs @ reads [] # rs) []) = URet (0, wc_of ?t, buf') (script rs ?tr)"
    using wc_loop_run [OF assms(1,2), of "reads []" fd "[]" rs "[]"] by auto
  have "fmt_chars False (msg ''%d %d %d %s'') [Num (lns (wc_of ?t)), Num (wrds (wc_of ?t)), Num (chs (wc_of ?t)), Ptr name] = Some ?out"
    by (simp add: msg_def ascii_def)
  then have pf: "printf 1 (msg ''%d %d %d %s'') [Num (lns (wc_of ?t)), Num (wrds (wc_of ?t)), Num (chs (wc_of ?t)), Ptr name] (script rs ?tr) =
      putcs 1 ?out (script rs ?tr)"
    unfolding printf_def by (rule printf_loop_putcs)
  have len: "length (uint_chars x 10 True) \<le> 11" for x
    using udigits_length [of 10 "unat x" 9] udigits_length [of 10 "unat (- x)" 9] unat_uint_less [of x] unat_uint_less [of "- x"]
    by (simp add: uint_chars_def printint_chars_def Let_def)
  have "length ?out \<le> length rs" using len [of "lns (wc_of ?t)"] len [of "wrds (wc_of ?t)"] len [of "chs (wc_of ?t)"] assms(3) by simp
  from putcs_script [OF this, of 1 ?tr]
  have "wc fd name buf (script (map reads cs @ reads [] # rs) []) = URet buf' (script (drop (length ?out) rs) (?tr @ puts_calls 1 ?out))"
    using loop pf unfolding wc_def start [symmetric] by (simp add: Let_def)
  moreover have "written 1 ?tr = []" by (simp add: written_def)
  then have "written 1 (?tr @ puts_calls 1 ?out) = ?out" by (simp only: written_append written_puts) simp
  ultimately show ?thesis by (auto simp: wc_of_def)
qed

theorem wc_counts_witness:
  "\<exists>buf' rs' tr. wc 3 [102] (replicate 512 0) (script (map reads [[104, 105, 32], [104, 111], [10]] @ reads [] # replicate 40 (reads [])) []) =
     URet buf' (script rs' tr) \<and> written 1 tr = uint_chars 1 10 True @ [32] @ uint_chars 2 10 True @ [32] @ uint_chars 6 10 True @ [32, 102, 10]"
proof -
  have "word_count [104, 105, 32, 104, 111, 10] = 2" by (simp add: word_count_def starts_word_def blank_def upt_rec)
  then show ?thesis
    using wc_counts [of "[[104, 105, 32], [104, 111], [10]]" "replicate 512 0" "[102]" "replicate 40 (reads [])" 3]
    by (simp add: chunk_ok_def)
qed

end
