(* ===== verification/Grep.thy ===== *)
theory Grep
  imports User
begin

text \<open>
  \<^verbatim>\<open>grep.c\<close>: the regular expression matcher, against a declarative meaning of patterns, and the loop that
  reads a file into a buffer and prints the lines that match.
\<close>

section \<open>Definitions\<close>

text \<open>A pattern and a text are strings; \<^verbatim>\<open>^\<close>, \<^verbatim>\<open>$\<close>, \<^verbatim>\<open>*\<close> and \<^verbatim>\<open>.\<close> are the characters 94, 36, 42 and 46.\<close>

fun matchhere :: "uchar list \<Rightarrow> uchar list \<Rightarrow> bool"
  and matchstar :: "uchar \<Rightarrow> uchar list \<Rightarrow> uchar list \<Rightarrow> bool" where
  "matchhere [] tx = True"
| "matchhere [r] tx =
     (if r = 36 then tx = []
      else case tx of [] \<Rightarrow> False | t # ts \<Rightarrow> (r = 46 \<or> r = t) \<and> matchhere [] ts)"
| "matchhere (r # r1 # re) tx =
     (if r1 = 42 then matchstar r re tx
      else case tx of [] \<Rightarrow> False | t # ts \<Rightarrow> (r = 46 \<or> r = t) \<and> matchhere (r1 # re) ts)"
| "matchstar c re tx =
     (matchhere re tx \<or> (case tx of [] \<Rightarrow> False | t # ts \<Rightarrow> (t = c \<or> c = 46) \<and> matchstar c re ts))"

fun match_from :: "uchar list \<Rightarrow> uchar list \<Rightarrow> bool" where
  "match_from re tx = (matchhere re tx \<or> (case tx of [] \<Rightarrow> False | t # ts \<Rightarrow> match_from re ts))"

declare matchstar.simps [simp del] match_from.simps [simp del]

definition match :: "uchar list \<Rightarrow> uchar list \<Rightarrow> bool" where
  "match re tx = (case re of [] \<Rightarrow> match_from re tx | r # re' \<Rightarrow> if r = 94 then matchhere re' tx else match_from re tx)"

text \<open>The string at an address of the buffer.\<close>

definition cstr_at :: "uchar list \<Rightarrow> nat \<Rightarrow> uchar list" where
  "cstr_at buf p = takeWhile (\<lambda>c. c \<noteq> 0) (drop p buf)"

lemma strchr_less: "strchr s c = Some k \<Longrightarrow> k < length s"
  by (induction s arbitrary: k) (auto split: if_splits)

lemma cstr_at_less: "strchr (cstr_at buf p) c = Some k \<Longrightarrow> p + k < length buf"
  using strchr_less [of "cstr_at buf p" c k] length_takeWhile_le [of "\<lambda>c. c \<noteq> 0" "drop p buf"] by (simp add: cstr_at_def)

function grep_lines :: "uchar list \<Rightarrow> nat \<Rightarrow> uchar list \<Rightarrow> usr \<Rightarrow> (nat \<times> uchar list) uout" where
  "grep_lines pattern p buf s =
     (case strchr (cstr_at buf p) 10 of
        None \<Rightarrow> URet (p, buf) s
      | Some k \<Rightarrow>
          let q = p + k; buf = buf[q := 0]
          in if match pattern (cstr_at buf p)
             then let buf = buf[q := 10]
                  in ubind (sys (UWrite 1 (take (q + 1 - p) (drop p buf))) s) (\<lambda>_ s. grep_lines pattern (q + 1) buf s)
             else grep_lines pattern (q + 1) buf s)"
  by pat_completeness auto
termination
  by (relation "measure (\<lambda>(pattern, p, buf, s). length buf - p)") (auto dest: cstr_at_less)

declare grep_lines.simps [simp del]

lemma grep_lines_replies: "grep_lines pattern p buf s = URet x s' \<Longrightarrow> length (replies s') \<le> length (replies s)"
proof (induction pattern p buf s rule: grep_lines.induct)
  case (1 pattern p buf s)
  show ?case
  proof (cases "strchr (cstr_at buf p) 10")
    case None
    then show ?thesis using 1(3) by (subst (asm) grep_lines.simps) simp
  next
    case (Some k)
    then show ?thesis using 1(1,2) [OF Some refl refl] 1(3)
      by (subst (asm) (3) grep_lines.simps) (fastforce simp: ubind_URet Let_def dest: sys_shorter split: if_splits)
  qed
qed

function grep_loop :: "uchar list \<Rightarrow> int \<Rightarrow> uchar list \<Rightarrow> nat \<Rightarrow> usr \<Rightarrow> uchar list uout" where
  "grep_loop pattern fd buf m s =
     ubind (sys (URead fd (length buf - m - 1)) s) (\<lambda>r s.
     if rv r > 0
     then let buf = take m buf @ fill (drop m buf) r; m = m + nat (rv r)
          in ubind (grep_lines pattern 0 (buf[m := 0]) s) (\<lambda>x s.
             let p = fst x; buf = snd x; m = (if p = 0 then 0 else m)
             in if m > 0 then grep_loop pattern fd (take (m - p) (drop p buf) @ drop (m - p) buf) (m - p) s
                else grep_loop pattern fd buf m s)
     else URet buf s)"
  by pat_completeness auto
termination
  by (relation "measure (\<lambda>(pattern, fd, buf, m, s). length (replies s))")
    (fastforce dest: sys_shorter grep_lines_replies)+

declare grep_loop.simps [simp del]

text \<open>The buffer is an array of 1024 bytes, initially 0; it keeps its contents from one file to the next.\<close>

definition grep :: "uchar list \<Rightarrow> int \<Rightarrow> uchar list \<Rightarrow> usr \<Rightarrow> uchar list uout" where
  "grep pattern fd buf s = grep_loop pattern fd buf 0 s"

primrec grep_files :: "uchar list \<Rightarrow> uchar list list \<Rightarrow> uchar list \<Rightarrow> usr \<Rightarrow> unit uout" where
  "grep_files pattern [] buf s = URet () s"
| "grep_files pattern (f # fs) buf s =
     ubind (sys (UOpen f 0) s) (\<lambda>fd s.
     if rv fd < 0 then ubind (printf 1 (msg ''grep: cannot open %s'') [Ptr f] s) (\<lambda>_ s. uexit s)
     else ubind (grep pattern (rv fd) buf s) (\<lambda>buf s.
          ubind (sys (UClose (rv fd)) s) (\<lambda>_ s. grep_files pattern fs buf s)))"

definition grep_main :: "uchar list list \<Rightarrow> usr \<Rightarrow> unit uout" where
  "grep_main argv s =
     (if length argv \<le> 1 then ubind (printf 2 (msg ''usage: grep pattern [file ...]'') [] s) (\<lambda>_ s. uexit s)
      else let pattern = argv ! 1; buf = replicate 1024 0
           in if length argv \<le> 2 then ubind (grep pattern 0 buf s) (\<lambda>_ s. uexit s)
              else ubind (grep_files pattern (drop 2 argv) buf s) (\<lambda>_ s. uexit s))"

section \<open>The meaning of a pattern\<close>

text \<open>
  A pattern is a sequence of atoms, each a character or \<^verbatim>\<open>.\<close>, possibly repeated, and may be tied to the start and the end of the
  line.  The tx matches if some part of it is in the language of the sequence.
\<close>

datatype item = One uchar | Many uchar

fun items :: "uchar list \<Rightarrow> item list \<times> bool" where
  "items [] = ([], False)"
| "items [r] = (if r = 36 then ([], True) else ([One r], False))"
| "items (r # r1 # re) = (if r1 = 42 then (Many r # fst (items re), snd (items re)) else (One r # fst (items (r1 # re)), snd (items (r1 # re))))"

definition atom :: "uchar \<Rightarrow> uchar \<Rightarrow> bool" where
  "atom r t \<longleftrightarrow> r = 46 \<or> r = t"

primrec lang :: "item list \<Rightarrow> uchar list set" where
  "lang [] = {[]}"
| "lang (i # is) =
     {xs @ ys | xs ys. ys \<in> lang is \<and> (case i of One r \<Rightarrow> (\<exists>t. xs = [t] \<and> atom r t) | Many r \<Rightarrow> \<forall>t \<in> set xs. atom r t)}"

definition tied :: "item list \<times> bool \<Rightarrow> uchar list \<Rightarrow> bool" where
  "tied p tx \<longleftrightarrow> (\<exists>xs ys. tx = xs @ ys \<and> xs \<in> lang (fst p) \<and> (snd p \<longrightarrow> ys = []))"

lemma lang_One: "xs \<in> lang (One r # is) \<longleftrightarrow> (\<exists>t ys. xs = t # ys \<and> atom r t \<and> ys \<in> lang is)"
  by (auto, metis append_Cons append_Nil)

lemma lang_Many: "zs \<in> lang (Many r # is) \<longleftrightarrow> (\<exists>xs ys. zs = xs @ ys \<and> (\<forall>t \<in> set xs. atom r t) \<and> ys \<in> lang is)"
  by auto

lemma tied_iff: "tied (is, e) tx \<longleftrightarrow> (\<exists>xs ys. tx = xs @ ys \<and> xs \<in> lang is \<and> (e \<longrightarrow> ys = []))"
  by (simp add: tied_def)

lemma tied_One: "tied (One r # is, e) tx \<longleftrightarrow> (case tx of [] \<Rightarrow> False | t # ts \<Rightarrow> atom r t \<and> tied (is, e) ts)"
proof (cases tx)
  case (Cons t ts)
  have "tied (One r # is, e) (t # ts) \<longleftrightarrow> atom r t \<and> tied (is, e) ts"
  proof
    assume "tied (One r # is, e) (t # ts)"
    then obtain x xs ys where "t # ts = (x # xs) @ ys" "atom r x" "xs \<in> lang is" "e \<longrightarrow> ys = []" unfolding tied_iff lang_One by blast
    then show "atom r t \<and> tied (is, e) ts" unfolding tied_iff by auto
  next
    assume "atom r t \<and> tied (is, e) ts"
    then obtain xs ys where x: "ts = xs @ ys" "xs \<in> lang is" "e \<longrightarrow> ys = []" "atom r t" unfolding tied_iff by blast
    then have "t # xs \<in> lang (One r # is)" unfolding lang_One by blast
    moreover have "t # ts = (t # xs) @ ys" using x(1) by simp
    ultimately show "tied (One r # is, e) (t # ts)" using x(3) unfolding tied_iff by blast
  qed
  then show ?thesis by (simp add: Cons)
qed (simp add: tied_def)

lemma tied_Many: "tied (Many r # is, e) tx \<longleftrightarrow> tied (is, e) tx \<or> (case tx of [] \<Rightarrow> False | t # ts \<Rightarrow> atom r t \<and> tied (Many r # is, e) ts)"
  (is "?l \<longleftrightarrow> ?a \<or> ?b")
proof
  assume ?l
  then obtain xs ys zs where x: "tx = (xs @ ys) @ zs" "\<forall>t \<in> set xs. atom r t" "ys \<in> lang is" "e \<longrightarrow> zs = []"
    unfolding tied_iff lang_Many by blast
  show "?a \<or> ?b"
  proof (cases xs)
    case Nil
    then have "tx = ys @ zs" using x(1) by simp
    then show ?thesis using x(3,4) unfolding tied_iff by blast
  next
    case (Cons t ts)
    then have "ts @ ys \<in> lang (Many r # is)" using x(2,3) unfolding lang_Many by auto
    then have "tied (Many r # is, e) ((ts @ ys) @ zs)" using x(4) unfolding tied_iff by blast
    then show ?thesis using x Cons by simp
  qed
next
  assume "?a \<or> ?b"
  then show ?l
  proof
    assume ?a
    then obtain ys zs where y: "tx = ys @ zs" "ys \<in> lang is" "e \<longrightarrow> zs = []" unfolding tied_iff by blast
    have "ys \<in> lang (Many r # is)" using y(2) unfolding lang_Many by (intro exI [of _ "[]"] exI [of _ ys]) simp
    then show ?l using y unfolding tied_iff by blast
  next
    assume ?b
    then obtain t ts where t: "tx = t # ts" "atom r t" "tied (Many r # is, e) ts" by (cases tx) simp_all
    then obtain xs ys zs where y: "ts = (xs @ ys) @ zs" "\<forall>t \<in> set xs. atom r t" "ys \<in> lang is" "e \<longrightarrow> zs = []"
      unfolding tied_iff lang_Many by blast
    have "(t # xs) @ ys \<in> lang (Many r # is)" unfolding lang_Many by (intro exI [of _ "t # xs"] exI [of _ ys]) (use t y in simp)
    moreover have "tx = ((t # xs) @ ys) @ zs" using t(1) y(1) by simp
    ultimately show ?l using y(4) unfolding tied_iff by blast
  qed
qed

lemma tied_Nil: "tied ([], e) tx \<longleftrightarrow> (e \<longrightarrow> tx = [])"
  by (auto simp: tied_def)

lemma matchhere_tied: "matchhere re tx = tied (items re) tx"
  and matchstar_tied: "matchstar c re tx = tied (Many c # fst (items re), snd (items re)) tx"
proof (induction re tx and c re tx rule: matchhere_matchstar.induct)
  case (4 c re tx)
  then show ?case by (subst matchstar.simps, subst tied_Many) (auto simp: atom_def split: list.splits)
qed (auto simp: tied_Nil tied_One atom_def split: list.splits)

definition tied_start :: "uchar list \<Rightarrow> bool" where
  "tied_start re \<longleftrightarrow> re \<noteq> [] \<and> hd re = 94"

lemma match_from_iff: "match_from re tx \<longleftrightarrow> (\<exists>pre post. tx = pre @ post \<and> matchhere re post)"
proof (induction tx)
  case (Cons t ts)
  have "(\<exists>pre post. t # ts = pre @ post \<and> matchhere re post) \<longleftrightarrow> matchhere re (t # ts) \<or> (\<exists>pre post. ts = pre @ post \<and> matchhere re post)"
    by (auto simp: Cons_eq_append_conv)
  then show ?case using Cons by (subst match_from.simps) simp
qed (subst match_from.simps, simp)

section \<open>Lines\<close>

text \<open>The complete lines of a text, without their newlines, and the text after the last newline.\<close>

fun split_lines :: "uchar list \<Rightarrow> uchar list list \<times> uchar list" where
  "split_lines [] = ([], [])"
| "split_lines (c # cs) =
     (if c = 10 then ([] # fst (split_lines cs), snd (split_lines cs))
      else case split_lines cs of ([], rest) \<Rightarrow> ([], c # rest) | (l # ls, rest) \<Rightarrow> ((c # l) # ls, rest))"

definition matching :: "uchar list \<Rightarrow> uchar list \<Rightarrow> uchar list list" where
  "matching pattern t = filter (match pattern) (fst (split_lines t))"

definition line_writes :: "uchar list list \<Rightarrow> ucall list" where
  "line_writes ls = map (\<lambda>l. UWrite 1 (l @ [10])) ls"

lemma split_lines_line: "10 \<notin> set l \<Longrightarrow> split_lines (l @ 10 # t) = (l # fst (split_lines t), snd (split_lines t))"
  by (induction l) auto

lemma split_lines_none: "10 \<notin> set l \<Longrightarrow> split_lines l = ([], l)"
  by (induction l) auto

lemma split_lines_rest: "10 \<notin> set (snd (split_lines t))"
  by (induction t rule: split_lines.induct) (auto split: list.splits prod.splits)

lemma split_lines_append: "split_lines (t @ u) = (fst (split_lines t) @ fst (split_lines (snd (split_lines t) @ u)), snd (split_lines (snd (split_lines t) @ u)))"
proof (induction t rule: split_lines.induct)
  case (2 c cs)
  show ?case
  proof (cases "fst (split_lines cs)")
    case Nil
    then show ?thesis using 2 by (cases "split_lines cs") (auto split: list.splits prod.splits)
  next
    case (Cons l ls)
    then show ?thesis using 2 by (cases "split_lines cs") (auto split: list.splits prod.splits)
  qed
qed simp

lemma strchr_split:
  "strchr x 10 = (if 10 \<in> set x then Some (length (takeWhile (\<lambda>c. c \<noteq> 10) x)) else None)"
  by (induction x) auto

lemma cstr_at_split: "0 \<notin> set x \<Longrightarrow> cstr_at (pre @ x @ 0 # post) (length pre) = x"
proof -
  assume "0 \<notin> set x"
  then have "takeWhile (\<lambda>c. c \<noteq> 0) (x @ 0 # post) = x" by (induction x) auto
  then show ?thesis by (simp add: cstr_at_def)
qed

lemma grep_lines_run:
  assumes "0 \<notin> set x" and "length (matching pattern x) \<le> length rs"
  shows "\<exists>pre'. grep_lines pattern (length pre) (pre @ x @ 0 # post) (script rs tr) =
      URet (length pre', pre' @ snd (split_lines x) @ 0 # post)
        (script (drop (length (matching pattern x)) rs) (tr @ line_writes (matching pattern x))) \<and>
    length pre' + length (snd (split_lines x)) = length pre + length x"
  using assms
proof (induction "length x" arbitrary: x pre rs tr rule: less_induct)
  case less
  have c: "cstr_at (pre @ x @ 0 # post) (length pre) = x" by (rule cstr_at_split [OF less.prems(1)])
  show ?case
  proof (cases "10 \<in> set x")
    case False
    then show ?thesis
      by (subst grep_lines.simps) (simp add: c strchr_split split_lines_none matching_def line_writes_def)
  next
    case True
    define l where "l = takeWhile (\<lambda>c. c \<noteq> 10) x"
    obtain t where x: "x = l @ 10 # t" "10 \<notin> set l"
    proof -
      have "x = l @ dropWhile (\<lambda>c. c \<noteq> 10) x" by (simp add: l_def)
      moreover have "dropWhile (\<lambda>c. c \<noteq> 10) x \<noteq> []" using True by (simp add: dropWhile_eq_Nil_conv)
      then obtain t where "dropWhile (\<lambda>c. c \<noteq> 10) x = 10 # t"
        by (metis (mono_tags, lifting) hd_dropWhile list.exhaust_sel)
      moreover have "10 \<notin> set l" unfolding l_def by (auto dest: set_takeWhileD)
      ultimately show ?thesis using that by auto
    qed
    have k: "strchr x 10 = Some (length l)" using True by (simp add: strchr_split l_def)
    have nz: "0 \<notin> set l" "0 \<notin> set t" using less.prems(1) x by auto
    have lx: "length x = Suc (length l + length t)" by (simp add: x(1))
    have upd: "(pre @ x @ 0 # post)[length pre + length l := v] = pre @ l @ v # t @ 0 # post"
      "(pre @ l @ w # t @ 0 # post)[length pre + length l := v] = pre @ l @ v # t @ 0 # post" for v w
      by (simp_all add: x list_update_append)
    have cl: "cstr_at (pre @ l @ 0 # t @ 0 # post) (length pre) = l" by (rule cstr_at_split [OF nz(1)])
    have sp: "split_lines x = (l # fst (split_lines t), snd (split_lines t))" by (simp add: x(1) split_lines_line [OF x(2)])
    show ?thesis
    proof (cases "match pattern l")
      case m: True
      have mt: "matching pattern x = l # matching pattern t" using m by (simp add: matching_def sp)
      then obtain r rs' where rs: "rs = r # rs'" "length (matching pattern t) \<le> length rs'" using less.prems(2) by (cases rs) auto
      have tl: "take (length pre + length l + 1 - length pre) (drop (length pre) (pre @ l @ 10 # t @ 0 # post)) = l @ [10]" by simp
      have lt: "length t < length x" by (simp add: x)
      obtain pre' where p: "grep_lines pattern (length (pre @ l @ [10])) ((pre @ l @ [10]) @ t @ 0 # post) (script rs' (tr @ [UWrite 1 (l @ [10])])) =
          URet (length pre', pre' @ snd (split_lines t) @ 0 # post)
            (script (drop (length (matching pattern t)) rs') ((tr @ [UWrite 1 (l @ [10])]) @ line_writes (matching pattern t)))"
        "length pre' + length (snd (split_lines t)) = length (pre @ l @ [10]) + length t"
        using less.hyps [OF lt nz(2) rs(2), of "pre @ l @ [10]" "tr @ [UWrite 1 (l @ [10])]"] by blast
      have "grep_lines pattern (length pre) (pre @ x @ 0 # post) (script rs tr) =
          grep_lines pattern (length (pre @ l @ [10])) ((pre @ l @ [10]) @ t @ 0 # post) (script rs' (tr @ [UWrite 1 (l @ [10])]))"
        using m by (subst grep_lines.simps) (simp add: c k upd cl Let_def rs(1))
      then show ?thesis using p by (intro exI [of _ pre']) (simp add: mt sp rs(1) line_writes_def lx)
    next
      case m: False
      have mt: "matching pattern x = matching pattern t" using m by (simp add: matching_def sp)
      have lt: "length t < length x" by (simp add: x)
      have len: "length (matching pattern t) \<le> length rs" using less.prems(2) mt by simp
      obtain pre' where p: "grep_lines pattern (length (pre @ l @ [0])) ((pre @ l @ [0]) @ t @ 0 # post) (script rs tr) =
          URet (length pre', pre' @ snd (split_lines t) @ 0 # post)
            (script (drop (length (matching pattern t)) rs) (tr @ line_writes (matching pattern t)))"
        "length pre' + length (snd (split_lines t)) = length (pre @ l @ [0]) + length t"
        using less.hyps [OF lt nz(2) len, of "pre @ l @ [0]" tr] by blast
      have "grep_lines pattern (length pre) (pre @ x @ 0 # post) (script rs tr) =
          grep_lines pattern (length (pre @ l @ [0])) ((pre @ l @ [0]) @ t @ 0 # post) (script rs tr)"
        using m by (subst grep_lines.simps) (simp add: c k upd cl Let_def)
      then show ?thesis using p by (intro exI [of _ pre']) (simp add: mt sp lx)
    qed
  qed
qed

text \<open>
  The loop, when every chunk the kernel delivers fits the buffer and completes a line: the script has the chunks, a reply for every
  matching line and the end of the file.
\<close>

fun grep_script :: "uchar list \<Rightarrow> uchar list \<Rightarrow> uchar list list \<Rightarrow> reply list" where
  "grep_script pattern rest [] = [\<lparr>rv = 0, rdata = []\<rparr>]"
| "grep_script pattern rest (c # cs) =
     \<lparr>rv = int (length c), rdata = c\<rparr> #
     map (\<lambda>l. \<lparr>rv = int (length l) + 1, rdata = []\<rparr>) (matching pattern (rest @ c)) @
     grep_script pattern (snd (split_lines (rest @ c))) cs"

fun chunks_ok :: "uchar list \<Rightarrow> uchar list list \<Rightarrow> bool" where
  "chunks_ok rest [] = True"
| "chunks_ok rest (c # cs) \<longleftrightarrow>
     10 \<in> set c \<and> 0 \<notin> set c \<and> length rest + length c \<le> 1023 \<and> chunks_ok (snd (split_lines (rest @ c))) cs"

fun grep_calls :: "uchar list \<Rightarrow> int \<Rightarrow> uchar list \<Rightarrow> uchar list list \<Rightarrow> ucall list" where
  "grep_calls pattern fd rest [] = [URead fd (1023 - length rest)]"
| "grep_calls pattern fd rest (c # cs) =
     URead fd (1023 - length rest) # line_writes (matching pattern (rest @ c)) @ grep_calls pattern fd (snd (split_lines (rest @ c))) cs"

lemma split_lines_nz: "0 \<notin> set t \<Longrightarrow> 0 \<notin> set (snd (split_lines t))"
  by (induction t rule: split_lines.induct) (auto split: list.splits prod.splits)

lemma split_lines_newline: "10 \<in> set t \<Longrightarrow> length (snd (split_lines t)) < length t"
proof -
  have le: "length (snd (split_lines t)) \<le> length t" for t
  proof (induction t rule: split_lines.induct)
    case (2 c cs)
    then show ?case by (cases "c = 10"; cases "split_lines cs"; cases "fst (split_lines cs)") auto
  qed simp
  assume "10 \<in> set t"
  then obtain l u where "t = l @ 10 # u" "10 \<notin> set l" by (meson split_list_first)
  then show ?thesis using le [of u] by (simp add: split_lines_line)
qed

lemma grep_loop_run:
  assumes "chunks_ok rest cs" and "length buf = 1024" and "take (length rest) buf = rest" and "0 \<notin> set rest" and "length rest \<le> 1023"
  shows "\<exists>buf'. grep_loop pattern fd buf (length rest) (script (grep_script pattern rest cs @ rs2) tr) =
    URet buf' (script rs2 (tr @ grep_calls pattern fd rest cs)) \<and> length buf' = 1024"
  using assms
proof (induction cs arbitrary: rest buf tr)
  case Nil
  then show ?case by (subst grep_loop.simps) simp
next
  case (Cons c cs)
  let ?x = "rest @ c" and ?post = "drop (Suc (length rest + length c)) buf"
  have ok: "10 \<in> set c" "0 \<notin> set c" "length rest + length c \<le> 1023" "chunks_ok (snd (split_lines ?x)) cs" using Cons.prems(1) by simp_all
  have b: "(take (length rest) buf @ fill (drop (length rest) buf) \<lparr>rv = int (length c), rdata = c\<rparr>)[length rest + length c := 0] = [] @ ?x @ 0 # ?post"
  proof -
    have "take (length buf - length rest) c = c" using ok(3) Cons.prems(2) by simp
    moreover have "drop (length c) (drop (length rest) buf) = buf ! (length rest + length c) # ?post"
      using ok(3) Cons.prems(2) by (simp add: Cons_nth_drop_Suc add.commute)
    ultimately show ?thesis using Cons.prems(3) by (simp add: fill_def list_update_append)
  qed
  let ?rs = "map (\<lambda>l. \<lparr>rv = int (length l) + 1, rdata = []\<rparr>) (matching pattern ?x) @ grep_script pattern (snd (split_lines ?x)) cs @ rs2"
  let ?tr = "tr @ [URead fd (1023 - length rest)]"
  have nz: "0 \<notin> set ?x" using ok(2) Cons.prems(4) by simp
  obtain pre' where p: "grep_lines pattern 0 ([] @ ?x @ 0 # ?post) (script ?rs ?tr) =
      URet (length pre', pre' @ snd (split_lines ?x) @ 0 # ?post)
        (script (grep_script pattern (snd (split_lines ?x)) cs @ rs2) (?tr @ line_writes (matching pattern ?x)))"
    "length pre' + length (snd (split_lines ?x)) = length ?x"
    using grep_lines_run [OF nz, of pattern ?rs "[]" ?post ?tr] by auto
  have lt: "length (snd (split_lines ?x)) < length ?x" by (rule split_lines_newline) (use ok(1) in simp)
  then have p0: "length pre' \<noteq> 0" using p(2) by linarith
  then have pn: "pre' \<noteq> []" by simp
  let ?r = "snd (split_lines ?x)"
  let ?buf = "take (length ?r) (drop (length pre') (pre' @ ?r @ 0 # ?post)) @ drop (length ?r) (pre' @ ?r @ 0 # ?post)"
  have l: "length ?buf = 1024" using p(2) ok(3) Cons.prems(2) by simp
  have c0: "0 < length c" using ok(1) by (cases c) auto
  have run: "grep_loop pattern fd buf (length rest) (script (grep_script pattern rest (c # cs) @ rs2) tr) =
      grep_loop pattern fd ?buf (length ?r) (script (grep_script pattern ?r cs @ rs2) (?tr @ line_writes (matching pattern ?x)))"
  proof -
    have m: "length rest + length c - length pre' = length ?r" using p(2) by simp
    show ?thesis
      using p(1) p0 c0 Cons.prems(2) by (subst grep_loop.simps) (simp add: b Let_def m)
  qed
  obtain buf' where "grep_loop pattern fd ?buf (length ?r) (script (grep_script pattern ?r cs @ rs2) (?tr @ line_writes (matching pattern ?x))) =
      URet buf' (script rs2 ((?tr @ line_writes (matching pattern ?x)) @ grep_calls pattern fd ?r cs))" "length buf' = 1024"
    using Cons.IH [OF ok(4) l, of "?tr @ line_writes (matching pattern ?x)"] split_lines_nz [OF nz] lt ok(3) by auto
  then show ?case unfolding run by simp
qed

definition is_write :: "ucall \<Rightarrow> bool" where
  "is_write c \<longleftrightarrow> (case c of UWrite fd bs \<Rightarrow> True | _ \<Rightarrow> False)"

lemma matching_append: "matching pattern (t @ u) = matching pattern t @ matching pattern (snd (split_lines t) @ u)"
  by (simp add: matching_def split_lines_append [of t u])

lemma filter_line_writes: "filter is_write (line_writes ls) = line_writes ls"
  by (induction ls) (simp_all add: line_writes_def is_write_def)

lemma grep_calls_writes: "filter is_write (grep_calls pattern fd rest cs) = line_writes (matching pattern (rest @ concat cs))"
  if "10 \<notin> set rest"
  using that
proof (induction cs arbitrary: rest)
  case Nil
  then show ?case by (simp add: is_write_def matching_def split_lines_none line_writes_def)
next
  case (Cons c cs)
  have "matching pattern (rest @ c @ concat cs) = matching pattern (rest @ c) @ matching pattern (snd (split_lines (rest @ c)) @ concat cs)"
    using matching_append [of pattern "rest @ c" "concat cs"] by simp
  then show ?case
    using Cons.IH [OF split_lines_rest] by (simp add: is_write_def filter_line_writes) (simp add: line_writes_def)
qed

section \<open>Properties\<close>

text \<open>
  \<^bold>\<open>The matcher\<close> (C26).  \<^verbatim>\<open>match\<close> says that a line matches a pattern exactly if some part of the line is in the language of the pattern, a part
  at the start of the line if the pattern begins with \<^verbatim>\<open>^\<close> and one at the end if it ends with \<^verbatim>\<open>$\<close>.
\<close>

theorem match_meaning:
  "match re tx \<longleftrightarrow>
     (\<exists>pre mid post. tx = pre @ mid @ post \<and> mid \<in> lang (fst (items (if tied_start re then tl re else re))) \<and>
        (tied_start re \<longrightarrow> pre = []) \<and> (snd (items (if tied_start re then tl re else re)) \<longrightarrow> post = []))"
proof -
  have here: "matchhere re tx \<longleftrightarrow> (\<exists>mid post. tx = mid @ post \<and> mid \<in> lang (fst (items re)) \<and> (snd (items re) \<longrightarrow> post = []))" for re tx
    unfolding matchhere_tied tied_def by blast
  show ?thesis
  proof (cases "tied_start re")
    case True
    then have "match re tx = matchhere (tl re) tx" by (cases re) (simp_all add: match_def tied_start_def)
    then show ?thesis using True unfolding here by simp
  next
    case False
    then have "match re tx = match_from re tx" by (cases re) (simp_all add: match_def tied_start_def)
    then show ?thesis using False unfolding match_from_iff here by simp blast
  qed
qed

theorem match_meaning_witness:
  "match (ascii ''^a.*c$'') (ascii ''abbc'') \<and> \<not> match (ascii ''^b'') (ascii ''abbc'')"
proof -
  have "items (ascii ''a.*c$'') = ([One 97, Many 46, One 99], True)" by (simp add: ascii_def)
  moreover have "ascii ''abbc'' \<in> lang [One 97, Many 46, One 99]"
    unfolding lang_One lang_Many by (simp add: ascii_def atom_def)
  moreover have "tied_start (ascii ''^a.*c$'')" "tl (ascii ''^a.*c$'') = ascii ''a.*c$''" by (simp_all add: tied_start_def ascii_def)
  moreover have "ascii ''abbc'' = [] @ ascii ''abbc'' @ []" by simp
  ultimately have "match (ascii ''^a.*c$'') (ascii ''abbc'')"
    unfolding match_meaning
    by - (rule exI, rule exI, rule exI, rule conjI, assumption, simp)
  moreover have "\<not> match (ascii ''^b'') (ascii ''abbc'')"
    unfolding match_meaning by (simp add: ascii_def tied_start_def atom_def)
  ultimately show ?thesis by simp
qed

text \<open>
  \<^bold>\<open>The lines \<^verbatim>\<open>grep\<close> prints\<close> (C27).  If the kernel delivers a file in chunks that each contain a newline, no zero byte, and fit the buffer beside
  the rest of the line before, \<^verbatim>\<open>grep\<close> returns at the end of the file, and the writes it has made are the lines of the file that match, whole
  and in order, however the chunks cut the lines.
\<close>

theorem grep_prints_matches:
  assumes "chunks_ok [] cs"
  shows "\<exists>buf tr. grep pattern fd (replicate 1024 0) (script (grep_script pattern [] cs) []) = URet buf (script [] tr) \<and>
    filter is_write tr = line_writes (matching pattern (concat cs))"
proof -
  obtain buf where "grep_loop pattern fd (replicate 1024 0) (length ([] :: uchar list)) (script (grep_script pattern [] cs @ []) []) =
      URet buf (script [] ([] @ grep_calls pattern fd [] cs))"
    using grep_loop_run [OF assms, of "replicate 1024 0" pattern fd "[]" "[]"] by auto
  moreover have "filter is_write (grep_calls pattern fd [] cs) = line_writes (matching pattern (concat cs))"
    using grep_calls_writes [of "[]" pattern fd cs] by simp
  ultimately show ?thesis by (auto simp: grep_def)
qed

theorem grep_prints_matches_witness:
  "\<exists>buf tr. grep [98] 3 (replicate 1024 0) (script (grep_script [98] [] [[97, 10, 98], [99, 10]]) []) = URet buf (script [] tr) \<and>
     filter is_write tr = [UWrite 1 [98, 99, 10]]"
  using grep_prints_matches [of "[[97, 10, 98], [99, 10]]" "[98]" 3]
  by (simp add: matching_def line_writes_def match_def match_from.simps)

text \<open>
  \<^bold>\<open>Lost pieces of a line\<close> (C28).  If a read delivers a piece of a line without a newline, as reads from a pipe or the console may, \<^verbatim>\<open>grep\<close>
  forgets it: it goes on as if the piece had not been there, with an empty buffer.
\<close>

theorem grep_drops_pieces:
  assumes "c \<noteq> []" and "10 \<notin> set c" and "0 \<notin> set c" and "length c \<le> 1023" and "length buf = 1024"
  shows "\<exists>buf'. length buf' = 1024 \<and>
    grep pattern fd buf (script (\<lparr>rv = int (length c), rdata = c\<rparr> # rs) tr) = grep pattern fd buf' (script rs (tr @ [URead fd 1023]))"
proof -
  let ?b = "(fill buf \<lparr>rv = int (length c), rdata = c\<rparr>)[length c := 0]"
  have b: "?b = [] @ c @ 0 # drop (Suc (length c)) buf"
  proof -
    have "drop (length c) buf = buf ! length c # drop (Suc (length c)) buf" using assms(4,5) by (simp add: Cons_nth_drop_Suc)
    then show ?thesis using assms(4,5) by (simp add: fill_def list_update_append)
  qed
  have "strchr (cstr_at ?b 0) 10 = None" unfolding b using cstr_at_split [OF assms(3), of "[]"] assms(2) by (simp add: strchr_split)
  then have "grep_lines pattern 0 ?b s = URet (0, ?b) s" for s by (subst grep_lines.simps) simp
  then have "grep pattern fd buf (script (\<lparr>rv = int (length c), rdata = c\<rparr> # rs) tr) = grep pattern fd ?b (script rs (tr @ [URead fd 1023]))"
    unfolding grep_def using assms(1,5) by (subst grep_loop.simps) (simp add: Let_def)
  moreover have "length ?b = 1024" unfolding b using assms(4,5) by simp
  ultimately show ?thesis by blast
qed

theorem grep_drops_pieces_witness:
  "match [97] [97, 98] \<and>
   (\<exists>buf'. grep [97] 0 (replicate 1024 0) (script [\<lparr>rv = 1, rdata = [97]\<rparr>, \<lparr>rv = 2, rdata = [98, 10]\<rparr>, \<lparr>rv = 0, rdata = []\<rparr>] []) =
      URet buf' (script [] [URead 0 1023, URead 0 1023, URead 0 1023]))"
proof -
  let ?rs = "[\<lparr>rv = 2, rdata = [98, 10]\<rparr>, \<lparr>rv = 0, rdata = []\<rparr>]"
  obtain buf where b: "length buf = 1024" "grep [97] 0 (replicate 1024 0) (script (\<lparr>rv = 1, rdata = [97]\<rparr> # ?rs) []) =
      grep [97] 0 buf (script ?rs [URead 0 1023])"
    using grep_drops_pieces [of "[97]" "replicate 1024 0" "[97]" 0 ?rs "[]"] by auto
  have m: "matching [97] [98, 10] = []" by (simp add: matching_def match_def match_from.simps)
  have "\<exists>buf'. grep_loop [97] 0 buf (length ([] :: uchar list)) (script (grep_script [97] [] [[98, 10]] @ []) [URead 0 1023]) =
      URet buf' (script [] ([URead 0 1023] @ grep_calls [97] 0 [] [[98, 10]])) \<and> length buf' = 1024"
    by (rule grep_loop_run) (simp_all add: b(1))
  then have "\<exists>buf'. grep [97] 0 buf (script ?rs [URead 0 1023]) = URet buf' (script [] [URead 0 1023, URead 0 1023, URead 0 1023])"
    by (auto simp: m grep_def line_writes_def)
  moreover have "match [97] [97, 98]" by (simp add: match_def match_from.simps)
  ultimately show ?thesis using b(2) by simp
qed

end
