(* ===== verification/Sh.thy ===== *)
theory Sh
  imports Grep
begin

text \<open>
  The shell, \<^verbatim>\<open>sh.c\<close>.  The parser works on the line in the input buffer: the list of its characters before the terminator, at
  position \<^verbatim>\<open>es\<close>.  A \<^verbatim>\<open>char*\<close> into the line is a position, a counted string a pair of positions.  The structures of the parsed
  command are the constructors of a datatype; their \<^verbatim>\<open>malloc\<close> is taken to succeed.  The parsing functions call each other recursively, so
  they have fuel; \<open>PFuel\<close> is a recursion that is deeper.
\<close>

section \<open>Definitions\<close>

definition MAXARGS :: nat where "MAXARGS = 10"

datatype cmd =
    EXEC "(nat \<times> nat) list"
  | REDIR cmd "nat \<times> nat" int int
  | PIPE cmd cmd
  | LIST cmd cmd
  | BACK cmd

text \<open>The constructors allocate a structure, clear it and set its fields; an \<^verbatim>\<open>execcmd\<close> starts with no arguments.\<close>

definition execcmd :: cmd where
  [simp]: "execcmd = EXEC []"

definition redircmd :: "cmd \<Rightarrow> nat \<Rightarrow> nat \<Rightarrow> int \<Rightarrow> int \<Rightarrow> cmd" where
  [simp]: "redircmd subcmd file efile mode fd = REDIR subcmd (file, efile) mode fd"

definition pipecmd :: "cmd \<Rightarrow> cmd \<Rightarrow> cmd" where
  [simp]: "pipecmd left right = PIPE left right"

definition listcmd :: "cmd \<Rightarrow> cmd \<Rightarrow> cmd" where
  [simp]: "listcmd left right = LIST left right"

definition backcmd :: "cmd \<Rightarrow> cmd" where
  [simp]: "backcmd subcmd = BACK subcmd"

datatype 'a parse = POk 'a | PPanic string | PFuel

primrec pbind :: "'a parse \<Rightarrow> ('a \<Rightarrow> 'b parse) \<Rightarrow> 'b parse" where
  "pbind (POk x) f = f x"
| "pbind (PPanic m) f = PPanic m"
| "pbind PFuel f = PFuel"

subsection \<open>Tokens\<close>

definition whitespace :: "uchar list" where "whitespace = [32, 9, 13, 10, 11]"
definition symbols :: "uchar list" where "symbols = ascii ''<|>&;()''"

text \<open>The character at a position; the terminator is at the end.\<close>

definition char_at :: "uchar list \<Rightarrow> nat \<Rightarrow> uchar" where
  "char_at s p = (if p < length s then s ! p else 0)"

definition skip_while :: "(uchar \<Rightarrow> bool) \<Rightarrow> uchar list \<Rightarrow> nat \<Rightarrow> nat" where
  "skip_while P s p = p + length (takeWhile P (drop p s))"

abbreviation is_white :: "uchar \<Rightarrow> bool" where "is_white c \<equiv> strchr whitespace c \<noteq> None"
abbreviation is_symbol :: "uchar \<Rightarrow> bool" where "is_symbol c \<equiv> strchr symbols c \<noteq> None"

text \<open>\<^verbatim>\<open>gettoken\<close> returns the kind of the token, its start and end, and the new position.\<close>

definition gettoken :: "uchar list \<Rightarrow> nat \<Rightarrow> uchar \<times> nat \<times> nat \<times> nat" where
  "gettoken s p =
     (let q = skip_while is_white s p; c = char_at s q;
          (ret, eq) = (if c = 0 then (0, q)
                       else if c \<in> {124, 40, 41, 59, 38, 60} then (c, q + 1)
                       else if c = 62 then if char_at s (q + 1) = 62 then (43, q + 2) else (c, q + 1)
                       else (97, skip_while (\<lambda>c. \<not> is_white c \<and> \<not> is_symbol c) s q))
      in (ret, q, eq, skip_while is_white s eq))"

definition peek :: "uchar list \<Rightarrow> nat \<Rightarrow> string \<Rightarrow> bool \<times> nat" where
  "peek s p toks =
     (let p = skip_while is_white s p
      in (char_at s p \<noteq> 0 \<and> strchr (ascii toks) (char_at s p) \<noteq> None, p))"

subsection \<open>Parsing\<close>

text \<open>\<^verbatim>\<open>parseredirs\<close>: its loop consumes a redirection in every round.\<close>

primrec parseredirs :: "nat \<Rightarrow> uchar list \<Rightarrow> cmd \<Rightarrow> nat \<Rightarrow> (cmd \<times> nat) parse" where
  "parseredirs 0 s cmd p = PFuel"
| "parseredirs (Suc n) s cmd p =
     (let (yes, p) = peek s p ''<>''
      in if \<not> yes then POk (cmd, p)
         else let (tok, _, _, p) = gettoken s p; (t, q, eq, p) = gettoken s p
              in if t \<noteq> 97 then PPanic ''missing file for redirection''
                 else if tok = 60 then parseredirs n s (redircmd cmd q eq 0 0) p
                 else if tok = 62 then parseredirs n s (redircmd cmd q eq 0x201 1) p
                 else if tok = 43 then parseredirs n s (redircmd cmd q eq 0x201 1) p
                 else parseredirs n s cmd p)"

text \<open>The structure \<^verbatim>\<open>cmd\<close> of \<^verbatim>\<open>parseexec\<close> stays the innermost one when redirections are wrapped around it.\<close>

fun add_arg :: "cmd \<Rightarrow> nat \<times> nat \<Rightarrow> cmd" where
  "add_arg (EXEC as) a = EXEC (as @ [a])"
| "add_arg (REDIR c f m fd) a = REDIR (add_arg c a) f m fd"
| "add_arg c a = c"

primrec exec_args :: "nat \<Rightarrow> uchar list \<Rightarrow> cmd \<Rightarrow> nat \<Rightarrow> nat \<Rightarrow> (cmd \<times> nat) parse" where
  "exec_args 0 s ret argc p = PFuel"
| "exec_args (Suc n) s ret argc p =
     (let (stop, p) = peek s p ''|)&;''
      in if stop then POk (ret, p)
         else let (tok, q, eq, p) = gettoken s p
              in if tok = 0 then POk (ret, p)
                 else if tok \<noteq> 97 then PPanic ''syntax''
                 else if argc + 1 \<ge> MAXARGS then PPanic ''too many args''
                 else pbind (parseredirs (Suc n) s (add_arg ret (q, eq)) p) (\<lambda>(ret, p). exec_args n s ret (argc + 1) p))"

text \<open>The loop \<^verbatim>\<open>while(peek(ps, es, "&"))\<close> of \<^verbatim>\<open>parseline\<close>.\<close>

primrec parsebacks :: "nat \<Rightarrow> uchar list \<Rightarrow> cmd \<Rightarrow> nat \<Rightarrow> (cmd \<times> nat) parse" where
  "parsebacks 0 s cmd p = PFuel"
| "parsebacks (Suc n) s cmd p =
     (let (yes, p) = peek s p ''&''
      in if yes then let (_, _, _, p) = gettoken s p in parsebacks n s (backcmd cmd) p else POk (cmd, p))"

fun parseline :: "nat \<Rightarrow> uchar list \<Rightarrow> nat \<Rightarrow> (cmd \<times> nat) parse"
  and parsepipe :: "nat \<Rightarrow> uchar list \<Rightarrow> nat \<Rightarrow> (cmd \<times> nat) parse"
  and parseexec :: "nat \<Rightarrow> uchar list \<Rightarrow> nat \<Rightarrow> (cmd \<times> nat) parse"
  and parseblock :: "nat \<Rightarrow> uchar list \<Rightarrow> nat \<Rightarrow> (cmd \<times> nat) parse" where
  "parseline 0 s p = PFuel"
| "parseline (Suc n) s p =
     pbind (parsepipe n s p) (\<lambda>(cmd, p).
     pbind (parsebacks (Suc (length s)) s cmd p) (\<lambda>(cmd, p).
     let (yes, p) = peek s p '';''
     in if yes
        then let (_, _, _, p) = gettoken s p in pbind (parseline n s p) (\<lambda>(right, p). POk (listcmd cmd right, p))
        else POk (cmd, p)))"
| "parsepipe 0 s p = PFuel"
| "parsepipe (Suc n) s p =
     pbind (parseexec n s p) (\<lambda>(cmd, p).
     let (yes, p) = peek s p ''|''
     in if yes
        then let (_, _, _, p) = gettoken s p in pbind (parsepipe n s p) (\<lambda>(right, p). POk (pipecmd cmd right, p))
        else POk (cmd, p))"
| "parseexec 0 s p = PFuel"
| "parseexec (Suc n) s p =
     (let (yes, p) = peek s p ''(''
      in if yes then parseblock n s p
         else pbind (parseredirs (Suc (length s)) s execcmd p) (\<lambda>(ret, p). exec_args (Suc (length s)) s ret 0 p))"
| "parseblock 0 s p = PFuel"
| "parseblock (Suc n) s p =
     (let (yes, p) = peek s p ''(''
      in if \<not> yes then PPanic ''parseblock''
         else let (_, _, _, p) = gettoken s p
              in pbind (parseline n s p) (\<lambda>(cmd, p).
                 let (yes, p) = peek s p '')''
                 in if \<not> yes then PPanic ''syntax - missing )''
                    else let (_, _, _, p) = gettoken s p in parseredirs (Suc (length s)) s cmd p))"

text \<open>
  \<^verbatim>\<open>nulterminate\<close> stores a terminator after every counted string.  The terminator of the line is at position \<^verbatim>\<open>es\<close>, so the buffer is
  the line and a 0.
\<close>

fun nulterminate :: "cmd \<Rightarrow> uchar list \<Rightarrow> uchar list" where
  "nulterminate (EXEC as) b = fold (\<lambda>(q, eq) b. b[eq := 0]) as b"
| "nulterminate (REDIR c (q, eq) m fd) b = (nulterminate c b)[eq := 0]"
| "nulterminate (PIPE l r) b = nulterminate r (nulterminate l b)"
| "nulterminate (LIST l r) b = nulterminate r (nulterminate l b)"
| "nulterminate (BACK c) b = nulterminate c b"

definition parse_fuel :: "uchar list \<Rightarrow> nat" where
  "parse_fuel s = 4 * length s + 4"

datatype parsed = Parsed cmd "uchar list" | Leftovers nat | Broken string | Deep

definition parsecmd :: "uchar list \<Rightarrow> parsed" where
  "parsecmd s =
     (case parseline (parse_fuel s) s 0 of
        PFuel \<Rightarrow> Deep
      | PPanic m \<Rightarrow> Broken m
      | POk (cmd, p) \<Rightarrow>
          let p = snd (peek s p '''')
          in if p \<noteq> length s then Leftovers p else Parsed cmd (nulterminate cmd (s @ [0])))"

subsection \<open>Running\<close>

definition sh_panic :: "string \<Rightarrow> usr \<Rightarrow> 'a uout" where
  "sh_panic m s = ubind (printf 2 (ascii ''%s'' @ [10]) [Ptr (ascii m)] s) (\<lambda>_ s. uexit s)"

definition fork1 :: "usr \<Rightarrow> int uout" where
  "fork1 s = ubind (sys UFork s) (\<lambda>r s. if rv r = -1 then sh_panic ''fork'' s else URet (rv r) s)"

text \<open>The two descriptors that \<^verbatim>\<open>pipe\<close> stores.\<close>

definition pipe_fd :: "reply \<Rightarrow> nat \<Rightarrow> int" where
  "pipe_fd r i = sint (ld32 (\<lambda>k. if k < length (rdata r) then rdata r ! k else 0) (4 * i) :: uint)"

text \<open>\<^verbatim>\<open>runcmd\<close> never returns; after a \<^verbatim>\<open>fork\<close> the process runs on as the parent or the child, as the reply says.\<close>

primrec runcmd :: "cmd \<Rightarrow> uchar list \<Rightarrow> usr \<Rightarrow> unit uout" where
  "runcmd (EXEC as) b s =
     (let argv = map (\<lambda>(q, eq). cstr_at b q) as
      in case argv of
           [] \<Rightarrow> uexit s
         | a # _ \<Rightarrow> ubind (sys (UExec a argv) s) (\<lambda>_ s. ubind (printf 2 (msg ''exec %s failed'') [Ptr a] s) (\<lambda>_ s. uexit s)))"
| "runcmd (REDIR c f m fd) b s =
     ubind (sys (UClose fd) s) (\<lambda>_ s.
     ubind (sys (UOpen (cstr_at b (fst f)) m) s) (\<lambda>r s.
     if rv r < 0 then ubind (printf 2 (msg ''open %s failed'') [Ptr (cstr_at b (fst f))] s) (\<lambda>_ s. uexit s)
     else runcmd c b s))"
| "runcmd (LIST l r) b s =
     ubind (fork1 s) (\<lambda>pid s.
     if pid = 0 then runcmd l b s
     else ubind (sys UWait s) (\<lambda>_ s. runcmd r b s))"
| "runcmd (PIPE l r) b s =
     ubind (sys UPipe s) (\<lambda>p s.
     if rv p < 0 then sh_panic ''pipe'' s
     else ubind (fork1 s) (\<lambda>pid s.
          if pid = 0
          then ubind (sys (UClose 1) s) (\<lambda>_ s. ubind (sys (UDup (pipe_fd p 1)) s) (\<lambda>_ s.
               ubind (sys (UClose (pipe_fd p 0)) s) (\<lambda>_ s. ubind (sys (UClose (pipe_fd p 1)) s) (\<lambda>_ s. runcmd l b s))))
          else ubind (fork1 s) (\<lambda>pid s.
               if pid = 0
               then ubind (sys (UClose 0) s) (\<lambda>_ s. ubind (sys (UDup (pipe_fd p 0)) s) (\<lambda>_ s.
                    ubind (sys (UClose (pipe_fd p 0)) s) (\<lambda>_ s. ubind (sys (UClose (pipe_fd p 1)) s) (\<lambda>_ s. runcmd r b s))))
               else ubind (sys (UClose (pipe_fd p 0)) s) (\<lambda>_ s. ubind (sys (UClose (pipe_fd p 1)) s) (\<lambda>_ s.
                    ubind (sys UWait s) (\<lambda>_ s. ubind (sys UWait s) (\<lambda>_ s. uexit s)))))))"
| "runcmd (BACK c) b s = ubind (fork1 s) (\<lambda>pid s. if pid = 0 then runcmd c b s else uexit s)"

definition getcmd :: "nat \<Rightarrow> usr \<Rightarrow> uchar list uout" where
  "getcmd nbuf s = ubind (printf 2 (ascii ''$ '') [] s) (\<lambda>_ s. ubind (gets nbuf s) (\<lambda>l s. URet (takeWhile (\<lambda>c. c \<noteq> 0) l) s))"

definition sh_child :: "uchar list \<Rightarrow> usr \<Rightarrow> unit uout" where
  "sh_child line s =
     (case parsecmd line of
        Parsed cmd b \<Rightarrow> runcmd cmd b s
      | Leftovers p \<Rightarrow> ubind (printf 2 (msg ''leftovers: %s'') [Ptr (drop p line)] s) (\<lambda>_ s. sh_panic ''syntax'' s)
      | Broken m \<Rightarrow> sh_panic m s
      | Deep \<Rightarrow> UFault)"

lemma fork1_replies: "fork1 s = URet pid s' \<Longrightarrow> length (replies s') < length (replies s)"
proof -
  assume a: "fork1 s = URet pid s'"
  obtain r t where t: "sys UFork s = URet r t" using a by (cases "sys UFork s") (simp_all add: fork1_def)
  have "sh_panic m u \<noteq> URet x v" for m u v and x :: int by (auto simp: sh_panic_def ubind_URet uexit_def)
  then show ?thesis using a t sys_shorter [OF t] by (auto simp: fork1_def split: if_splits)
qed

lemma gets_replies: "gets_loop mx acc s = URet l s' \<Longrightarrow> length (replies s') \<le> length (replies s)"
proof (induction mx acc s rule: gets_loop.induct)
  case (1 mx acc s)
  show ?case
  proof (cases "length acc + 1 < mx")
    case True
    with 1(2) obtain r t where t: "sys (URead 0 1) s = URet r t" by (subst (asm) gets_loop.simps) (auto simp: ubind_URet)
    show ?thesis using 1 True t sys_shorter [OF t]
      by (subst (asm) (2) gets_loop.simps) (fastforce simp: Let_def split: if_splits)
  next
    case False
    then show ?thesis using 1(2) by (subst (asm) gets_loop.simps) simp
  qed
qed

lemma getcmd_replies: "getcmd n s = URet l s' \<Longrightarrow> length (replies s') \<le> length (replies s)"
proof -
  assume "getcmd n s = URet l s'"
  then obtain t l' where "printf 2 (ascii ''$ '') [] s = URet () t" "gets_loop n [] t = URet l' s'"
    by (auto simp: getcmd_def gets_def ubind_URet)
  then show ?thesis using printf_replies gets_replies by (meson order_trans)
qed

function sh_loop :: "usr \<Rightarrow> unit uout" where
  "sh_loop s =
     ubind (getcmd 100 s) (\<lambda>line s.
     if line = [] then uexit s
     else if take 3 line = ascii ''cd ''
     then let path = drop 3 (butlast line)
          in ubind (sys (UChdir path) s) (\<lambda>r s.
             if rv r < 0 then ubind (printf 2 (msg ''cannot cd %s'') [Ptr path] s) (\<lambda>_ s. sh_loop s) else sh_loop s)
     else ubind (fork1 s) (\<lambda>pid s.
          if pid = 0 then sh_child line s else ubind (sys UWait s) (\<lambda>_ s. sh_loop s)))"
  by pat_completeness auto
termination
  by (relation "measure (\<lambda>s. length (replies s))") (auto dest!: sys_shorter printf_replies getcmd_replies fork1_replies)

declare sh_loop.simps [simp del]

function sh_open :: "usr \<Rightarrow> unit uout" where
  "sh_open s =
     ubind (sys (UOpen (ascii ''console'') 2) s) (\<lambda>r s.
     if rv r < 0 then URet () s
     else if rv r \<ge> 3 then ubind (sys (UClose (rv r)) s) (\<lambda>_ s. URet () s)
     else sh_open s)"
  by pat_completeness auto
termination by (relation "measure (\<lambda>s. length (replies s))") (auto dest!: sys_shorter)

declare sh_open.simps [simp del]

definition sh_main :: "usr \<Rightarrow> unit uout" where
  "sh_main s = ubind (sh_open s) (\<lambda>_ s. sh_loop s)"

section \<open>The parser\<close>

text \<open>The counted strings of a command, as pairs of positions.\<close>

primrec cmd_words :: "cmd \<Rightarrow> (nat \<times> nat) list" where
  "cmd_words (EXEC as) = as"
| "cmd_words (REDIR c f m fd) = f # cmd_words c"
| "cmd_words (PIPE l r) = cmd_words l @ cmd_words r"
| "cmd_words (LIST l r) = cmd_words l @ cmd_words r"
| "cmd_words (BACK c) = cmd_words c"

definition word_char :: "uchar \<Rightarrow> bool" where
  "word_char c \<longleftrightarrow> \<not> is_white c \<and> \<not> is_symbol c"

definition is_word :: "uchar list \<Rightarrow> nat \<times> nat \<Rightarrow> bool" where
  "is_word s w \<longleftrightarrow> fst w < snd w \<and> snd w \<le> length s \<and> (\<forall>i. fst w \<le> i \<and> i < snd w \<longrightarrow> word_char (s ! i)) \<and>
     (snd w < length s \<longrightarrow> \<not> word_char (s ! snd w))"

lemma skip_ge: "p \<le> skip_while P s p"
  by (simp add: skip_while_def)

lemma skip_le: "p \<le> length s \<Longrightarrow> skip_while P s p \<le> length s"
  using length_takeWhile_le [of P "drop p s"] by (simp add: skip_while_def)

lemma skip_stop: "skip_while P s p < length s \<Longrightarrow> \<not> P (s ! skip_while P s p)"
  using nth_length_takeWhile [of P "drop p s"] by (simp add: skip_while_def)

lemma skip_all: "p \<le> i \<Longrightarrow> i < skip_while P s p \<Longrightarrow> P (s ! i)"
proof -
  assume i: "p \<le> i" "i < skip_while P s p"
  then have l: "i - p < length (takeWhile P (drop p s))" by (simp add: skip_while_def)
  then have "P (takeWhile P (drop p s) ! (i - p))" using set_takeWhileD nth_mem by metis
  moreover have "p \<le> length s" using l length_takeWhile_le [of P "drop p s"] by simp
  ultimately show ?thesis using i takeWhile_nth [OF l] by simp
qed

lemma symbol_iff: "strchr symbols c = None \<longleftrightarrow> c \<notin> {60, 124, 62, 38, 59, 40, 41}"
  by (auto simp: symbols_def ascii_def)

lemma char_at_nz: "char_at s p \<noteq> 0 \<Longrightarrow> p < length s \<and> char_at s p = s ! p"
  by (simp add: char_at_def split: if_splits)

lemma gettoken_bounds:
  assumes "gettoken s p = (ret, q, eq, p')" "p \<le> length s"
  shows "p \<le> p'" "p' \<le> length s" "ret \<noteq> 0 \<Longrightarrow> p < p'" "ret = 97 \<Longrightarrow> is_word s (q, eq)"
proof -
  let ?q = "skip_while is_white s p" and ?c = "char_at s (skip_while is_white s p)"
  let ?e = "skip_while (\<lambda>c. \<not> is_white c \<and> \<not> is_symbol c) s ?q"
  have q: "p \<le> ?q" "?q \<le> length s" using skip_ge skip_le assms(2) by auto
  have e: "?q \<le> ?e" "?e \<le> length s" using skip_ge skip_le q by auto
  have w: "is_word s (?q, ?e)" if c: "?c \<noteq> 0" "?c \<notin> {124, 40, 41, 59, 38, 60}" "?c \<noteq> 62"
  proof -
    have l: "?q < length s" "?c = s ! ?q" using char_at_nz [OF c(1)] by auto
    have wc: "word_char (s ! ?q)" using skip_stop [OF l(1)] c l(2) by (auto simp: word_char_def symbol_iff)
    have "?e \<noteq> ?q" using skip_stop [of "\<lambda>c. \<not> is_white c \<and> \<not> is_symbol c" s ?q] wc l(1) by (auto simp: word_char_def)
    then show ?thesis using e skip_stop [of "\<lambda>c. \<not> is_white c \<and> \<not> is_symbol c" s ?q]
        skip_all [of ?q _ "\<lambda>c. \<not> is_white c \<and> \<not> is_symbol c" s] by (auto simp: is_word_def word_char_def)
  qed
  have b: "ret = 0 \<and> eq = ?q \<or> (ret \<noteq> 0 \<and> ret \<noteq> 97 \<and> ?q < eq \<and> eq \<le> length s) \<or> (ret = 97 \<and> is_word s (?q, eq))"
    and r: "q = ?q" "p' = skip_while is_white s eq"
    using assms(1) w char_at_nz [of s ?q] char_at_nz [of s "?q + 1"] 
    by (auto simp: gettoken_def Let_def split: if_splits prod.splits)
  from b have le: "?q \<le> eq" "eq \<le> length s" using q by (auto simp: is_word_def)
  show "p \<le> p'" using q le skip_ge [of eq is_white s] r by simp
  show "p' \<le> length s" using le skip_le r by auto
  show "ret \<noteq> 0 \<Longrightarrow> p < p'" using b q skip_ge [of eq is_white s] r by (auto simp: is_word_def)
  show "ret = 97 \<Longrightarrow> is_word s (q, eq)" using b r by auto
qed

lemma peek_bounds:
  assumes "peek s p t = (yes, p')" "p \<le> length s"
  shows "p \<le> p'" "p' \<le> length s" "yes \<Longrightarrow> p' < length s \<and> \<not> is_white (s ! p') \<and> s ! p' \<in> set (ascii t) \<and> s ! p' \<noteq> 0"
proof -
  have p: "p' = skip_while is_white s p" and y: "yes \<longleftrightarrow> char_at s p' \<noteq> 0 \<and> strchr (ascii t) (char_at s p') \<noteq> None"
    using assms(1) by (auto simp: peek_def Let_def)
  show "p \<le> p'" "p' \<le> length s" using skip_ge skip_le assms(2) p by auto
  have mem: "strchr l c \<noteq> None \<Longrightarrow> c \<in> set l" for l c by (induction l) (auto split: if_splits)
  show "yes \<Longrightarrow> p' < length s \<and> \<not> is_white (s ! p') \<and> s ! p' \<in> set (ascii t) \<and> s ! p' \<noteq> 0"
    using y char_at_nz [of s p'] skip_stop [of is_white s p] p mem by auto
qed


text \<open>A token other than the end of the line is not empty, so the parser gets on after every character it looked for.\<close>

lemma gettoken_after_peek:
  assumes "peek s p t = (True, p')" "p \<le> length s" "gettoken s p' = (ret, q, eq, p'')"
  shows "p' < p''" "p'' \<le> length s"
proof -
  note b = peek_bounds [OF assms(1,2)]
  have "skip_while is_white s p' = p'" using b(3) by (simp add: skip_while_def Cons_nth_drop_Suc [symmetric])
  then have "ret \<noteq> 0" using assms(3) b(3) by (auto simp: gettoken_def char_at_def Let_def split: if_splits prod.splits)
  then show "p' < p''" "p'' \<le> length s" using gettoken_bounds [OF assms(3)] b by auto
qed

text \<open>The arguments of every \<^verbatim>\<open>execcmd\<close> and their terminator fit in its arrays.\<close>

primrec args_fit :: "cmd \<Rightarrow> bool" where
  "args_fit (EXEC as) \<longleftrightarrow> length as < MAXARGS"
| "args_fit (REDIR c f m fd) \<longleftrightarrow> args_fit c"
| "args_fit (PIPE l r) \<longleftrightarrow> args_fit l \<and> args_fit r"
| "args_fit (LIST l r) \<longleftrightarrow> args_fit l \<and> args_fit r"
| "args_fit (BACK c) \<longleftrightarrow> args_fit c"

definition cmd_ok :: "uchar list \<Rightarrow> cmd \<Rightarrow> bool" where
  "cmd_ok s c \<longleftrightarrow> (\<forall>w \<in> set (cmd_words c). is_word s w) \<and> args_fit c"

definition good :: "uchar list \<Rightarrow> nat \<Rightarrow> (cmd \<times> nat) parse \<Rightarrow> bool" where
  "good s p r \<longleftrightarrow> r \<noteq> PFuel \<and> (\<forall>c p'. r = POk (c, p') \<longrightarrow> p \<le> p' \<and> p' \<le> length s \<and> cmd_ok s c)"

lemma good_panic [simp]: "good s p (PPanic m)"
  by (simp add: good_def)

lemma good_POk: "good s p (POk (c, p')) \<longleftrightarrow> p \<le> p' \<and> p' \<le> length s \<and> cmd_ok s c"
  by (simp add: good_def)

lemma good_mono: "good s p' r \<Longrightarrow> p \<le> p' \<Longrightarrow> good s p r"
  by (auto simp: good_def)

lemma good_pbind:
  assumes "good s p r" "\<And>c p'. r = POk (c, p') \<Longrightarrow> p \<le> p' \<Longrightarrow> p' \<le> length s \<Longrightarrow> cmd_ok s c \<Longrightarrow> good s p' (f (c, p'))"
  shows "good s p (pbind r f)"
proof (cases r)
  case (POk x)
  then obtain c q where q: "r = POk (c, q)" by (cases x) auto
  then have "good s q (f (c, q))" "p \<le> q" using assms by (auto simp: good_POk)
  then show ?thesis using q good_mono by simp
qed (use assms in \<open>simp_all add: good_def\<close>)

primrec exec_of :: "cmd \<Rightarrow> (nat \<times> nat) list option" where
  "exec_of (EXEC as) = Some as"
| "exec_of (REDIR c f m fd) = exec_of c"
| "exec_of (PIPE l r) = None"
| "exec_of (LIST l r) = None"
| "exec_of (BACK c) = None"

lemma add_arg_exec: "exec_of c = Some as \<Longrightarrow> exec_of (add_arg c a) = Some (as @ [a])"
  by (induction c) auto

lemma add_arg_ok:
  "exec_of c = Some as \<Longrightarrow> length as + 1 < MAXARGS \<Longrightarrow> is_word s a \<Longrightarrow> cmd_ok s c \<Longrightarrow> cmd_ok s (add_arg c a)"
  by (induction c) (auto simp: cmd_ok_def)

lemma parseredirs_good:
  "p \<le> length s \<Longrightarrow> length s - p < n \<Longrightarrow> cmd_ok s cmd \<Longrightarrow> good s p (parseredirs n s cmd p)"
proof (induction n arbitrary: cmd p)
  case (Suc n)
  obtain yes p1 where pk: "peek s p ''<>'' = (yes, p1)" by (cases "peek s p ''<>''")
  obtain tok a b p2 where g1: "gettoken s p1 = (tok, a, b, p2)" by (cases "gettoken s p1") auto
  obtain t q eq p3 where g2: "gettoken s p2 = (t, q, eq, p3)" by (cases "gettoken s p2") auto
  note b0 = peek_bounds [OF pk Suc.prems(1)]
  note b1 = gettoken_bounds [OF g1 b0(2)]
  note b2 = gettoken_bounds [OF g2 b1(2)]
  have step: "good s p (parseredirs n s c p3)" if "t = 97" "cmd_ok s c" for c
    by (rule good_mono [OF Suc.IH]) (use b0(1) b1(1) b2(2,3) that Suc.prems(2) in auto)
  have w: "t = 97 \<Longrightarrow> cmd_ok s (REDIR cmd (q, eq) m fd)" for m fd
    using b2(4) Suc.prems(3) by (auto simp: cmd_ok_def)
  show ?case using step w b0(1,2) Suc.prems(3) by (simp add: pk g1 g2 good_POk)
qed simp

lemma parseredirs_exec: "parseredirs n s cmd p = POk (c, p') \<Longrightarrow> exec_of c = exec_of cmd"
  by (induction n arbitrary: cmd p) (auto simp: Let_def split: if_splits prod.splits)

lemma exec_args_good:
  "p \<le> length s \<Longrightarrow> length s - p < n \<Longrightarrow> cmd_ok s ret \<Longrightarrow> exec_of ret = Some as \<Longrightarrow> length as = argc \<Longrightarrow>
   good s p (exec_args n s ret argc p)"
proof (induction n arbitrary: ret argc p as)
  case (Suc n)
  obtain stop p1 where pk: "peek s p ''|)&;'' = (stop, p1)" by (cases "peek s p ''|)&;''")
  obtain tok q eq p2 where g: "gettoken s p1 = (tok, q, eq, p2)" by (cases "gettoken s p1") auto
  note b0 = peek_bounds [OF pk Suc.prems(1)]
  note b1 = gettoken_bounds [OF g b0(2)]
  have step: "good s p (pbind (parseredirs (Suc n) s (add_arg ret (q, eq)) p2) (\<lambda>(ret, p). exec_args n s ret (argc + 1) p))"
    if "tok = 97" "argc + 1 < MAXARGS"
  proof (rule good_mono [OF good_pbind])
    show "p \<le> p2" using b0(1) b1(1) by simp
    show "good s p2 (parseredirs (Suc n) s (add_arg ret (q, eq)) p2)"
      using parseredirs_good [OF b1(2)] add_arg_ok [OF Suc.prems(4)] Suc.prems b1(4) that b0(1) b1(1) by (simp del: parseredirs.simps)
    fix c p' assume r: "parseredirs (Suc n) s (add_arg ret (q, eq)) p2 = POk (c, p')" "p2 \<le> p'" "p' \<le> length s" "cmd_ok s c"
    have "exec_of c = Some (as @ [(q, eq)])" using parseredirs_exec [OF r(1)] add_arg_exec [OF Suc.prems(4)] by simp
    then show "good s p' (case (c, p') of (ret, p) \<Rightarrow> exec_args n s ret (argc + 1) p)"
      using Suc.IH [of p' c "as @ [(q, eq)]" "argc + 1"] r Suc.prems(2,5) b0(1) b1(3) that by simp
  qed
  show ?case using step b0(1,2) b1(1,2) Suc.prems(3) by (simp add: pk g good_POk not_le del: parseredirs.simps)
qed simp

lemma parsebacks_good:
  "p \<le> length s \<Longrightarrow> length s - p < n \<Longrightarrow> cmd_ok s cmd \<Longrightarrow> good s p (parsebacks n s cmd p)"
proof (induction n arbitrary: cmd p)
  case (Suc n)
  obtain yes p1 where pk: "peek s p ''&'' = (yes, p1)" by (cases "peek s p ''&''")
  obtain tok q eq p2 where g: "gettoken s p1 = (tok, q, eq, p2)" by (cases "gettoken s p1") auto
  note b0 = peek_bounds [OF pk Suc.prems(1)]
  have "good s p (parsebacks n s (BACK cmd) p2)" if yes
    by (rule good_mono [OF Suc.IH])
      (use gettoken_after_peek [OF _ Suc.prems(1) g, of "''&''"] pk that b0(1) Suc.prems(2,3) in \<open>auto simp: cmd_ok_def\<close>)
  then show ?case using b0(1,2) Suc.prems(3) by (simp add: pk g good_POk)
qed simp


text \<open>The end of \<^verbatim>\<open>parseline\<close> and of \<^verbatim>\<open>parsepipe\<close>: after an operator the parser calls itself.\<close>

lemma good_operator:
  assumes "q \<le> length s" "cmd_ok s c" "\<And>p'. q < p' \<Longrightarrow> p' \<le> length s \<Longrightarrow> good s p' (f p')"
    "\<And>r. cmd_ok s r \<Longrightarrow> cmd_ok s (k r)"
  shows "good s q (let (yes, p) = peek s q t
     in if yes then let (_, _, _, p) = gettoken s p in pbind (f p) (\<lambda>(right, p). POk (k right, p)) else POk (c, p))"
proof -
  obtain yes p1 where pk: "peek s q t = (yes, p1)" by (cases "peek s q t")
  obtain tok a e p2 where g: "gettoken s p1 = (tok, a, e, p2)" by (cases "gettoken s p1") auto
  note b0 = peek_bounds [OF pk assms(1)]
  have "good s q (pbind (f p2) (\<lambda>(right, p). POk (k right, p)))" if yes
  proof (rule good_mono [OF good_pbind [OF assms(3)]])
    have "p1 < p2" "p2 \<le> length s" using gettoken_after_peek [OF _ assms(1) g, of t] pk that by auto
    then show "q < p2" "p2 \<le> length s" "q \<le> p2" using b0(1) by auto
  qed (auto simp: good_POk assms(4))
  then show ?thesis using b0(1,2) assms(2) by (simp add: pk g good_POk)
qed

lemma redirs_good: "q \<le> length s \<Longrightarrow> cmd_ok s c \<Longrightarrow> good s q (parseredirs (Suc (length s)) s c q)"
  using parseredirs_good [of q s "Suc (length s)" c] by (simp del: parseredirs.simps)

lemma parseline_good:
  assumes p: "p \<le> length s" and pip: "good s p (parsepipe n s p)"
    and line: "\<And>q. p < q \<Longrightarrow> q \<le> length s \<Longrightarrow> good s q (parseline n s q)"
  shows "good s p (parseline (Suc n) s p)"
  unfolding parseline.simps
proof (rule good_pbind [OF pip])
  fix c p' assume c: "p \<le> p'" "p' \<le> length s" "cmd_ok s c"
  have "good s p' (parsebacks (Suc (length s)) s c p')" using parsebacks_good [OF c(2) _ c(3)] by (simp del: parsebacks.simps)
  then show "good s p' (case (c, p') of (cmd, p) \<Rightarrow> pbind (parsebacks (Suc (length s)) s cmd p) (\<lambda>(cmd, p).
     let (yes, p) = peek s p '';''
     in if yes then let (_, _, _, p) = gettoken s p in pbind (parseline n s p) (\<lambda>(right, p). POk (listcmd cmd right, p))
        else POk (cmd, p)))"
    unfolding prod.case by (rule good_pbind) (unfold prod.case, rule good_operator, use c(1) in \<open>auto simp: cmd_ok_def intro: line\<close>)
qed

lemma parsepipe_good:
  assumes p: "p \<le> length s" and exe: "good s p (parseexec n s p)"
    and pip: "\<And>q. p < q \<Longrightarrow> q \<le> length s \<Longrightarrow> good s q (parsepipe n s q)"
  shows "good s p (parsepipe (Suc n) s p)"
  unfolding parsepipe.simps
  by (rule good_pbind [OF exe]) (unfold prod.case, rule good_operator, auto simp: cmd_ok_def intro: pip)

lemma parseexec_good:
  assumes p: "p \<le> length s" and blk: "\<And>q. p \<le> q \<Longrightarrow> q \<le> length s \<Longrightarrow> good s q (parseblock n s q)"
  shows "good s p (parseexec (Suc n) s p)"
proof -
  obtain yes p1 where pk: "peek s p ''('' = (yes, p1)" by (cases "peek s p ''(''")
  note b0 = peek_bounds [OF pk p]
  have "good s p1 (pbind (parseredirs (Suc (length s)) s execcmd p1) (\<lambda>(ret, p). exec_args (Suc (length s)) s ret 0 p))"
  proof (rule good_pbind [OF redirs_good [OF b0(2)]])
    show "cmd_ok s execcmd" by (simp add: cmd_ok_def MAXARGS_def)
    fix c p' assume r: "parseredirs (Suc (length s)) s execcmd p1 = POk (c, p')" "p1 \<le> p'" "p' \<le> length s" "cmd_ok s c"
    have "exec_of c = Some []" using parseredirs_exec [OF r(1)] by simp
    then show "good s p' (case (c, p') of (ret, p) \<Rightarrow> exec_args (Suc (length s)) s ret 0 p)"
      using exec_args_good [OF r(3) _ r(4), of "Suc (length s)" "[]" 0] by (simp del: exec_args.simps)
  qed
  moreover have "good s p1 (parseblock n s p1)" using blk b0 by blast
  ultimately show ?thesis using good_mono [OF _ b0(1)] by (simp add: pk del: parseredirs.simps exec_args.simps)
qed

lemma parseblock_good:
  assumes p: "p \<le> length s" and line: "\<And>q. p < q \<Longrightarrow> q \<le> length s \<Longrightarrow> good s q (parseline n s q)"
  shows "good s p (parseblock (Suc n) s p)"
proof -
  obtain yes p1 where pk: "peek s p ''('' = (yes, p1)" by (cases "peek s p ''(''")
  obtain tok a e p2 where g: "gettoken s p1 = (tok, a, e, p2)" by (cases "gettoken s p1") auto
  note b0 = peek_bounds [OF pk p]
  let ?tail = "\<lambda>c q. let (yes, p) = peek s q '')'' in if \<not> yes then PPanic ''syntax - missing )''
        else let (_, _, _, p) = gettoken s p in parseredirs (Suc (length s)) s c p"
  have tail: "good s q (?tail c q)" if q: "q \<le> length s" "cmd_ok s c" for c q
  proof -
    obtain yes p1 where pk: "peek s q '')'' = (yes, p1)" by (cases "peek s q '')''")
    obtain tok a e p2 where g: "gettoken s p1 = (tok, a, e, p2)" by (cases "gettoken s p1") auto
    note b0 = peek_bounds [OF pk q(1)] and b1 = gettoken_bounds [OF g peek_bounds(2) [OF pk q(1)]]
    show ?thesis using good_mono [OF redirs_good [OF b1(2) q(2)]] b0(1) b1(1) by (simp add: pk g del: parseredirs.simps)
  qed
  have "good s p (pbind (parseline n s p2) (\<lambda>(cmd, p). ?tail cmd p))" if yes
  proof (rule good_mono [OF good_pbind [OF line]])
    have t: "p1 < p2" "p2 \<le> length s" using gettoken_after_peek [OF _ p g, of "''(''"] pk that by auto
    then show "p2 \<le> length s" "p < p2" "p \<le> p2" using b0(1) by auto
  qed (unfold prod.case, rule tail)
  then show ?thesis unfolding parseblock.simps by (simp add: pk g del: parseredirs.simps)
qed

text \<open>Every call goes on with less fuel, and a recursive call of \<^verbatim>\<open>parseline\<close> comes after at least one more character.\<close>

lemma parse_good:
  "p \<le> length s \<Longrightarrow>
   (4 * (length s - p) + 4 \<le> n \<longrightarrow> good s p (parseline n s p)) \<and>
   (4 * (length s - p) + 3 \<le> n \<longrightarrow> good s p (parsepipe n s p)) \<and>
   (4 * (length s - p) + 2 \<le> n \<longrightarrow> good s p (parseexec n s p)) \<and>
   (4 * (length s - p) + 1 \<le> n \<longrightarrow> good s p (parseblock n s p))"
proof (induction n arbitrary: p)
  case (Suc n)
  note p = Suc.prems
  have line: "good s q (parseline n s q)" if "q \<le> length s" "4 * (length s - q) + 4 \<le> n" for q using Suc.IH that by blast
  have pip: "good s q (parsepipe n s q)" if "q \<le> length s" "4 * (length s - q) + 3 \<le> n" for q using Suc.IH that by blast
  have exe: "good s q (parseexec n s q)" if "q \<le> length s" "4 * (length s - q) + 2 \<le> n" for q using Suc.IH that by blast
  have blk: "good s q (parseblock n s q)" if "q \<le> length s" "4 * (length s - q) + 1 \<le> n" for q using Suc.IH that by blast
  show ?case
    using parseline_good [OF p pip [OF p] line] parsepipe_good [OF p exe [OF p] pip] parseexec_good [OF p blk]
      parseblock_good [OF p line] by auto
qed simp

text \<open>\<^verbatim>\<open>nulterminate\<close> writes a terminator after every word and nothing else.\<close>

lemma list_update_nth: "xs[i := x] ! j = (if i = j \<and> i < length xs then x else xs ! j)"
  by (metis list_update_beyond not_le nth_list_update_eq nth_list_update_neq)

lemma fold_ends_nth:
  "i < length b \<Longrightarrow> fold (\<lambda>(q, eq) b. b[eq := 0]) as b ! i = (if i \<in> snd ` set as then 0 else b ! i)"
  "length (fold (\<lambda>(q, eq) b. b[eq := 0]) as b) = length b"
  by (induction as arbitrary: b) (auto simp: nth_list_update split: prod.splits)

lemma nulterminate_nth:
  "length (nulterminate c b) = length b \<and>
   (\<forall>i < length b. nulterminate c b ! i = (if i \<in> snd ` set (cmd_words c) then 0 else b ! i))"
  by (induction c b rule: nulterminate.induct) (auto simp: fold_ends_nth list_update_nth)

lemma word_kept:
  assumes "is_word s (q, eq)" "\<forall>w \<in> W. is_word s w" "(q, eq) \<in> W" "0 \<notin> set s"
    "length b = length s + 1" "\<And>i. i < length b \<Longrightarrow> b ! i = (if i \<in> snd ` W then 0 else (s @ [0]) ! i)"
  shows "cstr_at b q = take (eq - q) (drop q s)"
proof -
  have q: "q < eq" "eq \<le> length s" using assms(1) by (auto simp: is_word_def)
  have in_word: "i \<notin> snd ` W" if i: "q \<le> i" "i < eq" for i
  proof
    assume "i \<in> snd ` W"
    then obtain a where "is_word s (a, i)" using assms(2) by force
    then have "i < length s \<longrightarrow> \<not> word_char (s ! i)" by (simp add: is_word_def)
    then show False using assms(1) i q by (auto simp: is_word_def)
  qed
  have "take (eq - q) (drop q b) = take (eq - q) (drop q s)"
  proof (rule nth_equalityI)
    fix i assume "i < length (take (eq - q) (drop q b))"
    then have i: "i < eq - q" "q + i < eq" "q + i < length s" using q by auto
    then have "b ! (q + i) = s ! (q + i)" using assms(5) assms(6) [of "q + i"] in_word [of "q + i"] i by (simp add: nth_append)
    then show "take (eq - q) (drop q b) ! i = take (eq - q) (drop q s) ! i" using i q assms(5) by simp
  qed (use q assms(5) in simp)
  then have b: "drop q b = take (eq - q) (drop q s) @ drop eq b"
    using append_take_drop_id [of "eq - q" "drop q b"] q by simp
  have "b ! eq = 0" using assms(3,5,6) q by force
  then have e: "drop eq b = 0 # drop (Suc eq) b" using q assms(5) by (simp add: Cons_nth_drop_Suc [symmetric])
  have "x \<noteq> 0" if "x \<in> set (take (eq - q) (drop q s))" for x
    using that assms(4) by (metis in_set_dropD in_set_takeD)
  then show ?thesis unfolding cstr_at_def b e by (subst takeWhile_append2) auto
qed

section \<open>Properties\<close>



end
