(* ===== verification/Umalloc.thy ===== *)
theory Umalloc
  imports User
begin

text \<open>
  The memory allocator of user programs, \<^verbatim>\<open>umalloc.c\<close>.  Free blocks are kept in a circular list in the order of their addresses; every
  block, free or not, starts with a header of two words: the next free block and the size in units of the size of a header.  The list is
  in the memory of the program, and its address \<^verbatim>\<open>&base\<close> is an argument.  The loops follow pointers, so they are partial functions: \<open>None\<close> is a
  loop that never ends.  \<^verbatim>\<open>sbrk\<close> is a system call, answered by the script of the program.
\<close>

section \<open>Definitions\<close>

record uheap =
  hmem :: memory
  freep :: uint

definition sizeof_Header :: uint where "sizeof_Header = 8"

text \<open>\<^verbatim>\<open>p->s.ptr\<close> and \<^verbatim>\<open>p->s.size\<close>.\<close>

definition hptr :: "uheap \<Rightarrow> uint \<Rightarrow> uint" where "hptr h p = ld32 (hmem h) p"
definition hsize :: "uheap \<Rightarrow> uint \<Rightarrow> uint" where "hsize h p = ld32 (hmem h) (p + 4)"

definition set_ptr :: "uint \<Rightarrow> uint \<Rightarrow> uheap \<Rightarrow> uheap" where
  "set_ptr p v h = h\<lparr>hmem := st32 (hmem h) p v\<rparr>"

definition set_size :: "uint \<Rightarrow> uint \<Rightarrow> uheap \<Rightarrow> uheap" where
  "set_size p v h = h\<lparr>hmem := st32 (hmem h) (p + 4) v\<rparr>"

text \<open>Pointer arithmetic on headers: \<^verbatim>\<open>p + n\<close>.\<close>

definition units :: "uint \<Rightarrow> uint \<Rightarrow> uint" where
  "units p n = p + n * sizeof_Header"

text \<open>The search of \<^verbatim>\<open>free\<close> for the block after which \<open>bp\<close> belongs.\<close>

partial_function (option) free_loop :: "uheap \<Rightarrow> uint \<Rightarrow> uint \<Rightarrow> uint option" where
  "free_loop h bp p =
     (if bp > p \<and> bp < hptr h p then Some p
      else if p \<ge> hptr h p \<and> (bp > p \<or> bp < hptr h p) then Some p
      else free_loop h bp (hptr h p))"

definition free :: "uint \<Rightarrow> uheap \<Rightarrow> uheap option" where
  "free ap h =
     (let bp = ap - sizeof_Header
      in case free_loop h bp (freep h) of
           None \<Rightarrow> None
         | Some p \<Rightarrow>
             let h = (if units bp (hsize h bp) = hptr h p
                      then let h = set_size bp (hsize h bp + hsize h (hptr h p)) h in set_ptr bp (hptr h (hptr h p)) h
                      else set_ptr bp (hptr h p) h);
                 h = (if units p (hsize h p) = bp
                      then let h = set_size p (hsize h p + hsize h bp) h in set_ptr p (hptr h bp) h
                      else set_ptr p bp h)
             in Some (h\<lparr>freep := p\<rparr>))"

definition morecore :: "uint \<Rightarrow> uheap \<Rightarrow> usr \<Rightarrow> (uint \<times> uheap) uout option" where
  "morecore nu h s =
     (let nu = (if nu < 4096 then 4096 else nu)
      in case sys (USbrk (sint (nu * sizeof_Header))) s of
           URet r s \<Rightarrow>
             if rv r = -1 then Some (URet (0, h) s)
             else let hp = word_of_int (rv r)
                  in (case free (units hp 1) (set_size hp nu h) of
                        None \<Rightarrow> None
                      | Some h \<Rightarrow> Some (URet (freep h, h) s))
         | UBlock s \<Rightarrow> Some (UBlock s)
         | UExit s \<Rightarrow> Some (UExit s)
         | UFault \<Rightarrow> Some UFault)"

text \<open>A block of \<open>nunits\<close> is cut off the end of the block \<open>p\<close>, or the block is taken out of the list.\<close>

definition take_block :: "uint \<Rightarrow> uint \<Rightarrow> uint \<Rightarrow> uheap \<Rightarrow> uint \<times> uheap" where
  "take_block nunits prevp p h =
     (let (p, h) = (if hsize h p = nunits then (p, set_ptr prevp (hptr h p) h)
                    else let h = set_size p (hsize h p - nunits) h; p = units p (hsize h p) in (p, set_size p nunits h))
      in (units p 1, h\<lparr>freep := prevp\<rparr>))"

partial_function (option) malloc_loop ::
  "uint \<Rightarrow> uint \<Rightarrow> uint \<Rightarrow> uheap \<Rightarrow> usr \<Rightarrow> (uint \<times> uheap) uout option" where
  "malloc_loop nunits prevp p h s =
     (if hsize h p \<ge> nunits then Some (URet (take_block nunits prevp p h) s)
      else if p = freep h
      then (case morecore nunits h s of
              None \<Rightarrow> None
            | Some r \<Rightarrow>
                (case r of
                   URet x s \<Rightarrow> if fst x = 0 then Some (URet (0, snd x) s)
                               else malloc_loop nunits (fst x) (hptr (snd x) (fst x)) (snd x) s
                 | UBlock s \<Rightarrow> Some (UBlock s)
                 | UExit s \<Rightarrow> Some (UExit s)
                 | UFault \<Rightarrow> Some UFault))
      else malloc_loop nunits p (hptr h p) h s)"

definition malloc :: "uint \<Rightarrow> uint \<Rightarrow> uheap \<Rightarrow> usr \<Rightarrow> (uint \<times> uheap) uout option" where
  "malloc base nbytes h s =
     (let nunits = (nbytes + sizeof_Header - 1) div sizeof_Header + 1;
          h = (if freep h = 0 then set_size base 0 (set_ptr base base (h\<lparr>freep := base\<rparr>)) else h);
          prevp = freep h
      in malloc_loop nunits prevp (hptr h prevp) h s)"

section \<open>Headers\<close>

lemma st32_outside:
  fixes a x :: uint
  assumes "unat a + 4 \<le> 2 ^ 32" and "unat x < unat a \<or> unat a + 4 \<le> unat x"
  shows "st32 m a v x = m x"
proof -
  have "x \<noteq> a + of_nat k" if "k < 4" for k
    using assms that unat_add_of_nat [of a k] by auto
  from this [of 0] this [of 1] this [of 2] this [of 3] show ?thesis by (simp add: st32_def)
qed

lemma ld32_outside:
  fixes a b :: uint
  assumes "unat a + 4 \<le> 2 ^ 32" "unat b + 4 \<le> 2 ^ 32" and "unat b + 4 \<le> unat a \<or> unat a + 4 \<le> unat b"
  shows "ld32 (st32 m a v) b = ld32 m b"
proof (rule ld32_cong)
  fix k :: nat assume k: "k < 4"
  have "unat (b + of_nat k) = unat b + k" using assms(2) k by (simp add: unat_add_of_nat)
  then show "st32 m a v (b + of_nat k) = m (b + of_nat k)" using st32_outside assms k by auto
qed

text \<open>Two headers that do not overlap.\<close>

definition apart :: "uint \<Rightarrow> uint \<Rightarrow> bool" where
  "apart p q \<longleftrightarrow> unat p + 8 \<le> unat q \<or> unat q + 8 \<le> unat p"

definition in_mem :: "uint \<Rightarrow> bool" where
  "in_mem p \<longleftrightarrow> unat p + 8 \<le> 2 ^ 32"

lemma unat_plus_4: "in_mem p \<Longrightarrow> unat (p + 4) = unat p + 4"
  using unat_add_of_nat [of p 4] by (simp add: in_mem_def)

lemma header_same [simp]:
  "hptr (set_ptr p v h) p = v" "hsize (set_size p v h) p = v"
  "freep (set_ptr p v h) = freep h" "freep (set_size p v h) = freep h"
  by (simp_all add: hptr_def hsize_def set_ptr_def set_size_def)

lemma header_freep [simp]: "hptr (h\<lparr>freep := p\<rparr>) = hptr h" "hsize (h\<lparr>freep := p\<rparr>) = hsize h"
  by (simp_all add: hptr_def hsize_def fun_eq_iff)

lemma header_part:
  assumes "in_mem p"
  shows "hptr (set_size p v h) p = hptr h p" "hsize (set_ptr p v h) p = hsize h p"
  using assms unat_plus_4 [OF assms] by (auto simp: hptr_def hsize_def set_ptr_def set_size_def in_mem_def intro!: ld32_outside)

lemma header_other:
  assumes "in_mem p" "in_mem q" "apart p q"
  shows "hptr (set_size p v h) q = hptr h q" "hsize (set_ptr p v h) q = hsize h q"
    "hptr (set_ptr p v h) q = hptr h q" "hsize (set_size p v h) q = hsize h q"
  using assms unat_plus_4 [OF assms(1)] unat_plus_4 [OF assms(2)]
  by (auto simp: hptr_def hsize_def set_ptr_def set_size_def in_mem_def apart_def intro!: ld32_outside)

section \<open>The free list\<close>

text \<open>\<open>seg h p bs z\<close>: following the list from \<open>p\<close> one meets the blocks \<open>bs\<close> and then arrives at \<open>z\<close>.\<close>

type_synonym block = "uint \<times> uint"

primrec seg :: "uheap \<Rightarrow> uint \<Rightarrow> block list \<Rightarrow> uint \<Rightarrow> bool" where
  "seg h p [] z \<longleftrightarrow> p = z"
| "seg h p (b # bs) z \<longleftrightarrow> p = fst b \<and> hsize h p = snd b \<and> seg h (hptr h p) bs z"

lemma seg_append: "seg h p (xs @ ys) z \<longleftrightarrow> (\<exists>q. seg h p xs q \<and> seg h q ys z)"
  by (induction xs arbitrary: p) auto

lemma seg_frame:
  "seg h p bs z \<Longrightarrow> (\<And>b. b \<in> set bs \<Longrightarrow> hptr h' (fst b) = hptr h (fst b) \<and> hsize h' (fst b) = hsize h (fst b)) \<Longrightarrow> seg h' p bs z"
  by (induction bs arbitrary: p) auto

lemma seg_hd: "seg h p bs z \<Longrightarrow> p = fst (hd (bs @ [(z, n)]))"
  by (cases bs) auto

text \<open>The bytes of a block, and blocks in the order of their addresses with gaps between them.\<close>

definition block_end :: "block \<Rightarrow> nat" where
  "block_end b = unat (fst b) + 8 * unat (snd b)"

definition span :: "block \<Rightarrow> nat set" where
  "span b = {unat (fst b)..<block_end b}"

primrec gapped :: "nat \<Rightarrow> block list \<Rightarrow> nat \<Rightarrow> bool" where
  "gapped lo [] hi \<longleftrightarrow> lo \<le> hi"
| "gapped lo (b # bs) hi \<longleftrightarrow> lo < unat (fst b) \<and> 0 < snd b \<and> gapped (block_end b) bs hi"

lemma block_end_gt: "0 < snd b \<Longrightarrow> unat (fst b) + 8 \<le> block_end b"
  by (simp add: block_end_def word_less_nat_alt Suc_leI)

lemma gapped_le: "gapped lo bs hi \<Longrightarrow> lo \<le> hi"
proof (induction bs arbitrary: lo)
  case (Cons b bs)
  then have "lo < unat (fst b)" "unat (fst b) + 8 \<le> block_end b" "block_end b \<le> hi" using block_end_gt by auto
  then show ?case by simp
qed simp

lemma gapped_mono: "gapped lo bs hi \<Longrightarrow> lo' \<le> lo \<Longrightarrow> hi \<le> hi' \<Longrightarrow> gapped lo' bs hi'"
  by (induction bs arbitrary: lo lo') auto

lemma gapped_mem: "gapped lo bs hi \<Longrightarrow> b \<in> set bs \<Longrightarrow> lo < unat (fst b) \<and> 0 < snd b \<and> block_end b \<le> hi"
proof (induction bs arbitrary: lo)
  case (Cons c bs)
  then show ?case using gapped_le block_end_gt [of c] by fastforce
qed simp

lemma gapped_append: "gapped lo (xs @ ys) hi \<longleftrightarrow> (\<exists>m. gapped lo xs m \<and> gapped m ys hi)"
proof (induction xs arbitrary: lo)
  case Nil
  then show ?case using gapped_mono by auto
qed auto


definition heap_list :: "uint \<Rightarrow> block list \<Rightarrow> nat \<Rightarrow> uheap \<Rightarrow> bool" where
  "heap_list base bs hi h \<longleftrightarrow> seg h base ((base, 0) # bs) base \<and> gapped (unat base + 7) bs hi \<and> hi < 2 ^ 32 \<and> base \<noteq> 0 \<and>
     freep h \<in> insert base (fst ` set bs)"

abbreviation ascending :: "block list \<Rightarrow> bool" where
  "ascending \<equiv> sorted_wrt (\<lambda>b c. fst b < fst c)"

lemma gapped_ascending: "gapped lo bs hi \<Longrightarrow> ascending bs"
proof (induction bs arbitrary: lo)
  case (Cons b bs)
  have "fst b < fst c" if "c \<in> set bs" for c
    using Cons.prems gapped_mem [of "block_end b" bs hi c] that block_end_gt [of b] by (auto simp: word_less_nat_alt)
  then show ?case using Cons by auto
qed simp

lemma heap_list_ascending:
  assumes "heap_list base bs hi h"
  shows "ascending ((base, 0) # bs)"
proof -
  have g: "gapped (unat base + 7) bs hi" using assms by (simp add: heap_list_def)
  have "base < fst b" if "b \<in> set bs" for b using gapped_mem [OF g that] by (simp add: word_less_nat_alt)
  then show ?thesis using gapped_ascending [OF g] by auto
qed

subsection \<open>The search of \<^verbatim>\<open>free\<close>\<close>

lemma free_loop_below:
  assumes "seg h p bs z" "bs \<noteq> []" "ascending bs" "\<And>b. b \<in> set bs \<Longrightarrow> fst b < bp" "bp < z \<or> z \<le> fst (last bs)"
  shows "free_loop h bp p = Some (fst (last bs))"
  using assms
proof (induction bs arbitrary: p)
  case (Cons b bs)
  show ?case
  proof (cases bs)
    case Nil
    then show ?thesis using Cons.prems by (subst free_loop.simps) auto
  next
    case (Cons c cs)
    have n: "hptr h p = fst c" and p: "p = fst b" using Cons.prems(1) Cons by auto
    have "fst b < fst c" "fst c < bp" using Cons.prems(3,4) Cons by auto
    then have "free_loop h bp p = free_loop h bp (hptr h p)" using n p by (subst free_loop.simps) auto
    then show ?thesis using Cons.IH [of "hptr h p"] Cons.prems Cons by auto
  qed
qed simp

lemma free_loop_above:
  assumes "seg h p bs base" "ascending bs" "\<And>b. b \<in> set bs \<Longrightarrow> bp < fst b" "base < bp"
  shows "free_loop h bp p = free_loop h bp base"
  using assms
proof (induction bs arbitrary: p)
  case (Cons b bs)
  have p: "p = fst b" "bp < p" using Cons.prems by auto
  have "hptr h p = base \<or> p < hptr h p" using Cons.prems(1,2) by (cases bs) auto
  then have "free_loop h bp p = free_loop h bp (hptr h p)"
    using p Cons.prems(4) by (subst free_loop.simps) auto
  then show ?case using Cons.IH [of "hptr h p"] Cons.prems by auto
qed simp

text \<open>From wherever it starts, the search ends at the last block below \<open>bp\<close>.\<close>

lemma free_loop_finds:
  assumes h: "heap_list base (pre @ post) hi h" and pre: "\<And>b. b \<in> set pre \<Longrightarrow> fst b < bp"
    and post: "\<And>b. b \<in> set post \<Longrightarrow> bp < fst b" and bp: "base < bp"
  shows "free_loop h bp (freep h) = Some (fst (last ((base, 0) # pre)))"
proof -
  let ?l = "(base, 0) # pre"
  obtain q where s: "seg h base ?l q" "seg h q post base" using h seg_append [of h base ?l post base] by (auto simp: heap_list_def)
  have asc: "ascending ?l" "ascending post" using heap_list_ascending [OF h] by (auto simp: sorted_wrt_append)
  have z: "bp < q \<or> q \<le> fst (last ?l)"
  proof (cases post)
    case Nil
    have "base \<le> fst (last ?l)" using asc(1) by (cases pre) (auto simp: less_imp_le)
    then show ?thesis using Nil s(2) by auto
  qed (use s(2) post in auto)
  have low: "free_loop h bp p = Some (fst (last ?l))" if x: "p \<in> fst ` set ?l" for p
  proof -
    obtain us b vs where l: "?l = us @ b # vs" "fst b = p" using x by (metis (no_types, lifting) imageE split_list)
    have "seg h p (b # vs) q" using s(1) l unfolding l(1) seg_append by auto
    moreover have "ascending (b # vs)" using asc(1) unfolding l(1) by (simp add: sorted_wrt_append)
    moreover have "fst c < bp" if "c \<in> set (b # vs)" for c
    proof -
      have "c \<in> set ?l" using that unfolding l(1) by auto
      then show ?thesis using pre [of c] bp by auto
    qed
    ultimately have "free_loop h bp p = Some (fst (last (b # vs)))" using z l(1) by (intro free_loop_below) auto
    then show ?thesis using l(1) by simp
  qed
  show ?thesis
  proof (cases "freep h \<in> fst ` set ?l")
    case False
    then have "freep h \<in> fst ` set post" using h by (auto simp: heap_list_def)
    then obtain us b vs where l: "post = us @ b # vs" "fst b = freep h" by (metis (no_types, lifting) imageE split_list)
    have "seg h (freep h) (b # vs) base" using s(2) l unfolding l(1) seg_append by auto
    then have "free_loop h bp (freep h) = free_loop h bp base"
    proof (rule free_loop_above)
      show "ascending (b # vs)" using asc(2) l(1) by (simp add: sorted_wrt_append)
      show "bp < fst c" if "c \<in> set (b # vs)" for c using that l(1) by (intro post) auto
    qed (rule bp)
    then show ?thesis using low by simp
  qed (rule low)
qed


subsection \<open>Joining with the neighbours\<close>

lemma unat_units:
  assumes "block_end (p, n) < 2 ^ 32"
  shows "unat (units p n) = block_end (p, n)"
proof -
  have n: "unat n * 8 < 2 ^ 32" using assms by (simp add: block_end_def)
  then have "unat (n * 8) = unat n * 8" by (simp add: unat_word_ariths)
  then show ?thesis using assms by (simp add: units_def sizeof_Header_def block_end_def unat_word_ariths)
qed

lemma block_in_mem: "0 < snd b \<Longrightarrow> block_end b < 2 ^ 32 \<Longrightarrow> in_mem (fst b)"
  using block_end_gt [of b] by (simp add: in_mem_def)

lemma gapped_headers:
  assumes "gapped lo bs hi" "hi < 2 ^ 32" "b \<in> set bs"
  shows "in_mem (fst b)" "lo < unat (fst b)" "unat (fst b) + 8 \<le> hi"
  using gapped_mem [OF assms(1,3)] assms(2) block_end_gt [of b] by (auto simp: in_mem_def)

text \<open>The bytes of the free blocks.\<close>

definition spans :: "block list \<Rightarrow> nat set" where
  "spans bs = (\<Union>b \<in> set bs. span b)"

lemma spans_simps [simp]: "spans [] = {}" "spans (b # bs) = span b \<union> spans bs" "spans (xs @ ys) = spans xs \<union> spans ys"
  by (auto simp: spans_def)

text \<open>Only the header at \<open>p\<close> changes.\<close>

definition only_header :: "uint \<Rightarrow> uheap \<Rightarrow> uheap \<Rightarrow> bool" where
  "only_header p h h' \<longleftrightarrow> freep h' = freep h \<and> (\<forall>x. unat x < unat p \<or> unat p + 8 \<le> unat x \<longrightarrow> hmem h' x = hmem h x)"

lemma only_header_trans: "only_header p h h' \<Longrightarrow> only_header p h' h'' \<Longrightarrow> only_header p h h''"
  by (simp add: only_header_def)

lemma only_header_mem: "only_header p h h' \<Longrightarrow> unat x \<notin> {unat p..<unat p + 8} \<Longrightarrow> hmem h' x = hmem h x"
  by (auto simp: only_header_def not_less)

lemma only_header_set [intro]:
  assumes "in_mem p"
  shows "only_header p h (set_ptr p v h)" "only_header p h (set_size p v h)"
  using assms unat_plus_4 [OF assms]
  by (auto simp: only_header_def set_ptr_def set_size_def in_mem_def intro!: st32_outside)

lemma only_header_other:
  assumes "only_header p h h'" "in_mem p" "in_mem q" "apart p q"
  shows "hptr h' q = hptr h q" "hsize h' q = hsize h q"
proof -
  have m: "hmem h' (q + of_nat k) = hmem h (q + of_nat k)" if "k < 8" for k
  proof -
    have "unat (q + of_nat k) = unat q + k" using assms(3) that by (simp add: unat_add_of_nat in_mem_def)
    then show ?thesis using assms(1,4) that by (auto simp: only_header_def apart_def)
  qed
  have "hmem h' (q + 4 + of_nat k) = hmem h (q + 4 + of_nat k)" if "k < 4" for k
    using m [of "k + 4"] that by (simp add: ac_simps)
  then show "hptr h' q = hptr h q" "hsize h' q = hsize h q" using m by (auto simp: hptr_def hsize_def intro!: ld32_cong)
qed

lemma seg_only_header:
  assumes "seg h q bs z" "only_header p h h'" "in_mem p" "\<And>b. b \<in> set bs \<Longrightarrow> in_mem (fst b) \<and> apart p (fst b)"
  shows "seg h' q bs z"
  using assms by (auto intro!: seg_frame [OF assms(1)] only_header_other [OF assms(2,3)])

lemma span_join:
  assumes "block_end (p, n) = unat q" "block_end (q, m) < 2 ^ 32"
  shows "block_end (p, n + m) = block_end (q, m)" "span (p, n + m) = span (p, n) \<union> span (q, m)" "0 < n \<Longrightarrow> 0 < n + m"
proof -
  have s: "unat (n + m) = unat n + unat m" using assms by (simp add: block_end_def unat_word_ariths)
  then show "0 < n \<Longrightarrow> 0 < n + m" by (simp add: word_less_nat_alt)
  from s show e: "block_end (p, n + m) = block_end (q, m)" using assms(1) by (simp add: block_end_def)
  show "span (p, n + m) = span (p, n) \<union> span (q, m)"
    using assms(1) unfolding span_def e by (auto simp: block_end_def)
qed

definition join_next :: "uint \<Rightarrow> uint \<Rightarrow> uheap \<Rightarrow> uheap" where
  "join_next p bp h =
     (if units bp (hsize h bp) = hptr h p
      then let h = set_size bp (hsize h bp + hsize h (hptr h p)) h in set_ptr bp (hptr h (hptr h p)) h
      else set_ptr bp (hptr h p) h)"

definition join_prev :: "uint \<Rightarrow> uint \<Rightarrow> uheap \<Rightarrow> uheap" where
  "join_prev p bp h =
     (if units p (hsize h p) = bp
      then let h = set_size p (hsize h p + hsize h bp) h in set_ptr p (hptr h bp) h
      else set_ptr p bp h)"

lemma free_alt:
  "free ap h = map_option (\<lambda>p. (join_prev p (ap - 8) (join_next p (ap - 8) h))\<lparr>freep := p\<rparr>) (free_loop h (ap - 8) (freep h))"
  by (simp add: free_def join_next_def join_prev_def sizeof_Header_def Let_def split: option.split)

lemma join_next_ok:
  assumes q: "seg h (hptr h p) post base" and p: "in_mem p" "apart bp p" and b: "hsize h bp = n" "0 < n" "block_end (bp, n) \<le> hi"
    and g: "gapped (block_end (bp, n) - 1) post hi" and hi: "hi < 2 ^ 32" and base: "base < bp"
  shows "\<exists>n1 post1. hsize (join_next p bp h) bp = n1 \<and> 0 < n1 \<and> seg (join_next p bp h) (hptr (join_next p bp h) bp) post1 base \<and>
    gapped (block_end (bp, n1)) post1 hi \<and> span (bp, n1) \<union> spans post1 = span (bp, n) \<union> spans post"
    (is "\<exists>n1 post1. ?P n1 post1") and "only_header bp h (join_next p bp h)"
proof -
  let ?e = "block_end (bp, n)"
  have bp: "in_mem bp" using block_in_mem [of "(bp, n)"] b hi by simp
  have e: "unat (units bp n) = ?e" using unat_units b hi by simp
  have be: "unat bp + 8 \<le> ?e" using block_end_gt [of "(bp, n)"] b by simp
  show oh: "only_header bp h (join_next p bp h)"
    using only_header_set [OF bp] only_header_trans [OF only_header_set(2) [OF bp] only_header_set(1) [OF bp]]
    by (simp add: join_next_def Let_def)
  have far: "in_mem (fst c) \<and> apart bp (fst c)" if "c \<in> set post" for c
    using gapped_headers [OF g hi that] be by (auto simp: apart_def)
  show "\<exists>n1 post1. ?P n1 post1"
  proof (cases "units bp n = hptr h p")
    case True
    then obtain c post' where post: "post = c # post'" using q base be e by (cases post) (auto simp: word_less_nat_alt)
    have c: "fst c = hptr h p" "hsize h (fst c) = snd c" "seg h (hptr h (fst c)) post' base" using q post by auto
    have gc: "0 < snd c" "gapped (block_end c) post' hi" using g post by auto
    have ce: "block_end c < 2 ^ 32" using gapped_le [OF gc(2)] hi by simp
    have j: "join_next p bp h = set_ptr bp (hptr h (fst c)) (set_size bp (n + snd c) h)"
      using True b(1) c far [of c] post header_other [OF bp] p by (simp add: join_next_def Let_def)
    have eq: "?e = unat (fst c)" using True e c(1) by simp
    note sj = span_join [of bp n "fst c" "snd c", OF eq]
    have "seg (join_next p bp h) (hptr h (fst c)) post' base"
      by (rule seg_only_header [OF c(3) oh bp]) (use far post in auto)
    moreover have "0 < n + snd c" using sj(3) ce b(2) by simp
    moreover have "hsize (join_next p bp h) bp = n + snd c" "hptr (join_next p bp h) bp = hptr h (fst c)"
      unfolding j using header_part [OF bp] by simp_all
    moreover have "block_end (bp, n + snd c) = block_end c" "span (bp, n + snd c) = span (bp, n) \<union> span c" using sj ce by simp_all
    ultimately have "?P (n + snd c) post'" unfolding post spans_simps using gc(2) by (metis Un_assoc)
    then show ?thesis by blast
  next
    case False
    have j: "join_next p bp h = set_ptr bp (hptr h p) h" using False b by (simp add: join_next_def)
    have s: "seg (join_next p bp h) (hptr h p) post base" by (rule seg_only_header [OF q oh bp]) (use far in auto)
    have "gapped ?e post hi"
    proof (cases post)
      case (Cons c post')
      then have "?e \<noteq> unat (fst c)" using False e q by (auto simp: word_unat_eq_iff)
      then show ?thesis using Cons g by auto
    qed (use b in simp)
    then have "?P n post" using s b bp by (simp add: j header_part)
    then show ?thesis by blast
  qed
qed


lemma join_prev_only:
  assumes "in_mem p"
  shows "only_header p h (join_prev p bp h)"
  using only_header_set [OF assms] only_header_trans [OF only_header_set(2) [OF assms] only_header_set(1) [OF assms]]
  by (simp add: join_prev_def Let_def)

text \<open>The block before \<open>bp\<close> is \<^verbatim>\<open>base\<close>, or a free block it may touch.\<close>

lemma join_prev_ok:
  assumes s: "seg h base ((base, 0) # pre0) p" "hsize h p = np" and bp: "seg h (hptr h bp) post base" "hsize h bp = n" "0 < n"
    and g: "gapped (block_end (bp, n)) post hi" "gapped (unat base + 7) (pre0 @ [(p, np)]) (unat bp)" and hi: "hi < 2 ^ 32"
  shows "\<exists>bs'. seg (join_prev p bp h) base ((base, 0) # bs') base \<and> gapped (unat base + 7) bs' hi \<and> p \<in> fst ` set bs' \<and>
    spans bs' = spans pre0 \<union> span (p, np) \<union> span (bp, n) \<union> spans post" (is "\<exists>bs'. ?P bs'")
proof -
  have np: "0 < np" "block_end (p, np) \<le> unat bp" "unat base + 7 < unat p" using gapped_mem [OF g(2), of "(p, np)"] by auto
  have e: "block_end (bp, n) \<le> hi" "unat bp + 8 \<le> block_end (bp, n)" using gapped_le [OF g(1)] block_end_gt [of "(bp, n)"] bp(3) by auto
  have pe: "unat p + 8 \<le> block_end (p, np)" using block_end_gt [of "(p, np)"] np by simp
  have p: "in_mem p" using np pe e hi by (simp add: in_mem_def)
  have b: "in_mem bp" "apart p bp" using np pe e hi by (auto simp: in_mem_def apart_def)
  obtain m where m: "gapped (unat base + 7) pre0 m" "m < unat p" using g(2) by (auto simp: gapped_append)
  note oh = join_prev_only [OF p, of h bp]
  have s1: "seg (join_prev p bp h) base ((base, 0) # pre0) p"
  proof (rule seg_only_header [OF s(1) oh p])
    fix c assume "c \<in> set ((base, 0) # pre0)"
    then consider "c = (base, 0)" | "c \<in> set pre0" by auto
    then show "in_mem (fst c) \<and> apart p (fst c)"
    proof cases
      case 2
      then show ?thesis using gapped_headers [OF m(1), of c] m(2) unat_uint_less [of p] by (auto simp: apart_def)
    qed (use np unat_uint_less [of p] in \<open>auto simp: in_mem_def apart_def\<close>)
  qed
  have s2: "seg (join_prev p bp h) (hptr h bp) post base"
    by (rule seg_only_header [OF bp(1) oh p]) (use gapped_headers [OF g(1) hi] np e pe in \<open>force simp: apart_def\<close>)
  show ?thesis
  proof (cases "units p np = bp")
    case True
    have eq: "block_end (p, np) = unat bp" using True unat_units [of p np] np e hi by simp
    note sj = span_join [OF eq, of n]
    have j: "join_prev p bp h = set_ptr p (hptr h bp) (set_size p (np + n) h)"
      using True s(2) bp(2) header_other [OF p b(1) b(2)] by (simp add: join_prev_def Let_def)
    have "hsize (join_prev p bp h) p = np + n" "hptr (join_prev p bp h) p = hptr h bp" unfolding j using header_part [OF p] by simp_all
    then have "seg (join_prev p bp h) base (((base, 0) # pre0) @ (p, np + n) # post) base" unfolding seg_append using s1 s2 by auto
    moreover have "gapped (unat base + 7) (pre0 @ (p, np + n) # post) hi" unfolding gapped_append
      using m g(1) sj e hi np by (intro exI [of _ m]) auto
    ultimately have "?P (pre0 @ (p, np + n) # post)" using sj e hi by auto
    then show ?thesis by blast
  next
    case False
    have "block_end (p, np) \<noteq> unat bp" using False unat_units [of p np] np e hi by (auto simp: word_unat_eq_iff)
    then have lt: "block_end (p, np) < unat bp" using np by simp
    have j: "join_prev p bp h = set_ptr p bp h" using False s(2) by (simp add: join_prev_def)
    have "hsize (join_prev p bp h) p = np" "hptr (join_prev p bp h) p = bp" unfolding j using header_part [OF p] s(2) by simp_all
    moreover have "hsize (join_prev p bp h) bp = n" "hptr (join_prev p bp h) bp = hptr h bp"
      using only_header_other [OF oh p b] bp(2) by simp_all
    ultimately have "seg (join_prev p bp h) base (((base, 0) # pre0) @ (p, np) # (bp, n) # post) base" unfolding seg_append using s1 s2 by auto
    moreover have "gapped (unat base + 7) (pre0 @ (p, np) # (bp, n) # post) hi" unfolding gapped_append
      using m g(1) np lt bp(3) by (intro exI [of _ m]) auto
    ultimately have "?P (pre0 @ (p, np) # (bp, n) # post)" by auto
    then show ?thesis by blast
  qed
qed

lemma join_base_ok:
  assumes s: "hsize h base = 0" and bp: "seg h (hptr h bp) post base" "hsize h bp = n" "0 < n"
    and g: "gapped (block_end (bp, n)) post hi" "unat base + 8 \<le> unat bp" and hi: "hi < 2 ^ 32"
  shows "seg (join_prev base bp h) base ((base, 0) # (bp, n) # post) base"
proof -
  have e: "block_end (bp, n) \<le> hi" "unat bp + 8 \<le> block_end (bp, n)" using gapped_le [OF g(1)] block_end_gt [of "(bp, n)"] bp(3) by auto
  have b: "in_mem base" "in_mem bp" "apart base bp" using g(2) e hi by (auto simp: in_mem_def apart_def)
  note oh = join_prev_only [OF b(1), of h bp]
  have s2: "seg (join_prev base bp h) (hptr h bp) post base"
    by (rule seg_only_header [OF bp(1) oh b(1)]) (use gapped_headers [OF g(1) hi] g(2) e in \<open>force simp: apart_def\<close>)
  have "units base 0 \<noteq> bp" using g(2) by (auto simp: units_def)
  then have j: "join_prev base bp h = set_ptr base bp h" using s by (simp add: join_prev_def)
  have "hsize (join_prev base bp h) base = 0" "hptr (join_prev base bp h) base = bp" unfolding j using header_part [OF b(1)] s by simp_all
  moreover have "hsize (join_prev base bp h) bp = n" "hptr (join_prev base bp h) bp = hptr h bp"
    using only_header_other [OF oh b] bp(2) by simp_all
  ultimately show ?thesis using s2 by simp
qed


subsection \<open>\<^verbatim>\<open>free\<close>\<close>

text \<open>A block that is not in the list, above \<^verbatim>\<open>base\<close> and clear of the free blocks.\<close>

definition outside :: "uint \<Rightarrow> block list \<Rightarrow> nat \<Rightarrow> block \<Rightarrow> bool" where
  "outside base bs hi b \<longleftrightarrow> 0 < snd b \<and> unat base + 8 \<le> unat (fst b) \<and> block_end b \<le> hi \<and> span b \<inter> spans bs = {}"

lemma spans_disjoint: "span b \<inter> span c = {} \<Longrightarrow> 0 < snd b \<Longrightarrow> 0 < snd c \<Longrightarrow> block_end b \<le> unat (fst c) \<or> block_end c \<le> unat (fst b)"
  using block_end_gt [of b] block_end_gt [of c] by (auto simp: span_def)

lemma gapped_split:
  assumes "gapped lo bs hi" "0 < snd b" "lo < unat (fst b)" "block_end b \<le> hi" "span b \<inter> spans bs = {}"
  shows "\<exists>pre post. bs = pre @ post \<and> gapped lo pre (unat (fst b)) \<and> gapped (block_end b - 1) post hi"
  using assms
proof (induction bs arbitrary: lo)
  case (Cons c bs)
  have d: "block_end b \<le> unat (fst c) \<or> block_end c \<le> unat (fst b)"
    using spans_disjoint [of b c] Cons.prems by auto
  show ?case
  proof (cases "block_end b \<le> unat (fst c)")
    case True
    then have "gapped (block_end b - 1) (c # bs) hi" using Cons.prems block_end_gt [of b] by auto
    then show ?thesis using Cons.prems by (intro exI [of _ "[]"] exI [of _ "c # bs"]) auto
  next
    case False
    show ?thesis
    proof (cases "block_end c = unat (fst b)")
      case True
      have "gapped (block_end b - 1) bs hi"
      proof (cases bs)
        case (Cons e es)
        have "block_end b \<le> unat (fst e) \<or> block_end e \<le> unat (fst b)" using spans_disjoint [of b e] Cons.prems Cons by auto
        then show ?thesis using Cons.prems Cons True block_end_gt [of e] block_end_gt [of b] by auto
      qed (use Cons.prems in auto)
      then show ?thesis using Cons.prems True by (intro exI [of _ "[c]"] exI [of _ bs]) auto
    next
      case False
      then have "block_end c < unat (fst b)" using d \<open>\<not> block_end b \<le> unat (fst c)\<close> by simp
      then obtain pre post where "bs = pre @ post" "gapped (block_end c) pre (unat (fst b))" "gapped (block_end b - 1) post hi"
        using Cons.IH [of "block_end c"] Cons.prems by auto
      then show ?thesis using Cons.prems by (intro exI [of _ "c # pre"] exI [of _ post]) auto
    qed
  qed
qed simp

text \<open>The block before \<open>bp\<close> in the list, as \<^verbatim>\<open>free\<close> finds it.\<close>

lemma prev_header:
  assumes "gapped (unat base + 7) pre (unat bp)" "unat base + 8 \<le> unat bp" "p = fst (last ((base, 0) # pre))"
  shows "in_mem p" "apart bp p" "{unat p..<unat p + 8} \<subseteq> {unat base..<unat base + 8} \<union> spans pre"
proof -
  have "in_mem p \<and> apart bp p \<and> {unat p..<unat p + 8} \<subseteq> {unat base..<unat base + 8} \<union> spans pre"
  proof (cases "pre = []")
    case False
    then have m: "last pre \<in> set pre" by simp
    have "{unat p..<unat p + 8} \<subseteq> span (last pre)"
      using block_end_gt [of "last pre"] gapped_mem [OF assms(1) m] assms(3) False by (auto simp: span_def)
    moreover have "span (last pre) \<subseteq> spans pre" using m by (auto simp: spans_def)
    ultimately show ?thesis using gapped_headers [OF assms(1) unat_uint_less m] assms(3) False by (auto simp: apart_def)
  qed (use assms unat_uint_less [of bp] in \<open>auto simp: in_mem_def apart_def\<close>)
  then show "in_mem p" "apart bp p" "{unat p..<unat p + 8} \<subseteq> {unat base..<unat base + 8} \<union> spans pre" by auto
qed

lemma join_ok:
  assumes l: "seg h base ((base, 0) # pre @ post) base" "hi < 2 ^ 32" and b: "hsize h bp = n" "0 < n" "unat base + 8 \<le> unat bp"
    "block_end (bp, n) \<le> hi" and g: "gapped (unat base + 7) pre (unat bp)" "gapped (block_end (bp, n) - 1) post hi"
    and p: "p = fst (last ((base, 0) # pre))"
  shows "\<exists>bs'. seg (join_prev p bp (join_next p bp h)) base ((base, 0) # bs') base \<and> gapped (unat base + 7) bs' hi \<and>
      p \<in> insert base (fst ` set bs') \<and> spans bs' = spans pre \<union> span (bp, n) \<union> spans post"
    and "only_header bp h (join_next p bp h)"
proof -
  let ?h1 = "join_next p bp h"
  note pp = prev_header [OF g(1) b(3) p]
  have base: "in_mem base" "apart bp base" "base < bp"
    using b(3) unat_uint_less [of bp] by (auto simp: in_mem_def apart_def word_less_nat_alt)
  have ib: "in_mem bp" using block_in_mem [of "(bp, n)"] b l(2) by simp
  have q: "seg h (hptr h p) post base" using l(1) p by (cases pre rule: rev_cases) (auto simp: seg_append)
  note jn = join_next_ok [OF q pp(1,2) b(1,2,4) g(2) l(2) base(3)]
  show oh: "only_header bp h ?h1" by (rule jn(2))
  obtain n1 post1 where j: "hsize ?h1 bp = n1" "0 < n1" "seg ?h1 (hptr ?h1 bp) post1 base" "gapped (block_end (bp, n1)) post1 hi"
    "span (bp, n1) \<union> spans post1 = span (bp, n) \<union> spans post" using jn(1) by blast
  let ?h2 = "join_prev p bp ?h1"
  have "\<exists>bs'. seg ?h2 base ((base, 0) # bs') base \<and> gapped (unat base + 7) bs' hi \<and> p \<in> insert base (fst ` set bs') \<and>
      spans bs' = spans pre \<union> (span (bp, n1) \<union> spans post1)"
  proof (cases pre rule: rev_cases)
    case Nil
    then have pb: "p = base" using p by simp
    have "hsize ?h1 base = 0" using only_header_other [OF oh ib base(1,2)] l(1) by simp
    then have "seg ?h2 base ((base, 0) # (bp, n1) # post1) base" using join_base_ok [OF _ j(3,1,2,4) b(3) l(2)] pb by blast
    then show ?thesis using Nil b(3) j pb by (intro exI [of _ "(bp, n1) # post1"]) (auto simp del: seg.simps)
  next
    case (snoc pre0 c)
    then have c: "pre = pre0 @ [(p, snd c)]" using p by (auto simp: prod_eq_iff)
    have s0: "seg h base ((base, 0) # pre0) p" "hsize h p = snd c" using l(1) unfolding c by (auto simp: seg_append)
    have far: "in_mem (fst d) \<and> apart bp (fst d)" if "d \<in> set ((base, 0) # pre)" for d
      using that base gapped_headers [OF g(1) unat_uint_less, of d] by (auto simp: apart_def)
    have "seg ?h1 base ((base, 0) # pre0) p" by (rule seg_only_header [OF s0(1) oh ib]) (use far c in auto)
    moreover have "hsize ?h1 p = snd c" using only_header_other [OF oh ib pp(1,2)] s0(2) by auto
    ultimately show ?thesis using join_prev_ok [OF _ _ j(3,1,2,4) g(1) [unfolded c] l(2)] c by (simp add: Un_assoc del: seg.simps) blast
  qed
  then show "\<exists>bs'. seg ?h2 base ((base, 0) # bs') base \<and> gapped (unat base + 7) bs' hi \<and> p \<in> insert base (fst ` set bs') \<and>
      spans bs' = spans pre \<union> span (bp, n) \<union> spans post" unfolding j(5) Un_assoc .
qed

lemma free_ok:
  assumes h: "heap_list base bs hi h" and b: "outside base bs hi b" "hsize h (fst b) = snd b"
  shows "\<exists>h' bs'. free (units (fst b) 1) h = Some h' \<and> heap_list base bs' hi h' \<and> spans bs' = spans bs \<union> span b \<and>
    (\<forall>x. unat x \<notin> {unat base..<unat base + 8} \<union> spans bs \<union> span b \<longrightarrow> hmem h' x = hmem h x)"
proof -
  obtain bp n where bn: "b = (bp, n)" by (cases b)
  have l: "seg h base ((base, 0) # bs) base" "gapped (unat base + 7) bs hi" "hi < 2 ^ 32" "base \<noteq> 0"
    using h by (auto simp: heap_list_def)
  have o: "0 < n" "unat base + 8 \<le> unat bp" "block_end (bp, n) \<le> hi" "hsize h bp = n" "span b \<inter> spans bs = {}"
    using b bn by (auto simp: outside_def)
  obtain pre post where bs: "bs = pre @ post" and g: "gapped (unat base + 7) pre (unat bp)" "gapped (block_end (bp, n) - 1) post hi"
    using gapped_split [OF l(2), of b] o bn by auto
  define p where "p = fst (last ((base, 0) # pre))"
  have be: "unat bp + 8 \<le> block_end (bp, n)" using block_end_gt [of "(bp, n)"] o(1) by simp
  have lp: "free_loop h bp (freep h) = Some p" unfolding p_def
  proof (rule free_loop_finds [OF h [unfolded bs]])
    show "fst c < bp" if "c \<in> set pre" for c using gapped_headers(3) [OF g(1) unat_uint_less that] by (simp add: word_less_nat_alt)
    show "bp < fst c" if "c \<in> set post" for c using gapped_headers(2) [OF g(2) l(3) that] be by (simp add: word_less_nat_alt)
    show "base < bp" using o(2) by (simp add: word_less_nat_alt)
  qed
  let ?h1 = "join_next p bp h" and ?h2 = "join_prev p bp (join_next p bp h)"
  have f: "free (units bp 1) h = Some (?h2\<lparr>freep := p\<rparr>)" using lp by (simp add: free_alt units_def sizeof_Header_def)
  note j = join_ok [OF l(1) [unfolded bs] l(3) o(4,1,2,3) g p_def]
  from j(1) obtain bs' where bs': "seg ?h2 base ((base, 0) # bs') base" "gapped (unat base + 7) bs' hi" "p \<in> insert base (fst ` set bs')"
    "spans bs' = spans pre \<union> span (bp, n) \<union> spans post" by blast
  have "heap_list base bs' hi (?h2\<lparr>freep := p\<rparr>)"
    unfolding heap_list_def using bs'(2,3) l by (auto simp del: seg.simps intro!: seg_frame [OF bs'(1)])
  moreover have "spans bs' = spans bs \<union> span b" using bs'(4) bs bn by auto
  moreover have "hmem ?h2 x = hmem h x" if x: "unat x \<notin> {unat base..<unat base + 8} \<union> spans bs \<union> span b" for x
  proof -
    note pp = prev_header [OF g(1) o(2) p_def]
    have "unat x \<notin> {unat p..<unat p + 8}" "unat x \<notin> {unat bp..<unat bp + 8}" using x pp(3) be bn bs by (auto simp: span_def)
    then show ?thesis using j(2) join_prev_only [OF pp(1), of ?h1 bp] by (auto simp: only_header_def not_less)
  qed
  ultimately show ?thesis using f bn by (intro exI [of _ "?h2\<lparr>freep := p\<rparr>"] exI [of _ bs']) simp
qed


subsection \<open>Taking a block\<close>

lemma ascending_split_unique:
  "ascending (xs @ (q, n) # ys) \<Longrightarrow> xs @ (q, n) # ys = us @ (q, m) # vs \<Longrightarrow> us = xs \<and> m = n \<and> vs = ys"
proof (induction xs arbitrary: us)
  case Nil
  then show ?case by (cases us) auto
next
  case (Cons x xs)
  then show ?case by (cases us) auto
qed

text \<open>Only the block before \<open>q\<close> in the list points to it.\<close>

lemma prev_unique:
  assumes h: "heap_list base (B1 @ (q, n) # B2) hi h" and pv: "pv \<in> insert base (fst ` set (B1 @ (q, n) # B2))" "hptr h pv = q"
  shows "pv = fst (last ((base, 0) # B1))"
proof -
  let ?L = "((base, 0) # B1) @ (q, n) # B2"
  have asc: "ascending ?L" using heap_list_ascending [OF h] by simp
  then have nb: "q \<noteq> base" by auto
  have "pv \<in> fst ` set ?L" using pv(1) by auto
  then obtain us c vs where l: "?L = us @ c # vs" "fst c = pv" by (metis (no_types, lifting) imageE split_list)
  have "seg h base ?L base" using h by (simp add: heap_list_def)
  then have "seg h q vs base" unfolding l(1) seg_append using l(2) pv(2) by auto
  then obtain d vs' where vs: "vs = d # vs'" "fst d = q" using nb by (cases vs) auto
  then have "?L = (us @ [c]) @ (q, snd d) # vs'" using l(1) by (simp add: prod_eq_iff)
  then have "us @ [c] = (base, 0) # B1" using ascending_split_unique [OF asc] by blast
  then show ?thesis using l(2) by (metis last_snoc)
qed

lemma seg_redirect:
  assumes "seg h base (X @ [(pv, n)]) q" "only_header pv h h'" "in_mem pv" "\<And>b. b \<in> set X \<Longrightarrow> in_mem (fst b) \<and> apart pv (fst b)"
    "hptr h' pv = r" "hsize h' pv = n"
  shows "seg h' base (X @ [(pv, n)]) r"
  using assms(1,5,6) seg_only_header [OF _ assms(2,3), of base X pv] assms(4) by (auto simp: seg_append)

lemma gapped_disjoint:
  assumes "gapped lo (B1 @ b # B2) hi"
  shows "span b \<inter> spans B1 = {}" "span b \<inter> spans B2 = {}"
proof -
  obtain m where m: "gapped lo B1 m" "m < unat (fst b)" "gapped (block_end b) B2 hi" using assms by (auto simp: gapped_append)
  show "span b \<inter> spans B1 = {}" using gapped_mem [OF m(1)] m(2) by (force simp: spans_def span_def)
  show "span b \<inter> spans B2 = {}" using gapped_mem [OF m(3)] by (force simp: spans_def span_def)
qed

text \<open>The headers of the list do not overlap.\<close>

abbreviation spaced :: "block list \<Rightarrow> bool" where
  "spaced \<equiv> sorted_wrt (\<lambda>b c. unat (fst b) + 8 \<le> unat (fst c))"

lemma gapped_spaced: "gapped lo bs hi \<Longrightarrow> spaced bs"
proof (induction bs arbitrary: lo)
  case (Cons b bs)
  have "unat (fst b) + 8 \<le> unat (fst c)" if "c \<in> set bs" for c
    using Cons.prems gapped_mem [of "block_end b" bs hi c] that block_end_gt [of b] by auto
  then show ?case using Cons by auto
qed simp

lemma heap_list_headers:
  assumes "heap_list base bs hi h"
  shows "spaced ((base, 0) # bs)" "c \<in> set ((base, 0) # bs) \<Longrightarrow> in_mem (fst c)"
proof -
  have g: "gapped (unat base + 7) bs hi" "hi < 2 ^ 32" using assms by (auto simp: heap_list_def)
  have "unat base + 8 \<le> unat (fst b)" if "b \<in> set bs" for b using gapped_mem [OF g(1) that] by simp
  then show "spaced ((base, 0) # bs)" using gapped_spaced [OF g(1)] by auto
  show "c \<in> set ((base, 0) # bs) \<Longrightarrow> in_mem (fst c)" using gapped_headers [OF g, of c] gapped_le [OF g(1)] g(2) by (auto simp: in_mem_def)
qed

lemma heap_list_spans: "heap_list base bs hi h \<Longrightarrow> b \<in> set bs \<Longrightarrow> {unat (fst b)..<unat (fst b) + 8} \<subseteq> spans bs"
  using gapped_mem [of "unat base + 7" bs hi b] block_end_gt [of b] by (force simp: heap_list_def spans_def span_def)

lemma take_whole:
  assumes h: "heap_list base (B1 @ (q, n) # B2) hi h" and pv: "pv = fst (last ((base, 0) # B1))"
  shows "heap_list base (B1 @ B2) hi ((set_ptr pv (hptr h q) h)\<lparr>freep := pv\<rparr>)" "in_mem pv" "apart pv q"
    "{unat pv..<unat pv + 8} \<subseteq> {unat base..<unat base + 8} \<union> spans B1"
proof -
  let ?h = "set_ptr pv (hptr h q) h"
  have l: "seg h base (((base, 0) # B1) @ (q, n) # B2) base" "gapped (unat base + 7) (B1 @ (q, n) # B2) hi" "hi < 2 ^ 32" "base \<noteq> 0"
    using h by (auto simp: heap_list_def)
  then obtain m where m: "gapped (unat base + 7) B1 m" "m < unat q" "0 < n" "gapped (block_end (q, n)) B2 hi" by (auto simp: gapped_append)
  have gq: "gapped (unat base + 7) B1 (unat q)" using m gapped_mono by force
  have q8: "unat base + 8 \<le> unat q" using l(2) gapped_mem [OF l(2), of "(q, n)"] by auto
  show p: "in_mem pv" and ap: "apart pv q" and "{unat pv..<unat pv + 8} \<subseteq> {unat base..<unat base + 8} \<union> spans B1"
    using prev_header [OF gq q8 pv] by (auto simp: apart_def)
  obtain X k where X: "(base, 0) # B1 = X @ [(pv, k)]" using pv by (metis append_butlast_last_id list.distinct(1) prod.collapse)
  have s: "seg h base (X @ [(pv, k)]) q" "seg h (hptr h q) B2 base" using l(1) unfolding seg_append X by auto
  have L: "(base, 0) # B1 @ (q, n) # B2 = X @ (pv, k) # (q, n) # B2" using X by (metis append.assoc append_Cons append_Nil)
  have "spaced (X @ (pv, k) # (q, n) # B2)" using heap_list_headers(1) [OF h] unfolding L .
  moreover have "in_mem (fst b)" if "b \<in> set X \<union> set B2" for b
    using heap_list_headers(2) [OF h, of b] that unfolding L by auto
  ultimately have far: "in_mem (fst b) \<and> apart pv (fst b)" if "b \<in> set X \<union> set B2" for b
    using that by (auto simp: sorted_wrt_append apart_def)
  have "seg ?h base ((base, 0) # B1) (hptr h q)" unfolding X
    by (rule seg_redirect [OF s(1) only_header_set(1) [OF p] p]) (use far s(1) header_part(2) [OF p] in \<open>auto simp: seg_append\<close>)
  moreover have "seg ?h (hptr h q) B2 base" by (rule seg_only_header [OF s(2) only_header_set(1) [OF p] p]) (use far in auto)
  ultimately have "seg ?h base (((base, 0) # B1) @ B2) base" unfolding seg_append by blast
  moreover have "gapped (unat base + 7) (B1 @ B2) hi"
    using m block_end_gt [of "(q, n)"] gapped_mono [OF m(4), of m hi] by (auto simp: gapped_append)
  moreover have "pv \<in> insert base (fst ` set (B1 @ B2))" using X by (metis (no_types, lifting) Un_iff fst_conv image_eqI in_set_conv_decomp insert_iff list.simps(15) set_append)
  ultimately show "heap_list base (B1 @ B2) hi (?h\<lparr>freep := pv\<rparr>)"
    unfolding heap_list_def using l by (auto simp del: seg.simps intro!: seg_frame [of ?h])
qed

lemma take_end:
  assumes h: "heap_list base (B1 @ (q, m) # B2) hi h" and n: "n < m" "0 < n" and pv: "pv \<in> insert base (fst ` set (B1 @ (q, m) # B2))"
  defines "a \<equiv> units q (m - n)"
  shows "heap_list base (B1 @ (q, m - n) # B2) hi ((set_size a n (set_size q (m - n) h))\<lparr>freep := pv\<rparr>)"
    "span (q, m) = span (q, m - n) \<union> span (a, n)" "span (q, m - n) \<inter> span (a, n) = {}" "in_mem q" "in_mem a" "apart a q"
    "{unat a..<unat a + 8} \<subseteq> span (q, m)"
proof -
  let ?h = "set_size a n (set_size q (m - n) h)"
  have l: "seg h base (((base, 0) # B1) @ (q, m) # B2) base" "gapped (unat base + 7) (B1 @ (q, m) # B2) hi" "hi < 2 ^ 32" "base \<noteq> 0"
    using h by (auto simp: heap_list_def)
  have m: "0 < m - n" "unat (m - n) = unat m - unat n" "unat n < unat m" "0 < unat n" using n
    by (auto simp: word_less_nat_alt unat_sub word_le_nat_alt)
  have e: "block_end (q, m) \<le> hi" using gapped_mem [OF l(2), of "(q, m)"] by simp
  have a: "unat a = block_end (q, m - n)" unfolding a_def
    by (rule unat_units) (use e l(3) m in \<open>simp add: block_end_def\<close>)
  have ea: "block_end (a, n) = block_end (q, m)" using a m by (simp add: block_end_def)
  show sp: "span (q, m) = span (q, m - n) \<union> span (a, n)" "span (q, m - n) \<inter> span (a, n) = {}"
    using a ea m by (auto simp: span_def block_end_def)
  have qa: "unat q + 8 \<le> unat a" "unat a + 8 \<le> block_end (q, m)" using a ea block_end_gt [of "(q, m - n)"] block_end_gt [of "(a, n)"] m n by auto
  show "{unat a..<unat a + 8} \<subseteq> span (q, m)" using qa by (auto simp: span_def)
  show iq: "in_mem q" and ia: "in_mem a" and ap: "apart a q" using qa e l(3) by (auto simp: in_mem_def apart_def)
  obtain k where k: "gapped (unat base + 7) B1 k" "k < unat q" "gapped (block_end (q, m)) B2 hi" using l(2) by (auto simp: gapped_append)
  have far: "in_mem (fst b) \<and> apart q (fst b) \<and> apart a (fst b)" if b: "b \<in> set ((base, 0) # B1) \<union> set B2" for b
  proof -
    have "spaced (((base, 0) # B1) @ (q, m) # B2)" using heap_list_headers(1) [OF h] by simp
    then have "b \<in> set ((base, 0) # B1) \<Longrightarrow> unat (fst b) + 8 \<le> unat q" by (auto simp: sorted_wrt_append)
    moreover have "b \<in> set B2 \<Longrightarrow> block_end (q, m) < unat (fst b)" using gapped_mem [OF k(3)] by auto
    moreover have "in_mem (fst b)" using heap_list_headers(2) [OF h, of b] b by auto
    ultimately show ?thesis using b qa by (auto simp: apart_def)
  qed
  have hd: "hptr ?h c = hptr h c \<and> hsize ?h c = hsize h c" if "in_mem c" "apart q c" "apart a c" for c
    using header_other [OF iq that(1,2)] header_other [OF ia that(1,3)] by simp
  have s: "seg h base ((base, 0) # B1) q" "hptr h q = fst (hd (B2 @ [(base, 0)]))" "seg h (hptr h q) B2 base"
    using l(1) seg_hd [of h "hptr h q" B2 base 0] unfolding seg_append by auto
  have "seg ?h base ((base, 0) # B1) q" by (rule seg_frame [OF s(1)]) (use hd far in blast)
  moreover have "seg ?h (hptr h q) B2 base" by (rule seg_frame [OF s(3)]) (use hd far in blast)
  moreover have "hptr ?h q = hptr h q" "hsize ?h q = m - n"
    using header_other [OF ia iq ap] header_part [OF iq] by simp_all
  ultimately have "seg ?h base (((base, 0) # B1) @ (q, m - n) # B2) base" unfolding seg_append by auto
  moreover have "gapped (unat base + 7) (B1 @ (q, m - n) # B2) hi"
    using k m(1) gapped_mono [OF k(3), of "block_end (q, m - n)" hi] qa a by (auto simp: gapped_append)
  ultimately show "heap_list base (B1 @ (q, m - n) # B2) hi (?h\<lparr>freep := pv\<rparr>)"
    unfolding heap_list_def using l pv by (auto simp del: seg.simps intro!: seg_frame [of ?h])
qed


text \<open>\<^verbatim>\<open>malloc\<close> hands out a block of exactly the units it wants, which are no longer free.\<close>

definition handed_out :: "uint \<Rightarrow> nat \<Rightarrow> uint \<Rightarrow> block list \<Rightarrow> uheap \<Rightarrow> uint \<Rightarrow> uheap \<Rightarrow> bool" where
  "handed_out base hi n bs h a h' \<longleftrightarrow>
     (\<exists>bs'. heap_list base bs' hi h' \<and> hsize h' a = n \<and> span (a, n) \<subseteq> spans bs \<and> spans bs' = spans bs - span (a, n)) \<and>
     (\<forall>x. unat x \<notin> {unat base..<unat base + 8} \<union> spans bs \<longrightarrow> hmem h' x = hmem h x)"

lemma take_block_ok:
  assumes h: "heap_list base bs hi h" and q: "(q, m) \<in> set bs" "n \<le> m" "0 < n"
    and pv: "pv \<in> insert base (fst ` set bs)" "hptr h pv = q" and hs: "hsize h q = m"
  shows "\<exists>a h'. take_block n pv q h = (units a 1, h') \<and> handed_out base hi n bs h a h'"
proof -
  obtain B1 B2 where bs: "bs = B1 @ (q, m) # B2" using q(1) by (metis split_list)
  note h' = h [unfolded bs]
  have p: "pv = fst (last ((base, 0) # B1))" using prev_unique [OF h'] pv bs by auto
  have g: "gapped (unat base + 7) (B1 @ (q, m) # B2) hi" using h' by (simp add: heap_list_def)
  note dis = gapped_disjoint [OF g]
  show ?thesis
  proof (cases "m = n")
    case True
    let ?h = "(set_ptr pv (hptr h q) h)\<lparr>freep := pv\<rparr>"
    note w = take_whole [OF h' p]
    have iq: "in_mem q" using heap_list_headers(2) [OF h, of "(q, m)"] q(1) by simp
    have t: "take_block n pv q h = (units q 1, ?h)" using True hs by (simp add: take_block_def)
    have "hsize ?h q = n" using header_other(2) [OF w(2) iq w(3)] hs True by simp
    moreover have "hmem ?h x = hmem h x" if "unat x \<notin> {unat base..<unat base + 8} \<union> spans bs" for x
    proof -
      have "unat x \<notin> {unat pv..<unat pv + 8}" using that w(4) bs by auto
      then show ?thesis using only_header_mem [OF only_header_set(1) [OF w(2)]] by simp
    qed
    ultimately have "handed_out base hi n bs h q ?h" unfolding handed_out_def
      using w(1) dis bs True by (intro conjI exI [of _ "B1 @ B2"]) auto
    then show ?thesis using t by blast
  next
    case False
    then have n: "n < m" using q(2) by simp
    let ?a = "units q (m - n)" let ?h = "(set_size ?a n (set_size q (m - n) h))\<lparr>freep := pv\<rparr>"
    note w = take_end [OF h' n q(3) pv(1) [unfolded bs]]
    have t: "take_block n pv q h = (units ?a 1, ?h)" using False hs by (simp add: take_block_def Let_def)
    have "hmem ?h x = hmem h x" if "unat x \<notin> {unat base..<unat base + 8} \<union> spans bs" for x
    proof -
      have "{unat q..<unat q + 8} \<subseteq> spans bs" "{unat ?a..<unat ?a + 8} \<subseteq> spans bs"
        using heap_list_spans [OF h q(1)] w(7) bs by auto
      then have "unat x \<notin> {unat q..<unat q + 8}" "unat x \<notin> {unat ?a..<unat ?a + 8}" using that by auto
      then show ?thesis using only_header_mem [OF only_header_set(2) [OF w(4)]] only_header_mem [OF only_header_set(2) [OF w(5)]] by simp
    qed
    then have "handed_out base hi n bs h ?a ?h" unfolding handed_out_def
      using w(1,2,3) dis bs by (intro conjI exI [of _ "B1 @ (q, m - n) # B2"]) auto
    then show ?thesis using t by blast
  qed
qed

subsection \<open>The search of \<^verbatim>\<open>malloc\<close>\<close>

lemma malloc_loop_skip:
  "seg h p us q \<Longrightarrow> \<forall>b \<in> set us. snd b < n \<and> fst b \<noteq> freep h \<Longrightarrow> hptr h prevp = p \<Longrightarrow>
   \<exists>pv. malloc_loop n prevp p h s = malloc_loop n pv q h s \<and> pv \<in> insert prevp (fst ` set us) \<and> hptr h pv = q"
proof (induction us arbitrary: p prevp)
  case (Cons b us)
  have "malloc_loop n prevp p h s = malloc_loop n p (hptr h p) h s" using Cons.prems by (subst malloc_loop.simps) auto
  moreover obtain pv where "malloc_loop n p (hptr h p) h s = malloc_loop n pv q h s" "pv \<in> insert p (fst ` set us)" "hptr h pv = q"
    using Cons.IH [of "hptr h p" p] Cons.prems by auto
  ultimately show ?case using Cons.prems by (intro exI [of _ pv]) auto
qed auto

lemma ring_from:
  assumes h: "heap_list base bs hi h"
  shows "\<exists>us. seg h (hptr h (freep h)) us (freep h) \<and> set us \<union> {(freep h, hsize h (freep h))} = set ((base, 0) # bs) \<and>
    freep h \<notin> fst ` set us"
proof -
  let ?L = "(base, 0) # bs"
  have "freep h \<in> fst ` set ?L" using h by (auto simp: heap_list_def)
  then obtain xs c ys where l: "?L = xs @ c # ys" "fst c = freep h" by (metis (no_types, lifting) imageE split_list)
  have "seg h base ?L base" using h by (simp add: heap_list_def)
  then have s: "seg h base xs (freep h)" "hsize h (freep h) = snd c" "seg h (hptr h (freep h)) ys base"
    unfolding l(1) seg_append using l(2) by auto
  have "seg h (hptr h (freep h)) (ys @ xs) (freep h)" unfolding seg_append using s by blast
  moreover have "(freep h, hsize h (freep h)) = c" using s(2) l(2) by (simp add: prod_eq_iff)
  then have "set (ys @ xs) \<union> {(freep h, hsize h (freep h))} = set ?L" unfolding l(1) by auto
  moreover have "ascending (xs @ c # ys)" using heap_list_ascending [OF h] unfolding l(1) .
  then have "freep h \<notin> fst ` set (ys @ xs)" unfolding l(2) [symmetric] by (auto simp: sorted_wrt_append)
  ultimately show ?thesis by blast
qed

lemma malloc_loop_found:
  assumes h: "heap_list base bs hi h" and n: "0 < n" and b: "b \<in> set bs" "n \<le> snd b"
  shows "\<exists>a h'. malloc_loop n (freep h) (hptr h (freep h)) h s = Some (URet (units a 1, h') s) \<and> handed_out base hi n bs h a h'"
proof -
  let ?f = "freep h" let ?c = "(freep h, hsize h (freep h))"
  obtain us where us: "seg h (hptr h ?f) us ?f" "set us \<union> {?c} = set ((base, 0) # bs)" "?f \<notin> fst ` set us" using ring_from [OF h] by blast
  have "b \<in> set us \<union> {?c}" unfolding us(2) using b(1) by simp
  then have "\<exists>x \<in> set (us @ [?c]). n \<le> snd x" using b(2) by (intro bexI [of _ b]) auto
  then obtain vs q ws where sp: "us @ [?c] = vs @ q # ws" "n \<le> snd q" "\<forall>x \<in> set vs. \<not> n \<le> snd x"
    by (rule split_list_first_propE)
  have s: "seg h (hptr h ?f) vs (fst q) \<and> hsize h (fst q) = snd q"
  proof -
    have "\<exists>z. seg h (hptr h ?f) (us @ [?c]) z" using us(1) unfolding seg_append by auto
    then show ?thesis unfolding sp(1) seg_append by auto
  qed
  have vsu: "set vs \<subseteq> set us" using sp(1) by (cases ws rule: rev_cases) auto
  have "snd x < n \<and> fst x \<noteq> ?f" if x: "x \<in> set vs" for x
  proof -
    have "fst x \<in> fst ` set us" using vsu x by (intro imageI) blast
    then show ?thesis using us(3) bspec [OF sp(3) x] not_le by metis
  qed
  then have "\<forall>x \<in> set vs. snd x < n \<and> fst x \<noteq> ?f" by blast
  then obtain pv where pv: "malloc_loop n ?f (hptr h ?f) h s = malloc_loop n pv (fst q) h s" "pv \<in> insert ?f (fst ` set vs)" "hptr h pv = fst q"
    using malloc_loop_skip s by blast
  have "q \<in> set (us @ [?c])" unfolding sp(1) by simp
  then have "q \<in> set ((base, 0) # bs)" using us(2) by auto
  then have q: "(fst q, snd q) \<in> set bs" using sp(2) n by auto
  have pvm: "pv \<in> insert base (fst ` set bs)"
  proof -
    have "pv \<in> fst ` (set us \<union> {?c})" using pv(2) vsu by auto
    then show ?thesis unfolding us(2) by auto
  qed
  have "malloc_loop n pv (fst q) h s = Some (URet (take_block n pv (fst q) h) s)"
    using s sp(2) by (subst malloc_loop.simps) simp
  then show ?thesis using take_block_ok [OF h q sp(2) n pvm pv(3)] s pv(1) by auto
qed

lemma malloc_loop_full:
  assumes h: "heap_list base bs hi h" and n: "0 < n" "\<And>b. b \<in> set bs \<Longrightarrow> snd b < n"
  shows "malloc_loop n (freep h) (hptr h (freep h)) h s =
    (case morecore n h s of
       None \<Rightarrow> None
     | Some r \<Rightarrow>
         (case r of
            URet x s \<Rightarrow> if fst x = 0 then Some (URet (0, snd x) s) else malloc_loop n (fst x) (hptr (snd x) (fst x)) (snd x) s
          | UBlock s \<Rightarrow> Some (UBlock s) | UExit s \<Rightarrow> Some (UExit s) | UFault \<Rightarrow> Some UFault))"
proof -
  let ?f = "freep h"
  obtain us where us: "seg h (hptr h ?f) us ?f" "set us \<union> {(?f, hsize h ?f)} = set ((base, 0) # bs)" "?f \<notin> fst ` set us"
    using ring_from [OF h] by blast
  have sm: "snd b < n" if "b \<in> set us \<union> {(?f, hsize h ?f)}" for b using that n(1) n(2) [of b] unfolding us(2) by auto
  then have "\<forall>b \<in> set us. snd b < n \<and> fst b \<noteq> ?f" using us(3) by (metis UnCI image_eqI)
  then obtain pv where pv: "malloc_loop n ?f (hptr h ?f) h s = malloc_loop n pv ?f h s"
    using malloc_loop_skip [OF us(1)] by blast
  have "\<not> n \<le> hsize h ?f" using sm [of "(?f, hsize h ?f)"] by auto
  then show ?thesis unfolding pv by (subst malloc_loop.simps) simp
qed


section \<open>The heap of a program\<close>

text \<open>
  \<open>M\<close> is the memory the program got from \<^verbatim>\<open>sbrk\<close>, \<open>A\<close> the blocks that \<^verbatim>\<open>malloc\<close> handed out and that were not freed since.  The free
  blocks make up the rest of \<open>M\<close>.
\<close>

definition held :: "block set \<Rightarrow> nat set" where
  "held A = (\<Union>b \<in> A. span b)"

definition held_ok :: "uint \<Rightarrow> nat set \<Rightarrow> block set \<Rightarrow> uheap \<Rightarrow> bool" where
  "held_ok base M A h \<longleftrightarrow> base \<noteq> 0 \<and> unat base + 8 \<le> 2 ^ 31 \<and> M \<subseteq> {unat base + 8..<2 ^ 31} \<and>
     (\<forall>b \<in> A. 0 < snd b \<and> hsize h (fst b) = snd b \<and> span b \<subseteq> M) \<and> (\<forall>b \<in> A. \<forall>c \<in> A. b \<noteq> c \<longrightarrow> span b \<inter> span c = {})"

definition heap_inv :: "uint \<Rightarrow> nat set \<Rightarrow> block set \<Rightarrow> uheap \<Rightarrow> bool" where
  "heap_inv base M A h \<longleftrightarrow> held_ok base M A h \<and>
     (if freep h = 0 then A = {} \<and> M = {} else \<exists>bs. heap_list base bs (2 ^ 31) h \<and> spans bs = M - held A)"

text \<open>What the system call promises: nothing, or memory above the data of the program that it did not have.\<close>

definition sbrk_ok :: "uint \<Rightarrow> nat set \<Rightarrow> nat \<Rightarrow> reply \<Rightarrow> bool" where
  "sbrk_ok base M n r \<longleftrightarrow> rv r = -1 \<or>
     (int (unat base) + 8 \<le> rv r \<and> rv r + 8 * int n \<le> 2 ^ 31 \<and> {nat (rv r)..<nat (rv r) + 8 * n} \<inter> M = {})"

lemma hsize_frame:
  assumes "0 < snd b" "block_end b < 2 ^ 32" "\<And>x. unat x \<in> span b \<Longrightarrow> hmem h' x = hmem h x"
  shows "hsize h' (fst b) = hsize h (fst b)"
  unfolding hsize_def
proof (rule ld32_cong)
  fix k :: nat assume k: "k < 4"
  have "unat (fst b + of_nat (4 + k)) = unat (fst b) + (4 + k)"
    using unat_add_of_nat [of "fst b" "4 + k"] block_end_gt [OF assms(1)] assms(2) k by simp
  then have "unat (fst b + of_nat (4 + k)) \<in> span b" using block_end_gt [OF assms(1)] k by (simp add: span_def)
  then show "hmem h' (fst b + 4 + of_nat k) = hmem h (fst b + 4 + of_nat k)" using assms(3) by (simp add: ac_simps)
qed

lemma held_block: "held_ok base M A h \<Longrightarrow> b \<in> A \<Longrightarrow> 0 < snd b \<and> block_end b \<le> 2 ^ 31 \<and> unat base + 8 \<le> unat (fst b)"
proof -
  assume a: "held_ok base M A h" "b \<in> A"
  have "0 < snd b" "span b \<subseteq> {unat base + 8..<2 ^ 31}" using a by (auto simp: held_ok_def)
  moreover have "unat (fst b) \<in> span b" "block_end b - 1 \<in> span b" using block_end_gt [of b] calculation(1) by (auto simp: span_def)
  ultimately show ?thesis using block_end_gt [of b] by force
qed

text \<open>A change of the free blocks leaves the held blocks alone.\<close>

lemma held_frame:
  assumes "held_ok base M A h" "\<And>x. unat x \<in> held A \<Longrightarrow> hmem h' x = hmem h x" "b \<in> A"
  shows "hsize h' (fst b) = snd b"
proof -
  have "hsize h' (fst b) = hsize h (fst b)"
    using held_block [OF assms(1,3)] assms(2,3) by (intro hsize_frame) (auto simp: held_def)
  then show ?thesis using assms(1,3) by (simp add: held_ok_def)
qed

text \<open>Bytes of the free list are not bytes of a held block.\<close>

lemma held_outside:
  assumes "held_ok base M A h" "spans bs = M - held A" "y \<in> held A"
  shows "y \<notin> {unat base..<unat base + 8} \<union> spans bs"
proof -
  have "held A \<subseteq> M" "M \<subseteq> {unat base + 8..<2 ^ 31}" using assms(1) by (auto simp: held_ok_def held_def)
  then have "unat base + 8 \<le> y" using assms(3) by auto
  then show ?thesis using assms by auto
qed

lemma heap_list_freep: "heap_list base bs hi h \<Longrightarrow> freep h \<noteq> 0"
proof -
  assume "heap_list base bs hi h"
  then have "base \<noteq> 0" "freep h \<in> insert base (fst ` set bs)" "gapped (unat base + 7) bs hi" by (auto simp: heap_list_def)
  then show ?thesis using gapped_mem [of "unat base + 7" bs hi] by force
qed

lemma handed_out_inv:
  assumes inv: "held_ok base M A h0" and l: "heap_list base bs (2 ^ 31) h" "spans bs = M - held A"
    and keep: "\<And>x. unat x \<in> held A \<Longrightarrow> hmem h x = hmem h0 x" and n: "0 < n" and out: "handed_out base (2 ^ 31) n bs h a h'"
  shows "heap_inv base M (insert (a, n) A) h'" "span (a, n) \<inter> held A = {}" "\<And>x. unat x \<in> held A \<Longrightarrow> hmem h' x = hmem h0 x"
proof -
  obtain bs' where bs': "heap_list base bs' (2 ^ 31) h'" "hsize h' a = n" "span (a, n) \<subseteq> spans bs" "spans bs' = spans bs - span (a, n)"
    and fr: "\<And>x. unat x \<notin> {unat base..<unat base + 8} \<union> spans bs \<Longrightarrow> hmem h' x = hmem h x"
    using out unfolding handed_out_def by blast
  show dis: "span (a, n) \<inter> held A = {}" using bs'(3) l(2) by auto
  show keep': "hmem h' x = hmem h0 x" if "unat x \<in> held A" for x using fr held_outside [OF inv l(2) that] keep [OF that] by simp
  have "freep h' \<noteq> 0" by (rule heap_list_freep [OF bs'(1)])
  moreover have "spans bs' = M - held (insert (a, n) A)" using bs'(4) l(2) by (auto simp: held_def)
  moreover have "\<forall>b \<in> A. \<forall>c \<in> A. b \<noteq> c \<longrightarrow> span b \<inter> span c = {}" using inv by (simp add: held_ok_def)
  moreover have "span (a, n) \<inter> span b = {}" if "b \<in> A" for b using dis that by (auto simp: held_def)
  moreover have "0 < snd b \<and> hsize h' (fst b) = snd b \<and> span b \<subseteq> M" if "b \<in> A" for b
    using held_frame [OF inv keep' that] that inv by (auto simp: held_ok_def)
  moreover have "span (a, n) \<subseteq> M" using bs'(3) l(2) by auto
  ultimately show "heap_inv base M (insert (a, n) A) h'"
    using inv bs'(1,2) n unfolding heap_inv_def held_ok_def by (auto simp: Int_commute)
qed


text \<open>Adjacent free blocks are joined, so memory that is free is in one block.\<close>

lemma gapped_interval:
  "gapped lo bs hi \<Longrightarrow> {a..<b} \<subseteq> spans bs \<Longrightarrow> a < b \<Longrightarrow> \<exists>c \<in> set bs. {a..<b} \<subseteq> span c"
proof (induction bs arbitrary: lo)
  case (Cons c bs)
  have above: "block_end c < y" if "y \<in> spans bs" for y
    using that gapped_mem [of "block_end c" bs hi] Cons.prems(1) by (force simp: spans_def span_def)
  show ?case
  proof (cases "a \<in> span c")
    case True
    have "block_end c \<notin> spans (c # bs)" using above by (auto simp: span_def)
    then have "block_end c \<notin> {a..<b}" using Cons.prems(2) by blast
    then have "{a..<b} \<subseteq> span c" using True by (auto simp: span_def)
    then show ?thesis by simp
  next
    case False
    then have "a \<in> spans bs" using Cons.prems(2,3) by auto
    then have "block_end c < a" by (rule above)
    then have "{a..<b} \<subseteq> spans bs" using Cons.prems(2) by (force simp: span_def)
    then show ?thesis using Cons.IH [of "block_end c"] Cons.prems by auto
  qed
qed simp

definition core_units :: "uint \<Rightarrow> uint" where
  "core_units n = (if n < 4096 then 4096 else n)"

lemma morecore_ok:
  assumes inv: "held_ok base M A h0" and l: "heap_list base bs (2 ^ 31) h" "spans bs = M - held A"
    and n: "8 * unat (core_units n) \<le> 2 ^ 31" and r: "replies s = r # rs" "rv r \<noteq> -1" "sbrk_ok base M (unat (core_units n)) r"
  defines "hp \<equiv> word_of_int (rv r) :: uint"
  shows "\<exists>h' s' bs' c. morecore n h s = Some (URet (freep h', h') s') \<and> heap_list base bs' (2 ^ 31) h' \<and>
    spans bs' = spans bs \<union> span (hp, core_units n) \<and> c \<in> set bs' \<and> n \<le> snd c \<and> replies s' = rs \<and>
    (\<forall>x. unat x \<notin> {unat base..<unat base + 8} \<union> spans bs \<union> span (hp, core_units n) \<longrightarrow> hmem h' x = hmem h x)"
    and "unat hp = nat (rv r)" "span (hp, core_units n) \<inter> M = {}" "span (hp, core_units n) \<subseteq> {unat base + 8..<2 ^ 31}"
proof -
  let ?nu = "core_units n" let ?b = "(hp, core_units n)" let ?h = "set_size hp (core_units n) h"
  have nu: "0 < ?nu" "n \<le> ?nu" by (auto simp: core_units_def word_less_nat_alt word_le_nat_alt)
  have rv: "int (unat base) + 8 \<le> rv r" "rv r + 8 * int (unat ?nu) \<le> 2 ^ 31" using r(2,3) by (auto simp: sbrk_ok_def)
  have "0 < unat ?nu" using nu(1) by (simp add: word_less_nat_alt)
  moreover have "rv r + 8 * int (unat ?nu) \<le> 2147483648" using rv(2) by simp
  ultimately have "0 \<le> rv r" "rv r < 4294967296" and rn: "unat base + 8 \<le> nat (rv r)" "nat (rv r) + 8 * unat ?nu \<le> 2147483648"
    using rv(1) by linarith+
  then have "uint hp = rv r" unfolding hp_def by (simp add: uint_word_of_int)
  then show hp: "unat hp = nat (rv r)" by (simp add: unat_eq_nat_uint)
  have e: "block_end ?b = nat (rv r) + 8 * unat ?nu" using hp by (simp add: block_end_def)
  then have sp: "span ?b = {nat (rv r)..<nat (rv r) + 8 * unat ?nu}" using hp by (simp add: span_def)
  show dis: "span ?b \<inter> M = {}" using r(2,3) unfolding sp by (auto simp: sbrk_ok_def)
  show rng: "span ?b \<subseteq> {unat base + 8..<2 ^ 31}" unfolding sp using rn by auto
  have ih: "in_mem hp" using block_in_mem [of ?b] nu(1) e rn by simp
  have g: "gapped (unat base + 7) bs (2 ^ 31)" using l(1) by (simp add: heap_list_def)
  have out: "outside base bs (2 ^ 31) ?b" using nu(1) e rn hp dis l(2) by (auto simp: outside_def)
  have far: "in_mem (fst c) \<and> apart hp (fst c)" if c: "c \<in> set ((base, 0) # bs)" for c
  proof (cases "c \<in> set bs")
    case True
    have "span ?b \<inter> span c = {}" using out True by (auto simp: outside_def spans_def)
    then have "block_end ?b \<le> unat (fst c) \<or> block_end c \<le> unat hp"
      using spans_disjoint [of ?b c] gapped_mem [OF g True] nu(1) by auto
    then show ?thesis using heap_list_headers(2) [OF l(1) c] block_end_gt [of ?b] block_end_gt [of c] gapped_mem [OF g True] nu(1)
      by (auto simp: apart_def)
  next
    case False
    then show ?thesis using c heap_list_headers(2) [OF l(1) c] hp rn by (auto simp: apart_def)
  qed
  note oh = only_header_set(2) [OF ih, of h ?nu]
  have "seg ?h base ((base, 0) # bs) base"
    using l(1) by (intro seg_only_header [OF _ oh ih]) (use far in \<open>auto simp: heap_list_def\<close>)
  then have l': "heap_list base bs (2 ^ 31) ?h" using l(1) by (simp add: heap_list_def)
  obtain h' bs' where f: "free (units hp 1) ?h = Some h'" "heap_list base bs' (2 ^ 31) h'" "spans bs' = spans bs \<union> span ?b"
    and fr: "\<And>x. unat x \<notin> {unat base..<unat base + 8} \<union> spans bs \<union> span ?b \<Longrightarrow> hmem h' x = hmem ?h x"
    using free_ok [OF l' out] by auto
  have "gapped (unat base + 7) bs' (2 ^ 31)" using f(2) by (simp add: heap_list_def)
  moreover have "{unat hp..<block_end ?b} \<subseteq> spans bs'" unfolding f(3) by (simp add: span_def)
  moreover have lt: "unat hp < block_end ?b" using block_end_gt [of ?b] nu(1) by simp
  ultimately obtain c where c: "c \<in> set bs'" "{unat hp..<block_end ?b} \<subseteq> span c" using gapped_interval by blast
  then have "n \<le> snd c" using lt nu(2) by (auto simp: span_def block_end_def word_le_nat_alt)
  moreover have "hmem h' x = hmem h x" if x: "unat x \<notin> {unat base..<unat base + 8} \<union> spans bs \<union> span ?b" for x
  proof -
    have "unat x \<notin> {unat hp..<unat hp + 8}" using x block_end_gt [of ?b] nu(1) by (auto simp: span_def)
    then show ?thesis using fr [OF x] only_header_mem [OF oh] by simp
  qed
  moreover have "morecore n h s = Some (URet (freep h', h') (s\<lparr>replies := rs, trace := trace s @ [USbrk (sint (?nu * 8))]\<rparr>))"
    using f(1) r(1,2) by (simp add: morecore_def sys_def core_units_def hp_def sizeof_Header_def Let_def)
  ultimately show "\<exists>h' s' bs' c. morecore n h s = Some (URet (freep h', h') s') \<and> heap_list base bs' (2 ^ 31) h' \<and>
    spans bs' = spans bs \<union> span ?b \<and> c \<in> set bs' \<and> n \<le> snd c \<and> replies s' = rs \<and>
    (\<forall>x. unat x \<notin> {unat base..<unat base + 8} \<union> spans bs \<union> span ?b \<longrightarrow> hmem h' x = hmem h x)"
    using f(2,3) c(1) by (intro exI [of _ h'] exI [of _ "s\<lparr>replies := rs, trace := trace s @ [USbrk (sint (?nu * 8))]\<rparr>"] exI [of _ bs'] exI [of _ c]) simp
qed


lemma held_ok_more:
  "held_ok base M A h \<Longrightarrow> N \<subseteq> {unat base + 8..<2 ^ 31} \<Longrightarrow> held_ok base (M \<union> N) A h"
  by (auto simp: held_ok_def)

lemma held_ok_keep:
  "held_ok base M A h \<Longrightarrow> (\<And>x. unat x \<in> held A \<Longrightarrow> hmem h' x = hmem h x) \<Longrightarrow> held_ok base M A h'"
  using held_frame [of base M A h h'] by (auto simp: held_ok_def)

text \<open>The possible ends of \<^verbatim>\<open>malloc\<close>: it waits for the kernel; there is no memory; it hands out a new block.\<close>

definition malloc_ends :: "uint \<Rightarrow> nat set \<Rightarrow> block set \<Rightarrow> uint \<Rightarrow> uheap \<Rightarrow> usr \<Rightarrow> (uint \<times> uheap) uout option \<Rightarrow> bool" where
  "malloc_ends base M A n h s r \<longleftrightarrow>
     (replies s = [] \<and> (\<exists>s'. r = Some (UBlock s'))) \<or>
     (\<exists>h' s'. r = Some (URet (0, h') s') \<and> rv (hd (replies s)) = -1 \<and> replies s' = tl (replies s) \<and> heap_inv base M A h' \<and>
        (\<forall>x. unat x \<in> held A \<longrightarrow> hmem h' x = hmem h x)) \<or>
     (\<exists>a h' s' M'. r = Some (URet (units a 1, h') s') \<and> heap_inv base M' (insert (a, n) A) h' \<and> span (a, n) \<inter> held A = {} \<and>
        (\<forall>x. unat x \<in> held A \<longrightarrow> hmem h' x = hmem h x) \<and>
        (M' = M \<and> replies s' = replies s \<or>
         M' = M \<union> {nat (rv (hd (replies s)))..<nat (rv (hd (replies s))) + 8 * unat (core_units n)} \<and> replies s \<noteq> [] \<and>
           replies s' = tl (replies s)))"

lemma malloc_loop_ok:
  assumes inv: "held_ok base M A h0" and l: "heap_list base bs (2 ^ 31) h" "spans bs = M - held A"
    and keep: "\<And>x. unat x \<in> held A \<Longrightarrow> hmem h x = hmem h0 x" and n: "0 < n" "8 * unat (core_units n) \<le> 2 ^ 31"
    and r: "\<And>r rs. replies s = r # rs \<Longrightarrow> sbrk_ok base M (unat (core_units n)) r"
  shows "malloc_ends base M A n h0 s (malloc_loop n (freep h) (hptr h (freep h)) h s)" (is "malloc_ends _ _ _ _ _ _ ?r")
proof (cases "\<exists>b \<in> set bs. n \<le> snd b")
  case True
  then obtain a h' where a: "?r = Some (URet (units a 1, h') s)" "handed_out base (2 ^ 31) n bs h a h'"
    using malloc_loop_found [OF l(1) n(1)] by blast
  show ?thesis unfolding malloc_ends_def using a(1) handed_out_inv [OF inv l keep n(1) a(2)] by blast
next
  case False
  then have full: "?r = (case morecore n h s of None \<Rightarrow> None | Some r \<Rightarrow>
         (case r of
            URet x s \<Rightarrow> if fst x = 0 then Some (URet (0, snd x) s) else malloc_loop n (fst x) (hptr (snd x) (fst x)) (snd x) s
          | UBlock s \<Rightarrow> Some (UBlock s) | UExit s \<Rightarrow> Some (UExit s) | UFault \<Rightarrow> Some UFault))"
    by (intro malloc_loop_full [OF l(1) n(1)]) (auto simp: not_le)
  show ?thesis
  proof (cases "replies s")
    case Nil
    then show ?thesis unfolding malloc_ends_def full by (simp add: morecore_def sys_def Let_def)
  next
    case (Cons q qs)
    show ?thesis
    proof (cases "rv q = -1")
      case True
      have "heap_inv base M A h" using held_ok_keep [OF inv keep] l heap_list_freep [OF l(1)] by (auto simp: heap_inv_def)
      then show ?thesis unfolding malloc_ends_def full using Cons True keep by (simp add: morecore_def sys_def Let_def)
    next
      case False
      let ?b = "(word_of_int (rv q), core_units n)"
      note m = morecore_ok [OF inv l n(2) Cons False r [OF Cons]]
      obtain h1 s1 bs1 c where h1: "morecore n h s = Some (URet (freep h1, h1) s1)" "heap_list base bs1 (2 ^ 31) h1"
        "spans bs1 = spans bs \<union> span ?b" "c \<in> set bs1" "n \<le> snd c" "replies s1 = qs"
        "\<And>x. unat x \<notin> {unat base..<unat base + 8} \<union> spans bs \<union> span ?b \<Longrightarrow> hmem h1 x = hmem h x" using m(1) by blast
      have sub: "held A \<subseteq> M" using inv by (auto simp: held_ok_def held_def)
      have k1: "hmem h1 x = hmem h0 x" if x: "unat x \<in> held A" for x
        using h1(7) [of x] held_outside [OF inv l(2) x] m(3) sub x keep [OF x] by auto
      have inv1: "held_ok base (M \<union> span ?b) A h0" by (rule held_ok_more [OF inv m(4)])
      have l1: "spans bs1 = M \<union> span ?b - held A" using h1(3) l(2) m(3) sub by auto
      obtain a h' where a: "malloc_loop n (freep h1) (hptr h1 (freep h1)) h1 s1 = Some (URet (units a 1, h') s1)"
        "handed_out base (2 ^ 31) n bs1 h1 a h'" using malloc_loop_found [OF h1(2) n(1) h1(4,5)] by blast
      have e: "?r = Some (URet (units a 1, h') s1)" unfolding full using h1(1) a(1) heap_list_freep [OF h1(2)] by simp
      have "span ?b = {nat (rv q)..<nat (rv q) + 8 * unat (core_units n)}" using m(2) by (simp add: span_def block_end_def)
      then show ?thesis unfolding malloc_ends_def e using handed_out_inv [OF inv1 h1(2) l1 k1 n(1) a(2)] Cons h1(6)
        by (metis list.sel(1,3) list.distinct(1))
    qed
  qed
qed


text \<open>The units \<^verbatim>\<open>malloc\<close> asks for: the bytes, rounded up, and the header.\<close>

definition nunits :: "uint \<Rightarrow> uint" where
  "nunits nbytes = (nbytes + sizeof_Header - 1) div sizeof_Header + 1"

lemma unat_nunits: "unat nbytes + 7 < 2 ^ 32 \<Longrightarrow> unat (nunits nbytes) = (unat nbytes + 7) div 8 + 1"
proof -
  assume a: "unat nbytes + 7 < 2 ^ 32"
  have "unat (nbytes + 7) = unat nbytes + 7" using a unat_add_of_nat [of nbytes 7] by simp
  then have d: "unat ((nbytes + 7) div 8) = (unat nbytes + 7) div 8" by (simp add: unat_div)
  have "(unat nbytes + 7) div 8 + 1 < 2 ^ 32" using a by simp
  then have "unat ((nbytes + 7) div 8 + 1) = (unat nbytes + 7) div 8 + 1" using d unat_add_of_nat [of "(nbytes + 7) div 8" 1] by simp
  then show ?thesis by (simp add: nunits_def sizeof_Header_def add.commute)
qed

lemma nunits_bounds:
  assumes "unat nbytes < 2 ^ 31 - 16"
  shows "0 < nunits nbytes" "8 * unat (core_units (nunits nbytes)) \<le> 2 ^ 31" "unat nbytes \<le> 8 * (unat (nunits nbytes) - 1)"
proof -
  have u: "unat (nunits nbytes) = (unat nbytes + 7) div 8 + 1" using assms by (intro unat_nunits) simp
  then show "0 < nunits nbytes" "unat nbytes \<le> 8 * (unat (nunits nbytes) - 1)" by (auto simp: word_less_nat_alt)
  show "8 * unat (core_units (nunits nbytes)) \<le> 2 ^ 31" using u assms by (auto simp: core_units_def)
qed

lemma malloc_inv:
  assumes inv: "heap_inv base M A h" and n: "0 < nunits nbytes" "8 * unat (core_units (nunits nbytes)) \<le> 2 ^ 31"
    and r: "\<And>r rs. replies s = r # rs \<Longrightarrow> sbrk_ok base M (unat (core_units (nunits nbytes))) r"
  shows "malloc_ends base M A (nunits nbytes) h s (malloc base nbytes h s)"
proof (cases "freep h = 0")
  case True
  let ?h = "set_size base 0 (set_ptr base base (h\<lparr>freep := base\<rparr>))"
  have ok: "held_ok base M A h" "A = {}" "M = {}" using inv True by (auto simp: heap_inv_def)
  then have b: "in_mem base" "base \<noteq> 0" "unat base + 8 \<le> 2 ^ 31" by (auto simp: held_ok_def in_mem_def)
  have "heap_list base [] (2 ^ 31) ?h" using b header_part(1) [OF b(1)] by (simp add: heap_list_def)
  then show ?thesis using malloc_loop_ok [OF ok(1), of "[]" ?h "nunits nbytes" s] ok n r True
    by (simp add: malloc_def nunits_def held_def Let_def)
next
  case False
  then obtain bs where "held_ok base M A h" "heap_list base bs (2 ^ 31) h" "spans bs = M - held A" using inv by (auto simp: heap_inv_def)
  then show ?thesis using malloc_loop_ok [of base M A h bs h "nunits nbytes" s] n r False
    by (simp add: malloc_def nunits_def Let_def)
qed

lemma free_inv:
  assumes inv: "heap_inv base M A h" and b: "b \<in> A"
  shows "\<exists>h'. free (units (fst b) 1) h = Some h' \<and> heap_inv base M (A - {b}) h' \<and>
    (\<forall>x. unat x \<in> held (A - {b}) \<longrightarrow> hmem h' x = hmem h x)"
proof -
  obtain bs where ok: "held_ok base M A h" and l: "heap_list base bs (2 ^ 31) h" "spans bs = M - held A"
    using inv b by (auto simp: heap_inv_def split: if_splits)
  note hb = held_block [OF ok b]
  have "span c \<inter> span b = {}" if "c \<in> A - {b}" for c using ok b that unfolding held_ok_def by blast
  then have sb: "span b \<subseteq> held A" "held A \<subseteq> M" "held (A - {b}) \<inter> span b = {}" "held (A - {b}) \<subseteq> held A" "held A = held (A - {b}) \<union> span b"
    using b ok unfolding held_def held_ok_def by blast+
  have "outside base bs (2 ^ 31) b" using hb l(2) sb by (auto simp: outside_def)
  moreover have "hsize h (fst b) = snd b" using ok b by (simp add: held_ok_def)
  ultimately obtain h' bs' where f: "free (units (fst b) 1) h = Some h'" "heap_list base bs' (2 ^ 31) h'" "spans bs' = spans bs \<union> span b"
    "\<And>x. unat x \<notin> {unat base..<unat base + 8} \<union> spans bs \<union> span b \<Longrightarrow> hmem h' x = hmem h x" using free_ok [OF l(1)] by blast
  have k: "hmem h' x = hmem h x" if x: "unat x \<in> held (A - {b})" for x
    using f(4) [of x] held_outside [OF ok l(2), of "unat x"] x sb(3,4) by blast
  have "held_ok base M (A - {b}) h" using ok by (auto simp: held_ok_def)
  then have "held_ok base M (A - {b}) h'" using k by (rule held_ok_keep)
  moreover have "spans bs' = M - held (A - {b})" using f(3) l(2) sb by auto
  ultimately show ?thesis using f(1,2) k heap_list_freep [OF f(2)] by (auto simp: heap_inv_def)
qed

text \<open>A program writes in the blocks it holds, behind their headers.\<close>

lemma header_write:
  assumes "in_mem q" "unat x \<notin> {unat q..<unat q + 8}"
  shows "hptr (h\<lparr>hmem := (hmem h)(x := v)\<rparr>) q = hptr h q" "hsize (h\<lparr>hmem := (hmem h)(x := v)\<rparr>) q = hsize h q"
proof -
  have "q + of_nat k \<noteq> x" if "k < 8" for k using assms that unat_add_of_nat [of q k] by (auto simp: in_mem_def)
  from this [of 0] this [of 1] this [of 2] this [of 3] this [of 4] this [of 5] this [of 6] this [of 7]
  show "hptr (h\<lparr>hmem := (hmem h)(x := v)\<rparr>) q = hptr h q" "hsize (h\<lparr>hmem := (hmem h)(x := v)\<rparr>) q = hsize h q"
    by (simp_all add: hptr_def hsize_def ld32_def add.assoc)
qed

lemma write_inv:
  assumes inv: "heap_inv base M A h" and b: "b \<in> A" "unat x \<in> {unat (fst b) + 8..<block_end b}"
  shows "heap_inv base M A (h\<lparr>hmem := (hmem h)(x := v)\<rparr>)" (is "heap_inv base M A ?h")
proof -
  obtain bs where ok: "held_ok base M A h" and l: "heap_list base bs (2 ^ 31) h" "spans bs = M - held A"
    using inv b(1) by (auto simp: heap_inv_def split: if_splits)
  have x: "unat x \<in> span b" using b by (auto simp: span_def)
  then have "unat x \<in> held A" using b(1) by (auto simp: held_def)
  note out = held_outside [OF ok l(2) this]
  have "seg ?h base ((base, 0) # bs) base"
  proof (rule seg_frame)
    show "seg h base ((base, 0) # bs) base" using l(1) by (simp add: heap_list_def)
    fix c assume c: "c \<in> set ((base, 0) # bs)"
    then have "{unat (fst c)..<unat (fst c) + 8} \<subseteq> {unat base..<unat base + 8} \<union> spans bs" using heap_list_spans [OF l(1), of c] by auto
    then have "unat x \<notin> {unat (fst c)..<unat (fst c) + 8}" using out by blast
    then show "hptr ?h (fst c) = hptr h (fst c) \<and> hsize ?h (fst c) = hsize h (fst c)"
      using header_write [OF heap_list_headers(2) [OF l(1) c]] by blast
  qed
  then have "heap_list base bs (2 ^ 31) ?h" using l(1) by (simp add: heap_list_def)
  moreover have "hsize ?h (fst c) = hsize h (fst c)" if c: "c \<in> A" for c
  proof -
    have "in_mem (fst c)" using held_block [OF ok c] block_in_mem [of c] by simp
    moreover have "unat x \<notin> {unat (fst c)..<unat (fst c) + 8}"
    proof (cases "c = b")
      case False
      then have "span b \<inter> span c = {}" using ok b(1) c by (auto simp: held_ok_def)
      then show ?thesis using x held_block [OF ok c] block_end_gt [of c] by (auto simp: span_def)
    qed (use b in auto)
    ultimately show ?thesis by (rule header_write)
  qed
  then have "held_ok base M A ?h" using ok by (simp add: held_ok_def)
  ultimately show ?thesis using l heap_list_freep [OF l(1)] by (auto simp: heap_inv_def)
qed


text \<open>The states of a program that frees only blocks it holds, and writes only in them.\<close>

inductive heap_reach :: "uint \<Rightarrow> nat set \<Rightarrow> block set \<Rightarrow> uheap \<Rightarrow> bool" for base where
  start: "base \<noteq> 0 \<Longrightarrow> unat base + 8 \<le> 2 ^ 31 \<Longrightarrow> freep h = 0 \<Longrightarrow> heap_reach base {} {} h"
| alloc: "heap_reach base M A h \<Longrightarrow> unat nbytes < 2 ^ 31 - 16 \<Longrightarrow>
    (\<forall>r rs. replies s = r # rs \<longrightarrow> sbrk_ok base M (unat (core_units (nunits nbytes))) r) \<Longrightarrow>
    malloc base nbytes h s = Some (URet (p, h') s') \<Longrightarrow>
    M' = (if p = 0 \<or> replies s' = replies s then M
          else M \<union> {nat (rv (hd (replies s)))..<nat (rv (hd (replies s))) + 8 * unat (core_units (nunits nbytes))}) \<Longrightarrow>
    heap_reach base M' (if p = 0 then A else insert (p - 8, nunits nbytes) A) h'"
| release: "heap_reach base M A h \<Longrightarrow> b \<in> A \<Longrightarrow> free (units (fst b) 1) h = Some h' \<Longrightarrow> heap_reach base M (A - {b}) h'"
| store: "heap_reach base M A h \<Longrightarrow> b \<in> A \<Longrightarrow> unat x \<in> {unat (fst b) + 8..<block_end b} \<Longrightarrow>
    heap_reach base M A (h\<lparr>hmem := (hmem h)(x := v)\<rparr>)"

lemma heap_reach_inv: "heap_reach base M A h \<Longrightarrow> heap_inv base M A h"
proof (induction rule: heap_reach.induct)
  case (start h)
  then show ?case by (simp add: heap_inv_def held_ok_def)
next
  case (alloc M A h nbytes s p h' s' M')
  have "malloc_ends base M A (nunits nbytes) h s (Some (URet (p, h') s'))"
    using malloc_inv [OF alloc.IH nunits_bounds(1,2) [OF alloc.hyps(2)], of s] alloc.hyps(3,4) by simp
  then consider (none) "p = 0" "heap_inv base M A h'"
    | (some) a M1 where "p = units a 1" "heap_inv base M1 (insert (a, nunits nbytes) A) h'"
        "M1 = M \<and> replies s' = replies s \<or>
         M1 = M \<union> {nat (rv (hd (replies s)))..<nat (rv (hd (replies s))) + 8 * unat (core_units (nunits nbytes))} \<and> replies s \<noteq> [] \<and>
           replies s' = tl (replies s)"
    unfolding malloc_ends_def by blast
  then show ?case
  proof cases
    case some
    have hb: "block_end (a, nunits nbytes) \<le> 2 ^ 31" "0 < nunits nbytes"
      using some(2) held_block [of base M1 _ h' "(a, nunits nbytes)"] by (auto simp: heap_inv_def)
    then have "unat (a + 8) = unat a + 8" using block_end_gt [of "(a, nunits nbytes)"] unat_add_of_nat [of a 8] by simp
    then have p: "p \<noteq> 0" "p - 8 = a" using some(1) by (auto simp: units_def sizeof_Header_def)
    have "M1 = M'" using some(3) alloc.hyps(5) p(1) by (cases "replies s") auto
    then show ?thesis using some(2) p by simp
  qed (use alloc.hyps(5) in auto)
next
  case (release M A h b h')
  then show ?case using free_inv [OF release.IH release.hyps(2)] by auto
next
  case (store M A h b x v)
  then show ?case using write_inv by blast
qed


section \<open>Properties\<close>

text \<open>
  (C5) The heap of a program that frees only blocks it holds and writes only in them, whatever it does and whatever \<^verbatim>\<open>sbrk\<close> answers: the
  blocks it holds do not overlap and, with the free blocks, which are in the order of their addresses and never adjacent, make up exactly the
  memory it got.  \<^verbatim>\<open>malloc\<close> always returns (or waits for \<^verbatim>\<open>sbrk\<close>): it fails only when \<^verbatim>\<open>sbrk\<close> did, or returns a block for
  at least the bytes it was asked for that overlaps no held block, and it changes no byte of the held blocks.  \<^verbatim>\<open>free\<close> always returns
  and changes no byte of the other blocks.
\<close>

theorem heap_safe:
  assumes "heap_reach base M A h"
  shows "heap_inv base M A h \<and>
    (\<forall>nbytes s. unat nbytes < 2 ^ 31 - 16 \<longrightarrow> (\<forall>r rs. replies s = r # rs \<longrightarrow> sbrk_ok base M (unat (core_units (nunits nbytes))) r) \<longrightarrow>
       malloc_ends base M A (nunits nbytes) h s (malloc base nbytes h s) \<and> unat nbytes \<le> 8 * (unat (nunits nbytes) - 1)) \<and>
    (\<forall>b \<in> A. \<exists>h'. free (units (fst b) 1) h = Some h' \<and> heap_reach base M (A - {b}) h' \<and>
       (\<forall>x. unat x \<in> held (A - {b}) \<longrightarrow> hmem h' x = hmem h x))"
proof (intro conjI allI impI ballI)
  note inv = heap_reach_inv [OF assms]
  show "heap_inv base M A h" by (rule inv)
  show "malloc_ends base M A (nunits nbytes) h s (malloc base nbytes h s)"
    if "unat nbytes < 2 ^ 31 - 16" "\<forall>r rs. replies s = r # rs \<longrightarrow> sbrk_ok base M (unat (core_units (nunits nbytes))) r" for nbytes s
    using malloc_inv [OF inv nunits_bounds(1,2) [OF that(1)]] that(2) by blast
  show "unat nbytes \<le> 8 * (unat (nunits nbytes) - 1)" if "unat nbytes < 2 ^ 31 - 16" for nbytes by (rule nunits_bounds(3) [OF that])
  show "\<exists>h'. free (units (fst b) 1) h = Some h' \<and> heap_reach base M (A - {b}) h' \<and>
      (\<forall>x. unat x \<in> held (A - {b}) \<longrightarrow> hmem h' x = hmem h x)" if "b \<in> A" for b
    using free_inv [OF inv that] heap_reach.release [OF assms that] by blast
qed

declare free_loop.simps [code] malloc_loop.simps [code]

definition heap0 :: uheap where
  "heap0 = \<lparr>hmem = (\<lambda>_. 0), freep = 0\<rparr>"

definition malloc_result :: "(uint \<times> uheap) uout option \<Rightarrow> uint option" where
  "malloc_result r = (case r of Some (URet x s) \<Rightarrow> Some (fst x) | _ \<Rightarrow> None)"

theorem heap_safe_witness:
  "heap_reach 0x1000 {} {} heap0 \<and>
   malloc_ends 0x1000 {} {} 4 heap0 (script [\<lparr>rv = 0x4000, rdata = []\<rparr>] []) (malloc 0x1000 20 heap0 (script [\<lparr>rv = 0x4000, rdata = []\<rparr>] [])) \<and>
   malloc_result (malloc 0x1000 20 heap0 (script [\<lparr>rv = 0x4000, rdata = []\<rparr>] [])) = Some 0xbfe8"
proof (intro conjI)
  show r: "heap_reach 0x1000 {} {} heap0" by (rule heap_reach.start) (simp_all add: heap0_def)
  have n: "nunits 20 = 4" by (simp add: nunits_def sizeof_Header_def)
  show "malloc_ends 0x1000 {} {} 4 heap0 (script [\<lparr>rv = 0x4000, rdata = []\<rparr>] []) (malloc 0x1000 20 heap0 (script [\<lparr>rv = 0x4000, rdata = []\<rparr>] []))"
    using heap_safe [OF r, THEN conjunct2, THEN conjunct1, rule_format, of 20 "script [\<lparr>rv = 0x4000, rdata = []\<rparr>] []"] n
    by (simp add: sbrk_ok_def core_units_def)
  show "malloc_result (malloc 0x1000 20 heap0 (script [\<lparr>rv = 0x4000, rdata = []\<rparr>] [])) = Some 0xbfe8" by code_simp
qed

text \<open>
  (C32) The size computation of \<^verbatim>\<open>malloc\<close> wraps around: asked for 4 GB less up to 7 bytes it takes one unit, so when it does not fail it
  returns a block with no room behind the header.
\<close>

theorem malloc_size_wraps:
  assumes "heap_reach base M A h" "0xFFFFFFF9 \<le> nbytes" "\<forall>r rs. replies s = r # rs \<longrightarrow> sbrk_ok base M 4096 r"
  shows "malloc_ends base M A 1 h s (malloc base nbytes h s) \<and> (\<forall>a. block_end (a, 1) = unat a + 8)"
proof -
  have "nbytes + 7 < 8"
  proof -
    have "unat nbytes < 2 ^ 32" "0xFFFFFFF9 \<le> unat nbytes" using unat_uint_less assms(2) by (auto simp: word_le_nat_alt)
    then have "unat (nbytes + of_nat 7) = unat nbytes + 7 - 2 ^ 32" unfolding unat_add_of_nat by (simp add: mod_if)
    then show ?thesis using \<open>unat nbytes < 2 ^ 32\<close> by (simp add: word_less_nat_alt)
  qed
  then have "(nbytes + 7) div 8 = 0" by (simp add: word_less_nat_alt word_unat_eq_iff unat_div)
  then have n: "nunits nbytes = 1" by (simp add: nunits_def sizeof_Header_def add.commute)
  have "malloc_ends base M A (nunits nbytes) h s (malloc base nbytes h s)"
    by (rule malloc_inv [OF heap_reach_inv [OF assms(1)]]) (use assms(3) in \<open>simp_all add: n core_units_def\<close>)
  then show ?thesis by (simp add: n block_end_def)
qed

theorem malloc_size_wraps_witness:
  "malloc_ends 0x1000 {} {} 1 heap0 (script [\<lparr>rv = 0x4000, rdata = []\<rparr>] []) (malloc 0x1000 0xFFFFFFFF heap0 (script [\<lparr>rv = 0x4000, rdata = []\<rparr>] [])) \<and>
   malloc_result (malloc 0x1000 0xFFFFFFFF heap0 (script [\<lparr>rv = 0x4000, rdata = []\<rparr>] [])) = Some 0xc000"
proof (intro conjI)
  have r: "heap_reach 0x1000 {} {} heap0" by (rule heap_reach.start) (simp_all add: heap0_def)
  show "malloc_ends 0x1000 {} {} 1 heap0 (script [\<lparr>rv = 0x4000, rdata = []\<rparr>] []) (malloc 0x1000 0xFFFFFFFF heap0 (script [\<lparr>rv = 0x4000, rdata = []\<rparr>] []))"
    using malloc_size_wraps [OF r, of "0xFFFFFFFF" "script [\<lparr>rv = 0x4000, rdata = []\<rparr>] []"] by (simp add: sbrk_ok_def)
  show "malloc_result (malloc 0x1000 0xFFFFFFFF heap0 (script [\<lparr>rv = 0x4000, rdata = []\<rparr>] [])) = Some 0xc000" by code_simp
qed

end
