(* ===== verification/Spec2Isabelle.thy ===== *)
theory Spec2Isabelle
  imports Memide Boot Kvm Programs Sh Umalloc
begin

text \<open>A verification library for xv6.\<close>

end
